(* ===== verification/Prelude.thy ===== *)
theory Prelude
  imports Main "HOL-Library.Word" "HOL-Library.Monad_Syntax" "HOL-Library.Multiset"
begin

unbundle bit_operations_syntax

section \<open>Machine types, slab lists and shared facts\<close>

text \<open>
  What every component of the development shares.

  \<^item> The machine integers: \<open>u64\<close> and \<open>u32\<close> are words, so arithmetic on them wraps as
    Rust's \<open>wrapping_\<close> operations (and release builds) do.  A \<open>usize\<close> that counts or indexes
    is a \<open>nat\<close>; \<open>isize\<close> is an \<open>int\<close> with saturation and casts written out.
  \<^item> The bit scans of the standard library (\<open>leading_zeros\<close>, \<open>trailing_zeros\<close>).
  \<^item> Lists threaded through a slab by index: both the timer wheel (\<open>src/src/time/wheel.rs\<close>)
    and the waiter list (\<open>src/src/sync/local/waiters.rs\<close>) link entries of a vector by
    \<open>prev\<close>/\<open>next\<close> indices with \<open>NIL\<close> as the end, and keep a free list through
    \<open>next\<close>.  \<open>lseg\<close> and \<open>prevs\<close> say what such a list is, and the lemmas say what pushing
    and unlinking do to it.
\<close>

subsection \<open>Machine integers\<close>

type_synonym u64 = "64 word"
type_synonym u32 = "32 word"

text \<open>\<open>usize::MAX\<close> and \<open>isize::MAX\<close> of a 64-bit target.\<close>

definition usize_max :: nat where
  "usize_max = 2 ^ 64 - 1"

definition isize_max :: int where
  "isize_max = 2 ^ 63 - 1"

definition isize_min :: int where
  "isize_min = - (2 ^ 63)"

text \<open>\<open>isize::saturating_add\<close>, and the cast \<open>n as isize\<close> of a \<open>usize\<close>.\<close>

definition isize_saturating_add :: "int \<Rightarrow> int \<Rightarrow> int" where
  "isize_saturating_add a b = max isize_min (min isize_max (a + b))"

definition as_isize :: "nat \<Rightarrow> int" where
  "as_isize n = (if int n \<le> isize_max then int n else int n - 2 ^ 64)"

lemma as_isize_small [simp]: "int n \<le> isize_max \<Longrightarrow> as_isize n = int n"
  by (simp add: as_isize_def)

lemma isize_saturating_add_exact:
  "isize_min \<le> a + b \<Longrightarrow> a + b \<le> isize_max \<Longrightarrow> isize_saturating_add a b = a + b"
  by (simp add: isize_saturating_add_def)

lemma isize_saturating_add_le: "isize_saturating_add a b \<le> isize_max"
  by (simp add: isize_saturating_add_def isize_max_def isize_min_def)

text \<open>\<open>u64::leading_zeros\<close> and \<open>u64::trailing_zeros\<close>.\<close>

definition leading_zeros :: "u64 \<Rightarrow> nat" where
  "leading_zeros x = length (takeWhile (\<lambda>i. \<not> bit x (63 - i)) [0..<64])"

definition trailing_zeros :: "u64 \<Rightarrow> nat" where
  "trailing_zeros x = length (takeWhile (\<lambda>i. \<not> bit x i) [0..<64])"

lemma nth_upd: "j < length xs \<Longrightarrow> xs[i := x] ! j = (if i = j then x else xs ! j)"
  by (cases "i = j") auto

subsection \<open>Lists linked by index in a slab\<close>

text \<open>The end of a list: \<open>const NIL: usize = usize::MAX\<close>.\<close>

definition NIL :: nat where
  "NIL = usize_max"

text \<open>
  \<open>lseg nx h xs e\<close>: following \<open>nx\<close> from \<open>h\<close> visits \<open>xs\<close> and then reaches \<open>e\<close>;
  \<open>prevs pv p xs\<close>: each of \<open>xs\<close> has the one before it as its \<open>pv\<close>, the first one \<open>p\<close>.
\<close>

fun lseg :: "(nat \<Rightarrow> nat) \<Rightarrow> nat \<Rightarrow> nat list \<Rightarrow> nat \<Rightarrow> bool" where
  "lseg nx h [] e \<longleftrightarrow> h = e"
| "lseg nx h (x # xs) e \<longleftrightarrow> h = x \<and> x \<noteq> NIL \<and> lseg nx (nx x) xs e"

fun prevs :: "(nat \<Rightarrow> nat) \<Rightarrow> nat \<Rightarrow> nat list \<Rightarrow> bool" where
  "prevs pv p [] \<longleftrightarrow> True"
| "prevs pv p (x # xs) \<longleftrightarrow> pv x = p \<and> prevs pv x xs"

abbreviation chain :: "(nat \<Rightarrow> nat) \<Rightarrow> nat \<Rightarrow> nat list \<Rightarrow> bool" where
  "chain nx h xs \<equiv> lseg nx h xs NIL"

lemma lseg_cong:
  "(\<And>x. x \<in> set xs \<Longrightarrow> nx x = nx' x) \<Longrightarrow> lseg nx h xs e = lseg nx' h xs e"
  by (induction xs arbitrary: h) auto

lemma prevs_cong:
  "(\<And>x. x \<in> set xs \<Longrightarrow> pv x = pv' x) \<Longrightarrow> prevs pv p xs = prevs pv' p xs"
  by (induction xs arbitrary: p) auto

lemma lseg_append:
  "lseg nx h (xs @ ys) e \<longleftrightarrow> (\<exists>m. lseg nx h xs m \<and> lseg nx m ys e)"
  by (induction xs arbitrary: h) auto

lemma prevs_append: "prevs pv p (xs @ ys) \<longleftrightarrow> prevs pv p xs \<and> prevs pv (last (p # xs)) ys"
  by (induction xs arbitrary: p) auto

lemma lseg_end_unique: "lseg nx h xs e \<Longrightarrow> lseg nx h xs e' \<Longrightarrow> e = e'"
  by (induction xs arbitrary: h) auto

lemma chain_unique: "chain nx h xs \<Longrightarrow> chain nx h ys \<Longrightarrow> xs = ys"
proof (induction xs arbitrary: h ys)
  case Nil
  then show ?case by (cases ys) auto
next
  case (Cons x xs)
  then show ?case by (cases ys) auto
qed

lemma chain_NIL_iff [simp]: "chain nx NIL xs \<longleftrightarrow> xs = []"
  by (cases xs) auto

lemma chain_not_NIL: "h \<noteq> NIL \<Longrightarrow> chain nx h xs \<Longrightarrow> \<exists>ys. xs = h # ys \<and> chain nx (nx h) ys"
  by (cases xs) auto

lemma chain_head_iff: "chain nx h xs \<Longrightarrow> h = NIL \<longleftrightarrow> xs = []"
  by (cases xs) auto

lemma chain_head: "chain nx h xs \<Longrightarrow> h = (case xs of [] \<Rightarrow> NIL | x # _ \<Rightarrow> x)"
  by (cases xs) auto

lemma prevs_mid: "prevs pv p (xs @ i # ys) \<Longrightarrow> pv i = last (p # xs)"
  by (simp add: prevs_append)

lemma chain_mid: "chain nx h (xs @ i # ys) \<Longrightarrow> nx i = (case ys of [] \<Rightarrow> NIL | y # _ \<Rightarrow> y)"
  by (auto simp: lseg_append dest: chain_head)

lemma chain_no_NIL: "lseg nx h xs e \<Longrightarrow> NIL \<notin> set xs"
  by (induction xs arbitrary: h) auto

text \<open>Pushing \<open>i\<close> in front of a list.\<close>

lemma chain_push_front:
  assumes "chain nx h xs" and "i \<notin> set xs" and "i \<noteq> NIL"
  shows "chain (nx(i := h)) i (i # xs)"
proof -
  have "chain (nx(i := h)) h xs"
    using assms(1,2) by (subst lseg_cong [where nx' = nx]) auto
  with assms show ?thesis by simp
qed

lemma prevs_push_front:
  assumes "prevs pv p xs" and "i \<notin> set xs" and "distinct xs"
    and "\<And>x. x \<in> set xs \<Longrightarrow> pv' x = (if x = hd xs then i else pv x)" and "pv' i = p"
  shows "prevs pv' p (i # xs)"
proof (cases xs)
  case Nil
  with assms show ?thesis by simp
next
  case (Cons y ys)
  have "prevs pv' y ys = prevs pv y ys"
    using assms(3,4) Cons by (intro prevs_cong) auto
  with assms Cons show ?thesis by simp
qed

text \<open>Pushing \<open>i\<close> behind the last element.\<close>

lemma lseg_push_back:
  assumes "chain nx h xs" and "i \<notin> set xs" and "i \<noteq> NIL" and "distinct xs"
    and "\<And>x. x \<in> set xs \<Longrightarrow> nx' x = (if x = last xs then i else nx x)" and "nx' i = NIL"
  shows "chain nx' (if xs = [] then i else h) (xs @ [i])"
proof (cases xs rule: rev_cases)
  case Nil
  with assms show ?thesis by simp
next
  case (snoc ys y)
  have "lseg nx' h ys y = lseg nx h ys y"
    using assms(4,5) snoc by (intro lseg_cong) auto
  moreover have "lseg nx h ys y"
    using assms(1) snoc by (auto simp: lseg_append)
  moreover have "nx' y = i"
    using assms(5) snoc by simp
  ultimately show ?thesis
    using assms snoc by (auto simp: lseg_append)
qed

lemma prevs_push_back:
  assumes "prevs pv p xs" and "i \<notin> set xs"
  shows "prevs (pv(i := last (p # xs))) p (xs @ [i])"
proof -
  have "prevs (pv(i := last (p # xs))) p xs = prevs pv p xs"
    by (rule prevs_cong) (use assms(2) in auto)
  with assms(1) show ?thesis by (simp add: prevs_append)
qed

text \<open>
  Taking \<open>i\<close> out of the middle: its predecessor (or the head) goes on with its successor, and
  its successor's \<open>prev\<close> becomes its predecessor.
\<close>

lemma chain_unlink:
  assumes c: "chain nx h (xs @ i # ys)" and d: "distinct (xs @ i # ys)"
    and nx': "\<And>x. x \<in> set (xs @ ys) \<Longrightarrow> nx' x = (if xs \<noteq> [] \<and> x = last xs then nx i else nx x)"
  shows "chain nx' (if xs = [] then nx i else h) (xs @ ys)"
proof -
  have ys: "chain nx (nx i) ys" and xs: "lseg nx h xs i"
    using c by (auto simp: lseg_append)
  have "lseg nx' (nx i) ys NIL = lseg nx (nx i) ys NIL"
  proof (intro lseg_cong)
    fix x assume x: "x \<in> set ys"
    then have "x \<notin> set xs" using d by auto
    then have "\<not> (xs \<noteq> [] \<and> x = last xs)" by auto
    then show "nx' x = nx x" using nx' [of x] x by auto
  qed
  then have ys': "chain nx' (nx i) ys" using ys by simp
  show ?thesis
  proof (cases xs rule: rev_cases)
    case Nil
    with ys' show ?thesis by simp
  next
    case (snoc zs z)
    have "lseg nx' h zs z = lseg nx h zs z"
      using d nx' snoc by (intro lseg_cong) auto
    moreover have "lseg nx h zs z" and "z \<noteq> NIL"
      using xs snoc by (auto simp: lseg_append)
    moreover have "nx' z = nx i"
      using nx' snoc by simp
    ultimately show ?thesis
      using ys' snoc by (auto simp: lseg_append)
  qed
qed

lemma prevs_unlink:
  assumes c: "prevs pv p (xs @ i # ys)" and d: "distinct (xs @ i # ys)"
    and pv': "\<And>x. x \<in> set (xs @ ys) \<Longrightarrow> pv' x = (if ys \<noteq> [] \<and> x = hd ys then pv i else pv x)"
  shows "prevs pv' p (xs @ ys)"
proof -
  have xs: "prevs pv p xs" and i: "pv i = last (p # xs)" and ys: "prevs pv i ys"
    using c by (auto simp: prevs_append)
  have "prevs pv' p xs = prevs pv p xs"
  proof (intro prevs_cong)
    fix x assume x: "x \<in> set xs"
    then have "x \<notin> set ys" using d by auto
    then have "\<not> (ys \<noteq> [] \<and> x = hd ys)" by auto
    then show "pv' x = pv x" using pv' [of x] x by auto
  qed
  with xs have xs': "prevs pv' p xs" by simp
  show ?thesis
  proof (cases ys)
    case Nil
    with xs' show ?thesis by simp
  next
    case (Cons y zs)
    have "prevs pv' y zs = prevs pv y zs"
      using d pv' Cons by (intro prevs_cong) auto
    with xs' ys Cons i pv' show ?thesis by (simp add: prevs_append)
  qed
qed

end
