(* ===== verification/Wheel.thy ===== *)
theory Wheel
  imports Prelude
begin

unbundle bit_operations_syntax

section \<open>The timing wheel: data and operations\<close>

text \<open>
  The model of \<open>src/src/time/wheel.rs\<close>: a shard's timers in six levels of 64 slots.  The
  slab of entries, the doubly linked slot lists, the free list, the occupancy bitmaps and the
  generations of the keys are kept as the code keeps them.  Times, bitmaps and generations are
  \<open>u64\<close> words; slab indices are \<open>nat\<close>, with \<open>NIL\<close> for \<open>usize::MAX\<close>.  A waker is
  a value of a type parameter \<open>'w\<close>, on which \<open>will_wake\<close> is equality.

  The two loops of \<open>advance\<close> follow index links and run while slots are due, so they are
  partial functions into \<open>option\<close>: \<open>None\<close> is a loop that does not end.  The theories that
  follow prove that they return.
\<close>

subsection \<open>Constants and types\<close>

definition SLOT_BITS :: nat where
  "SLOT_BITS = 6"

definition SLOTS :: nat where
  "SLOTS = 2 ^ SLOT_BITS"

definition LEVELS :: nat where
  "LEVELS = 6"

definition SPAN :: u64 where
  "SPAN = push_bit (SLOT_BITS * LEVELS) 1"

record timer_key =
  key_index :: nat
  key_generation :: u64

datatype place = Free | Armed nat nat

record 'w entry =
  ewhen :: u64
  ewaker :: "'w option"
  eprev :: nat
  enext :: nat
  egeneration :: u64
  eplace :: place

record level =
  occupied :: u64
  heads :: "nat list"

definition level_new :: level where
  "level_new = \<lparr>occupied = 0, heads = replicate SLOTS NIL\<rparr>"

record 'w wheel =
  elapsed :: u64
  levels :: "level list"
  entries :: "'w entry list"
  free :: nat
  armed :: nat
  phantom :: nat
  tag :: u64

subsection \<open>Placement\<close>

definition level_for :: "u64 \<Rightarrow> u64 \<Rightarrow> nat" where
  "level_for now when =
     (let masked = min ((now XOR when) OR (of_nat SLOTS - 1)) (SPAN - 1);
          significant = 63 - leading_zeros masked
      in significant div SLOT_BITS)"

definition slot_for :: "u64 \<Rightarrow> nat \<Rightarrow> nat" where
  "slot_for when level = unat (drop_bit (level * SLOT_BITS) when) AND (SLOTS - 1)"

text \<open>The definition the fast \<open>level_for\<close> is measured against.\<close>

definition level_by_windows :: "u64 \<Rightarrow> u64 \<Rightarrow> nat" where
  "level_by_windows now when =
     (case find (\<lambda>l. let width = SLOT_BITS * (l + 1)
                     in drop_bit width now = drop_bit width when) [0..<LEVELS]
      of Some l \<Rightarrow> l | None \<Rightarrow> LEVELS - 1)"

subsection \<open>Making a wheel\<close>

definition wheel_new :: "'w wheel" where
  "wheel_new = \<lparr>elapsed = 0, levels = replicate LEVELS level_new, entries = [], free = NIL,
     armed = 0, phantom = 0, tag = 0\<rparr>"

definition tagged :: "u64 \<Rightarrow> 'w wheel" where
  "tagged t = wheel_new\<lparr>tag := t\<rparr>"

definition set_phantom :: "nat \<Rightarrow> 'w wheel \<Rightarrow> 'w wheel" where
  "set_phantom n w = w\<lparr>armed := armed w - phantom w + n, phantom := n\<rparr>"

definition take_wakers :: "'w wheel \<Rightarrow> 'w list \<times> 'w wheel" where
  "take_wakers w = (List.map_filter ewaker (entries w),
     w\<lparr>entries := map (\<lambda>e. e\<lparr>ewaker := None\<rparr>) (entries w)\<rparr>)"

subsection \<open>The slab and the slot lists\<close>

abbreviation upd_entry :: "nat \<Rightarrow> ('w entry \<Rightarrow> 'w entry) \<Rightarrow> 'w entry list \<Rightarrow> 'w entry list" where
  "upd_entry i f es \<equiv> es[i := f (es ! i)]"

definition link :: "nat \<Rightarrow> 'w wheel \<Rightarrow> 'w wheel" where
  "link index w =
     (let when = ewhen (entries w ! index);
          placed = min when (elapsed w + SPAN - 1);
          level = level_for (elapsed w) placed;
          slot = slot_for placed level;
          lv = levels w ! level;
          head = heads lv ! slot;
          lv' = lv\<lparr>heads := (heads lv)[slot := index], occupied := occupied lv OR push_bit slot 1\<rparr>;
          es = (if head \<noteq> NIL then upd_entry head (\<lambda>e. e\<lparr>eprev := index\<rparr>) (entries w)
                else entries w)
      in w\<lparr>levels := (levels w)[level := lv'],
           entries := upd_entry index
             (\<lambda>e. e\<lparr>eprev := NIL, enext := head, eplace := Armed level slot\<rparr>) es,
           armed := armed w + 1\<rparr>)"

definition unlink :: "nat \<Rightarrow> 'w wheel \<Rightarrow> 'w wheel" where
  "unlink index w =
     (case eplace (entries w ! index) of
        Free \<Rightarrow> w
      | Armed level slot \<Rightarrow>
          (let prev = eprev (entries w ! index);
               nxt = enext (entries w ! index);
               lv = levels w ! level;
               w1 = (if prev = NIL then
                       w\<lparr>levels := (levels w)[level :=
                          lv\<lparr>heads := (heads lv)[slot := nxt],
                             occupied := (if nxt = NIL then occupied lv AND NOT (push_bit slot 1)
                                          else occupied lv)\<rparr>]\<rparr>
                     else w\<lparr>entries := upd_entry prev (\<lambda>e. e\<lparr>enext := nxt\<rparr>) (entries w)\<rparr>);
               w2 = (if nxt \<noteq> NIL then
                       w1\<lparr>entries := upd_entry nxt (\<lambda>e. e\<lparr>eprev := prev\<rparr>) (entries w1)\<rparr>
                     else w1)
           in w2\<lparr>armed := armed w2 - 1\<rparr>))"

definition grow :: "'w wheel \<Rightarrow> nat \<times> 'w wheel" where
  "grow w = (length (entries w), w\<lparr>entries := entries w @
     [\<lparr>ewhen = 0, ewaker = None, eprev = NIL, enext = NIL, egeneration = tag w, eplace = Free\<rparr>]\<rparr>)"

definition alloc :: "'w wheel \<Rightarrow> nat \<times> 'w wheel" where
  "alloc w = (if free w \<noteq> NIL then (free w, w\<lparr>free := enext (entries w ! free w)\<rparr>) else grow w)"

definition wheel_release :: "nat \<Rightarrow> 'w wheel \<Rightarrow> 'w option \<times> 'w wheel" where
  "wheel_release index w =
     (ewaker (entries w ! index),
      w\<lparr>entries := upd_entry index
          (\<lambda>e. e\<lparr>ewaker := None, eplace := Free, egeneration := egeneration e + 1, enext := free w\<rparr>)
          (entries w),
        free := index\<rparr>)"

subsection \<open>Keys\<close>

definition entry_of :: "timer_key \<Rightarrow> 'w wheel \<Rightarrow> 'w entry option" where
  "entry_of key w =
     (if key_index key < length (entries w) then
        (let e = entries w ! key_index key
         in if egeneration e = key_generation key \<and> eplace e \<noteq> Free then Some e else None)
      else None)"

definition live :: "timer_key \<Rightarrow> 'w wheel \<Rightarrow> nat option" where
  "live key w = map_option (\<lambda>_. key_index key) (entry_of key w)"

definition is_fired :: "timer_key \<Rightarrow> 'w wheel \<Rightarrow> bool" where
  "is_fired key w \<longleftrightarrow> entry_of key w = None"

definition wakes :: "timer_key \<Rightarrow> 'w \<Rightarrow> 'w wheel \<Rightarrow> bool" where
  "wakes key waker w =
     (case entry_of key w of None \<Rightarrow> False
      | Some e \<Rightarrow> (case ewaker e of None \<Rightarrow> False | Some old \<Rightarrow> old = waker))"

definition replace_waker :: "timer_key \<Rightarrow> 'w \<Rightarrow> 'w wheel \<Rightarrow> 'w option \<times> 'w wheel" where
  "replace_waker key waker w =
     (case live key w of
        Some index \<Rightarrow> (ewaker (entries w ! index),
          w\<lparr>entries := upd_entry index (\<lambda>e. e\<lparr>ewaker := Some waker\<rparr>) (entries w)\<rparr>)
      | None \<Rightarrow> (Some waker, w))"

subsection \<open>Arming and removing\<close>

definition wheel_insert :: "u64 \<Rightarrow> 'w \<Rightarrow> 'w wheel \<Rightarrow> ('w + timer_key) \<times> 'w wheel" where
  "wheel_insert when waker w =
     (if when \<le> elapsed w then (Inl waker, w)
      else
        (let (index, w1) = alloc w;
             w2 = w1\<lparr>entries := upd_entry index
                       (\<lambda>e. e\<lparr>ewhen := when, ewaker := Some waker\<rparr>) (entries w1)\<rparr>;
             w3 = link index w2
         in (Inr \<lparr>key_index = index, key_generation = egeneration (entries w3 ! index)\<rparr>, w3)))"

definition wheel_remove :: "timer_key \<Rightarrow> 'w wheel \<Rightarrow> 'w option \<times> 'w wheel" where
  "wheel_remove key w =
     (case live key w of
        None \<Rightarrow> (None, w)
      | Some index \<Rightarrow> wheel_release index (unlink index w))"

text \<open>Moving a timer, as the tests of the wheel do.\<close>

definition wheel_reset :: "timer_key \<Rightarrow> u64 \<Rightarrow> 'w \<Rightarrow> 'w wheel \<Rightarrow> 'w wheel" where
  "wheel_reset key when waker w =
     (case live key w of
        None \<Rightarrow> w
      | Some index \<Rightarrow>
          (let w1 = unlink index w
           in if when \<le> elapsed w1 then snd (wheel_release index w1)
              else link index (w1\<lparr>entries := upd_entry index
                     (\<lambda>e. e\<lparr>ewhen := when,
                            ewaker := (if ewaker e = Some waker then ewaker e else Some waker)\<rparr>)
                     (entries w1)\<rparr>)))"

subsection \<open>The next slot\<close>

definition level_look :: "u64 \<Rightarrow> nat \<Rightarrow> level \<Rightarrow> nat \<times> u64" where
  "level_look now level lv =
     (let shift = level * SLOT_BITS;
          now_slot = slot_for now level;
          range = push_bit (shift + SLOT_BITS) (1 :: u64);
          window = now AND NOT (range - 1);
          after = (if now_slot + 1 < SLOTS then occupied lv AND push_bit (now_slot + 1) (- 1) else 0)
      in if after \<noteq> 0 then
           (let slot = trailing_zeros after in (slot, window + push_bit shift (of_nat slot)))
         else
           (let slot = trailing_zeros (occupied lv)
            in (slot, window + range + push_bit shift (of_nat slot))))"

fun next_slot_from :: "u64 \<Rightarrow> nat \<Rightarrow> (nat \<times> nat \<times> u64) option \<Rightarrow> level list
    \<Rightarrow> (nat \<times> nat \<times> u64) option" where
  "next_slot_from now level best [] = best"
| "next_slot_from now level best (lv # lvs) =
     (if occupied lv = 0 then next_slot_from now (level + 1) best lvs
      else
        (let (slot, deadline) = level_look now level lv;
             better = (case best of None \<Rightarrow> True | Some (_, _, d) \<Rightarrow> deadline < d)
         in next_slot_from now (level + 1) (if better then Some (level, slot, deadline) else best) lvs))"

definition next_slot :: "'w wheel \<Rightarrow> (nat \<times> nat \<times> u64) option" where
  "next_slot w = next_slot_from (elapsed w) 0 None (levels w)"

definition next_deadline :: "'w wheel \<Rightarrow> u64 option" where
  "next_deadline w = map_option (\<lambda>(_, _, deadline). deadline) (next_slot w)"

subsection \<open>Advancing\<close>

partial_function (option) drain ::
    "u64 \<Rightarrow> nat \<Rightarrow> 'w wheel \<Rightarrow> 'w list \<Rightarrow> ('w wheel \<times> 'w list) option" where
  "drain now index w fired =
     (if index = NIL then Some (w, fired)
      else
        (let e = entries w ! index; nxt = enext e
         in if ewhen e \<le> now then
              drain now nxt
                (snd (wheel_release index (w\<lparr>armed := armed w - 1,
                        entries := upd_entry index (\<lambda>e. e\<lparr>ewaker := None\<rparr>) (entries w)\<rparr>)))
                (case ewaker e of Some waker \<Rightarrow> fired @ [waker] | None \<Rightarrow> fired)
            else
              drain now nxt (link index (w\<lparr>armed := armed w - 1\<rparr>)) fired))"

definition take_slot :: "nat \<Rightarrow> nat \<Rightarrow> u64 \<Rightarrow> 'w wheel \<Rightarrow> nat \<times> 'w wheel" where
  "take_slot level slot deadline w =
     (let lv = levels w ! level
      in (heads lv ! slot,
          w\<lparr>elapsed := deadline,
            levels := (levels w)[level := lv\<lparr>heads := (heads lv)[slot := NIL],
                                   occupied := occupied lv AND NOT (push_bit slot 1)\<rparr>]\<rparr>))"

partial_function (option) advance_loop ::
    "u64 \<Rightarrow> 'w wheel \<Rightarrow> 'w list \<Rightarrow> ('w wheel \<times> 'w list) option" where
  "advance_loop now w fired =
     (case next_slot w of
        None \<Rightarrow> Some (w, fired)
      | Some (level, slot, deadline) \<Rightarrow>
          if deadline > now then Some (w, fired)
          else
            Option.bind
              (drain now (fst (take_slot level slot deadline w))
                 (snd (take_slot level slot deadline w)) fired)
              (\<lambda>r. advance_loop now (fst r) (snd r)))"

declare drain.simps [code] advance_loop.simps [code]

definition advance :: "u64 \<Rightarrow> 'w wheel \<Rightarrow> 'w list \<Rightarrow> ('w wheel \<times> 'w list) option" where
  "advance now w fired =
     map_option (\<lambda>(w', fired'). (w'\<lparr>elapsed := max (elapsed w') now\<rparr>, fired'))
       (advance_loop now w fired)"

end
