(* ===== verification/Wheel_Arith.thy ===== *)
theory Wheel_Arith
  imports Wheel
begin

unbundle bit_operations_syntax

section \<open>The arithmetic of the wheel's placement\<close>

text \<open>
  What the bit operations of \<open>level_for\<close>, \<open>slot_for\<close> and \<open>next_slot\<close> compute, as
  statements on natural numbers.  \<open>tick E l s\<close> is the moment slot \<open>s\<close> of level \<open>l\<close> is
  reached next by a wheel whose time is \<open>E\<close>: the first time after \<open>E\<close> that starts such a
  slot.  The whole correctness of the wheel rests on three facts about it: it does not move while
  the wheel's time approaches it, a deadline is never before the tick of the slot it is placed in,
  and two levels never tick at the same moment.
\<close>

subsection \<open>Bit scans\<close>

lemma takeWhile_upt:
  assumes "P n" and "n < m" and "\<And>j. j < n \<Longrightarrow> \<not> P j"
  shows "length (takeWhile (\<lambda>i. \<not> P i) [0..<m]) = n"
proof -
  have "[0..<m] = [0..<n] @ [n..<m]"
    using assms(2) by (metis less_imp_le_nat upt_add_eq_append zero_le le_add_diff_inverse)
  moreover have "[n..<m] = n # [Suc n..<m]"
    using assms(2) by (simp add: upt_conv_Cons)
  moreover have "takeWhile (\<lambda>i. \<not> P i) ([0..<n] @ n # [Suc n..<m]) = [0..<n]"
    using assms(1,3) by (subst takeWhile_append2) auto
  ultimately show ?thesis by simp
qed

lemma trailing_zeros_first:
  assumes "x \<noteq> 0"
  shows "trailing_zeros x < 64" and "bit x (trailing_zeros x)"
    and "\<And>j. j < trailing_zeros x \<Longrightarrow> \<not> bit x j"
proof -
  define n where "n = (LEAST n. bit x n)"
  have "\<exists>n. bit x n"
    using assms by (metis bit_eqI bit_0_eq bot_apply bot_bool_def)
  then have n: "bit x n" and least: "\<And>j. j < n \<Longrightarrow> \<not> bit x j"
    unfolding n_def by (auto intro: LeastI dest: not_less_Least)
  then have "n < 64"
    using bit_imp_le_length [OF n] by simp
  then have "trailing_zeros x = n"
    unfolding trailing_zeros_def using n least by (intro takeWhile_upt) auto
  with n least \<open>n < 64\<close> show "trailing_zeros x < 64" and "bit x (trailing_zeros x)"
    and "\<And>j. j < trailing_zeros x \<Longrightarrow> \<not> bit x j" by auto
qed

lemma leading_zeros_bounds:
  assumes "x \<noteq> 0"
  shows "leading_zeros x < 64" and "2 ^ (63 - leading_zeros x) \<le> unat x"
    and "unat x < 2 ^ (64 - leading_zeros x)"
proof -
  obtain b where b: "bit x b" "b < 64" and top: "\<And>j. bit x j \<Longrightarrow> j \<le> b"
  proof -
    have fin: "finite {n. bit x n}"
      by (rule finite_subset [of _ "{..<64}"]) (auto dest: bit_imp_le_length)
    have ne: "{n. bit x n} \<noteq> {}"
      using assms by (metis (mono_tags) bit_eqI bit_0_eq bot_apply bot_bool_def empty_iff mem_Collect_eq equals0D)
    have "bit x (Max {n. bit x n})"
      using Max_in [OF fin ne] by simp
    moreover have "Max {n. bit x n} < 64"
      using bit_imp_le_length [OF calculation] by simp
    moreover have "\<And>j. bit x j \<Longrightarrow> j \<le> Max {n. bit x n}"
      using fin by simp
    ultimately show thesis using that by blast
  qed
  have lz: "leading_zeros x = 63 - b"
  proof -
    have "length (takeWhile (\<lambda>i. \<not> bit x (63 - i)) [0..<64]) = 63 - b"
    proof (rule takeWhile_upt)
      show "bit x (63 - (63 - b))" using b by simp
      show "\<not> bit x (63 - j)" if "j < 63 - b" for j
        using top [of "63 - j"] that by auto
    qed simp
    then show ?thesis by (simp add: leading_zeros_def)
  qed
  have "drop_bit (Suc b) x = 0"
    by (rule bit_eqI) (use top in \<open>fastforce simp: bit_drop_bit_eq\<close>)
  then have "unat x div 2 ^ Suc b = 0"
    by (metis drop_bit_eq_div unat_drop_bit_eq unat_0)
  then have hi: "unat x < 2 ^ Suc b"
    by (simp add: div_eq_0_iff)
  have lo: "2 ^ b \<le> unat x"
  proof (rule ccontr)
    assume "\<not> 2 ^ b \<le> unat x"
    then have "unat x div 2 ^ b = 0" by simp
    then have "drop_bit b x = 0"
      by (metis drop_bit_eq_div unat_drop_bit_eq unat_eq_zero)
    then have "\<not> bit (drop_bit b x) 0" by simp
    with b show False by (simp add: bit_drop_bit_eq)
  qed
  show "leading_zeros x < 64" using lz by simp
  show "2 ^ (63 - leading_zeros x) \<le> unat x" using lz lo b by simp
  have "64 - leading_zeros x = Suc b" using lz b by simp
  then show "unat x < 2 ^ (64 - leading_zeros x)" using hi by simp
qed

subsection \<open>Words as numbers\<close>

lemma drop_bit_zero_iff: "drop_bit k (x :: u64) = 0 \<longleftrightarrow> unat x < 2 ^ k"
proof -
  have "drop_bit k x = 0 \<longleftrightarrow> unat x div 2 ^ k = 0"
    by (metis drop_bit_eq_div unat_drop_bit_eq unat_eq_zero)
  then show ?thesis by (simp add: div_eq_0_iff)
qed

lemma drop_bit_eq_iff: "drop_bit k (x :: u64) = drop_bit k y \<longleftrightarrow> unat x div 2 ^ k = unat y div 2 ^ k"
  by (metis drop_bit_eq_div unat_drop_bit_eq word_unat_eq_iff)

lemma xor_less_iff:
  "unat ((x :: u64) XOR y) < 2 ^ k \<longleftrightarrow> unat x div 2 ^ k = unat y div 2 ^ k"
proof -
  have "unat (x XOR y) < 2 ^ k \<longleftrightarrow> drop_bit k (x XOR y) = 0"
    by (simp only: drop_bit_zero_iff)
  also have "\<dots> \<longleftrightarrow> drop_bit k x XOR drop_bit k y = 0"
    by (simp only: drop_bit_xor)
  also have "\<dots> \<longleftrightarrow> drop_bit k x = drop_bit k y"
    by (simp only: bit_eq_iff bit_xor_iff bit_0_eq bot_apply bot_bool_def) auto
  finally show ?thesis by (simp add: drop_bit_eq_iff)
qed

lemma or_less_iff:
  "unat ((x :: u64) OR y) < 2 ^ k \<longleftrightarrow> unat x < 2 ^ k \<and> unat y < 2 ^ k"
proof -
  have "drop_bit k (x OR y) = 0 \<longleftrightarrow> drop_bit k x = 0 \<and> drop_bit k y = 0"
    by (simp only: drop_bit_or or_eq_0_iff)
  then show ?thesis by (simp only: drop_bit_zero_iff)
qed

lemma unat_min: "unat (min (x :: u64) y) = min (unat x) (unat y)"
  by (simp add: min_def word_le_nat_alt)

lemma unat_max: "unat (max (x :: u64) y) = max (unat x) (unat y)"
  by (simp add: max_def word_le_nat_alt)

lemma unat_SPAN: "unat SPAN = 2 ^ 36" "unat (SPAN - 1) = 2 ^ 36 - 1"
  by (simp_all add: SPAN_def SLOT_BITS_def LEVELS_def)


subsection \<open>Levels and slots\<close>

abbreviation pow64 :: "nat \<Rightarrow> nat" where
  "pow64 l \<equiv> 64 ^ l"

lemma pow64_2: "(2 :: nat) ^ (l * 6) = pow64 l" "(2 :: nat) ^ (6 * l) = pow64 l"
proof -
  show "(2 :: nat) ^ (6 * l) = pow64 l" by (simp add: power_mult)
  then show "(2 :: nat) ^ (l * 6) = pow64 l" by (simp only: mult.commute)
qed

lemma pow64_span: "pow64 6 = 2 ^ 36"
  by simp

lemma slot_for_nat: "slot_for x l = unat x div pow64 l mod 64"
proof -
  have "slot_for x l = take_bit 6 (unat (drop_bit (l * 6) x))"
    by (simp add: slot_for_def SLOTS_def SLOT_BITS_def take_bit_eq_mask mask_eq_exp_minus_1)
  also have "\<dots> = unat x div 2 ^ (l * 6) mod 64"
    by (simp only: unat_drop_bit_eq) (simp add: take_bit_eq_mod drop_bit_eq_div)
  finally show ?thesis by (simp add: pow64_2)
qed

lemma slot_for_less: "slot_for x l < SLOTS"
  by (simp add: slot_for_nat SLOTS_def SLOT_BITS_def)

lemma min_below:
  fixes x y z w :: nat
  assumes "x = min y z"
  shows "w \<le> z \<Longrightarrow> x < w \<Longrightarrow> y < w" and "x \<le> y" and "x \<le> z" and "w \<le> y \<Longrightarrow> w \<le> z \<Longrightarrow> w \<le> x"
  using assms by auto

lemma level_for_facts:
  fixes now t :: u64
  defines "E \<equiv> unat now" and "P \<equiv> unat t" and "L \<equiv> level_for now t"
  shows level_for_le: "L \<le> 5"
    and level_for_shares: "L < 5 \<Longrightarrow> E div pow64 (Suc L) = P div pow64 (Suc L)"
    and level_for_differs: "0 < L \<Longrightarrow> E div pow64 L \<noteq> P div pow64 L"
proof -
  define m where "m = min ((now XOR t) OR (of_nat SLOTS - 1)) (SPAN - 1)"
  have "(of_nat SLOTS - 1 :: u64) = 63"
    by (simp add: SLOTS_def SLOT_BITS_def)
  then have um: "unat m = min (unat ((now XOR t) OR 63)) (2 ^ 36 - 1)"
    by (simp only: m_def unat_min unat_SPAN)
  have "\<not> unat ((now XOR t) OR 63) < 2 ^ 5"
    unfolding or_less_iff by simp
  then have ge: "2 ^ 5 \<le> unat m"
    by (intro min_below(4) [OF um]) simp_all
  have lt: "unat m < 2 ^ 36"
    using min_below(3) [OF um] by simp
  have "m \<noteq> 0"
  proof
    assume "m = 0"
    with ge show False by simp
  qed
  define b where "b = 63 - leading_zeros m"
  have "64 - leading_zeros m = Suc b"
    using leading_zeros_bounds(1) [OF \<open>m \<noteq> 0\<close>] unfolding b_def by arith
  then have b: "2 ^ b \<le> unat m" "unat m < 2 ^ Suc b"
    using leading_zeros_bounds(2,3) [OF \<open>m \<noteq> 0\<close>] by (simp_all only: b_def)
  have "b < 36"
  proof (rule ccontr)
    assume "\<not> b < 36"
    then have "(2 :: nat) ^ 36 \<le> 2 ^ b" by (intro power_increasing) auto
    with b(1) lt show False by linarith
  qed
  have L: "L = b div 6"
    by (simp add: L_def level_for_def Let_def m_def b_def SLOT_BITS_def)
  with \<open>b < 36\<close> show "L \<le> 5" by simp
  show "E div pow64 (Suc L) = P div pow64 (Suc L)" if "L < 5"
  proof -
    have "Suc b \<le> 6 * Suc L" using L by simp
    then have "unat m < 2 ^ (6 * Suc L)"
      using b(2) by (meson less_le_trans one_le_numeral power_increasing)
    moreover have "(2 :: nat) ^ (6 * Suc L) \<le> 2 ^ 30"
      using that by (intro power_increasing) auto
    moreover have "(2 :: nat) ^ 30 \<le> 2 ^ 36 - 1" by simp
    ultimately have "unat ((now XOR t) OR 63) < 2 ^ (6 * Suc L)"
      by (meson le_trans min_below(1) [OF um])
    then have "unat (now XOR t) < 2 ^ (6 * Suc L)"
      unfolding or_less_iff by simp
    then show ?thesis
      unfolding xor_less_iff E_def P_def by (simp only: pow64_2)
  qed
  show "E div pow64 L \<noteq> P div pow64 L" if "0 < L"
  proof
    assume "E div pow64 L = P div pow64 L"
    then have "unat (now XOR t) < 2 ^ (6 * L)"
      unfolding xor_less_iff E_def P_def by (simp only: pow64_2)
    moreover have "unat (63 :: u64) < 2 ^ (6 * L)"
    proof -
      have "(2 :: nat) ^ 6 \<le> 2 ^ (6 * L)" using that by (intro power_increasing) auto
      then show ?thesis by simp
    qed
    ultimately have small: "unat ((now XOR t) OR 63) < 2 ^ (6 * L)"
      unfolding or_less_iff by simp
    have "6 * L \<le> b" using L by simp
    then have "(2 :: nat) ^ (6 * L) \<le> 2 ^ b" by (intro power_increasing) auto
    then show False
      using b(1) small min_below(2) [OF um] by (meson le_trans leD)
  qed
qed

text \<open>The bit trick and the definition by windows agree.\<close>

lemma find_upt_first:
  "P n \<Longrightarrow> n < m \<Longrightarrow> (\<And>j. j < n \<Longrightarrow> \<not> P j) \<Longrightarrow> find P [0..<m] = Some n"
  by (auto simp: find_Some_iff intro!: exI [of _ n])

lemma share_mono:
  fixes E P :: nat
  assumes "E div pow64 k = P div pow64 k" and "k \<le> n"
  shows "E div pow64 n = P div pow64 n"
proof -
  have "E div (pow64 k * pow64 (n - k)) = P div (pow64 k * pow64 (n - k))"
    unfolding div_mult2_eq assms(1) ..
  with assms(2) show ?thesis by (simp flip: power_add)
qed

lemma level_for_by_windows: "level_for now t = level_by_windows now t"
proof -
  define L where "L = level_for now t"
  define share where "share l \<longleftrightarrow> unat now div pow64 (Suc l) = unat t div pow64 (Suc l)" for l
  have found: "level_by_windows now t = (case find share [0..<6] of Some l \<Rightarrow> l | None \<Rightarrow> 5)"
  proof -
    have "(\<lambda>l. let width = SLOT_BITS * (l + 1) in drop_bit width now = drop_bit width t) = share"
      by (simp add: fun_eq_iff Let_def drop_bit_eq_iff SLOT_BITS_def share_def pow64_2 del: mult_Suc_right power_Suc)
    then show ?thesis
      unfolding level_by_windows_def LEVELS_def by (simp split: option.split)
  qed
  have below: "\<not> share l" if "l < L" for l
    using level_for_differs [of now t] share_mono [of "unat now" "Suc l" "unat t" L] that
    unfolding share_def L_def by auto
  show ?thesis
  proof (cases "share L \<and> L < 6")
    case True
    then have "find share [0..<6] = Some L" using below by (intro find_upt_first) auto
    with found show ?thesis by (simp add: L_def)
  next
    case False
    have "share L" if "L < 5"
      using level_for_shares [of now t] that unfolding share_def L_def by simp
    with False have "L = 5"
      using level_for_le [of now t] unfolding L_def by fastforce
    with False have "\<not> share 5" by simp
    then have "\<not> share l" if "l < 6" for l
      using that below [of l] \<open>L = 5\<close> by (cases "l = 5") auto
    then have "find share [0..<6] = None"
      by (simp add: find_None_iff)
    with found \<open>L = 5\<close> show ?thesis by (simp add: L_def)
  qed
qed

subsection \<open>When a slot is reached\<close>

definition tick :: "nat \<Rightarrow> nat \<Rightarrow> nat \<Rightarrow> nat" where
  "tick E l s =
     (let b = E div pow64 (Suc l) * pow64 (Suc l) + s * pow64 l
      in if E < b then b else b + pow64 (Suc l))"

lemma window_bounds:
  "E div pow64 (Suc l) * pow64 (Suc l) \<le> E" "E < E div pow64 (Suc l) * pow64 (Suc l) + pow64 (Suc l)"
proof -
  show "E div pow64 (Suc l) * pow64 (Suc l) \<le> E" by (rule div_times_less_eq_dividend)
  have "E mod pow64 (Suc l) < pow64 (Suc l)" by (rule mod_less_divisor) simp
  then show "E < E div pow64 (Suc l) * pow64 (Suc l) + pow64 (Suc l)"
    using div_mult_mod_eq [of E "pow64 (Suc l)"] by linarith
qed

lemma slot_offset: "s < 64 \<Longrightarrow> s * pow64 l + pow64 l \<le> pow64 (Suc l)"
proof -
  assume "s < 64"
  then have "Suc s * pow64 l \<le> 64 * pow64 l" by (intro mult_right_mono) auto
  then show ?thesis by simp
qed

abbreviation slot_base :: "nat \<Rightarrow> nat \<Rightarrow> nat \<Rightarrow> nat" where
  "slot_base E l s \<equiv> E div pow64 (Suc l) * pow64 (Suc l) + s * pow64 l"

lemma tick_cases:
  obtains (this_window) "E < slot_base E l s" "tick E l s = slot_base E l s"
  | (next_window) "slot_base E l s \<le> E" "tick E l s = slot_base E l s + pow64 (Suc l)"
  unfolding tick_def Let_def by (cases "E < slot_base E l s") (simp_all only: if_True if_False not_less)

lemma tick_gt: "E < tick E l s"
proof (cases E s l rule: tick_cases)
  case next_window
  then show ?thesis using window_bounds(2) [of E l] by linarith
qed simp

lemma tick_le: "s < 64 \<Longrightarrow> tick E l s \<le> E + pow64 (Suc l)"
proof (cases E s l rule: tick_cases)
  case this_window
  assume "s < 64"
  with this_window show ?thesis
    using slot_offset [of s l] window_bounds(1) [of E l] by linarith
qed simp

lemma slot_base_mod: "s < 64 \<Longrightarrow> slot_base E l s mod pow64 (Suc l) = s * pow64 l"
proof -
  assume "s < 64"
  then have "s * pow64 l < pow64 (Suc l)" by simp
  then show ?thesis by (simp only: mod_mult_self3 mod_less)
qed

lemma tick_mod: "s < 64 \<Longrightarrow> tick E l s mod pow64 (Suc l) = s * pow64 l"
  by (cases E s l rule: tick_cases) (simp_all only: slot_base_mod mod_add_self2)

lemma tick_least:
  assumes "E < T" and "T mod pow64 (Suc l) = s * pow64 l"
  shows "tick E l s \<le> T"
proof -
  define r where "r = pow64 (Suc l)"
  have T: "T = T div r * r + s * pow64 l"
    using assms(2) div_mult_mod_eq [of T r] unfolding r_def by simp
  have le: "E div r \<le> T div r"
    using assms(1) by (simp add: div_le_mono)
  show ?thesis
  proof (cases E s l rule: tick_cases)
    case this_window
    have "E div r * r \<le> T div r * r" using le by simp
    with this_window T show ?thesis unfolding r_def by linarith
  next
    case next_window
    then have "E div r * r < T div r * r"
      using assms(1) T unfolding r_def by linarith
    then have "E div r < T div r" by simp
    then have "Suc (E div r) * r \<le> T div r * r" by (intro mult_right_mono) auto
    then have "E div r * r + r \<le> T div r * r" by simp
    with next_window T show ?thesis unfolding r_def by linarith
  qed
qed

lemma tick_stable:
  assumes "s < 64" and "E \<le> E'" and "E' < tick E l s"
  shows "tick E' l s = tick E l s"
proof (rule antisym)
  show "tick E' l s \<le> tick E l s"
    using assms(3) tick_mod [OF assms(1)] by (rule tick_least)
  have "E < tick E' l s" using assms(2) tick_gt [of E' l s] by linarith
  then show "tick E l s \<le> tick E' l s"
    using tick_mod [OF assms(1)] by (rule tick_least)
qed

text \<open>
  Below the top level a slot is only ever used inside the window that holds the wheel's time.
  Such a tick is not the start of a window, so it never coincides with a tick of a level above.
\<close>

lemma tick_in_window_not_multiple:
  assumes "tick E l s div pow64 (Suc l) = E div pow64 (Suc l)"
  shows "tick E l s mod pow64 (Suc l) \<noteq> 0"
proof
  assume "tick E l s mod pow64 (Suc l) = 0"
  then have "tick E l s = E div pow64 (Suc l) * pow64 (Suc l)"
    using assms div_mult_mod_eq [of "tick E l s" "pow64 (Suc l)"] by (simp only: add_0_right)
  then show False
    using tick_gt [of E l s] window_bounds(1) [of E l] by linarith
qed

lemma tick_levels_differ:
  assumes "l < l'" and "s' < 64" and "tick E l s div pow64 (Suc l) = E div pow64 (Suc l)"
  shows "tick E l s \<noteq> tick E' l' s'"
proof
  assume eq: "tick E l s = tick E' l' s'"
  have "pow64 l' dvd tick E' l' s' mod pow64 (Suc l')"
    using tick_mod [OF assms(2), of E' l'] by simp
  then have "pow64 l' dvd tick E' l' s'"
    by (metis dvd_mod_iff dvd_triv_right power_Suc)
  moreover have "pow64 (Suc l) dvd pow64 l'"
    using assms(1) by (intro le_imp_power_dvd) simp
  ultimately have "pow64 (Suc l) dvd tick E l s"
    unfolding eq by (rule dvd_trans [rotated])
  then show False
    using tick_in_window_not_multiple [OF assms(3)] by (simp add: dvd_eq_mod_eq_0)
qed

text \<open>A deadline placed by \<open>level_for\<close> and \<open>slot_for\<close> is not before the tick of its slot.\<close>

lemma tick_of_slot:
  assumes "E < p - p mod pow64 l"
  shows "tick E l (p div pow64 l mod 64) \<le> p - p mod pow64 l"
proof (rule tick_least [OF assms])
  have eq: "p - p mod pow64 l = p div pow64 l * pow64 l"
    by (simp add: minus_mod_eq_div_mult)
  have "p div pow64 l * pow64 l mod (64 * pow64 l) = (p div pow64 l mod 64) * pow64 l"
    by (simp add: mod_mult_mult2)
  with eq show "(p - p mod pow64 l) mod pow64 (Suc l) = p div pow64 l mod 64 * pow64 l"
    by simp
qed

lemma div_less_floor:
  fixes E p :: nat
  assumes "E div q < p div q" and "0 < q"
  shows "E < p - p mod q"
proof -
  have "Suc (E div q) * q \<le> p div q * q" using assms(1) by (intro mult_right_mono) auto
  moreover have "E < Suc (E div q) * q"
    using dividend_less_div_times [OF assms(2), of E] by simp
  moreover have "p - p mod q = p div q * q" by (simp add: minus_mod_eq_div_mult)
  ultimately show ?thesis by linarith
qed

lemma placed_tick:
  fixes now p :: u64
  defines "E \<equiv> unat now" and "P \<equiv> unat p" and "L \<equiv> level_for now p"
  assumes "E < P"
  shows placed_tick_le: "tick E L (slot_for p L) \<le> P"
    and placed_tick_window: "L < 5 \<Longrightarrow> tick E L (slot_for p L) div pow64 (Suc L) = E div pow64 (Suc L)"
proof -
  have floor: "E < P - P mod pow64 L"
  proof (cases "L = 0")
    case True
    with assms(4) show ?thesis by simp
  next
    case False
    then have "E div pow64 L \<noteq> P div pow64 L"
      using level_for_differs [of now p] unfolding L_def E_def P_def by simp
    moreover have "E div pow64 L \<le> P div pow64 L"
      using assms(4) by (simp add: div_le_mono)
    ultimately show ?thesis by (intro div_less_floor) auto
  qed
  have slot: "slot_for p L = P div pow64 L mod 64"
    by (simp add: slot_for_nat P_def)
  have le: "tick E L (slot_for p L) \<le> P - P mod pow64 L"
    unfolding slot by (rule tick_of_slot [OF floor])
  then show "tick E L (slot_for p L) \<le> P" by simp
  show "tick E L (slot_for p L) div pow64 (Suc L) = E div pow64 (Suc L)" if "L < 5"
  proof (rule antisym)
    have same: "E div pow64 (Suc L) = P div pow64 (Suc L)"
      using level_for_shares [of now p] that unfolding L_def E_def P_def by simp
    show "tick E L (slot_for p L) div pow64 (Suc L) \<le> E div pow64 (Suc L)"
      unfolding same using le by (intro div_le_mono) simp
    show "E div pow64 (Suc L) \<le> tick E L (slot_for p L) div pow64 (Suc L)"
      using tick_gt [of E L "slot_for p L"] by (intro div_le_mono) simp
  qed
qed

subsection \<open>The next occupied slot of a level\<close>

definition headroom :: "u64 \<Rightarrow> bool" where
  "headroom t \<longleftrightarrow> unat t + 2 ^ 36 < 2 ^ 64"

lemma unat_push_bit_small:
  assumes "unat (x :: u64) * 2 ^ k < 2 ^ 64"
  shows "unat (push_bit k x) = unat x * 2 ^ k"
proof -
  have "unat (push_bit k x) = take_bit 64 (push_bit k (unat x))"
    by (simp add: unsigned_push_bit_eq)
  with assms show ?thesis
    by (simp add: push_bit_eq_mult take_bit_nat_eq_self)
qed

lemma and_not_mask: "(x :: u64) AND NOT (push_bit k 1 - 1) = push_bit k (drop_bit k x)"
proof -
  have "push_bit k 1 - 1 = (mask k :: u64)"
    by (simp add: mask_eq_exp_minus_1)
  moreover have "x AND NOT (mask k) = push_bit k (drop_bit k x)"
    by (rule bit_eqI) (auto simp: bit_simps)
  ultimately show ?thesis by simp
qed

lemma unat_window: "unat ((x :: u64) AND NOT (push_bit k 1 - 1)) = unat x div 2 ^ k * 2 ^ k"
proof -
  have "unat (drop_bit k x) = unat x div 2 ^ k"
    by (simp only: unat_drop_bit_eq) (simp add: drop_bit_eq_div)
  moreover have "unat x div 2 ^ k * 2 ^ k \<le> unat x" by (rule div_times_less_eq_dividend)
  moreover have "unat x < 2 ^ 64"
    using unsigned_less [of x, where 'a = nat] by simp
  ultimately have "unat x div 2 ^ k * 2 ^ k < 2 ^ 64" and "unat (drop_bit k x) = unat x div 2 ^ k"
    by linarith+
  then show ?thesis
    unfolding and_not_mask by (subst unat_push_bit_small) simp_all
qed

lemma unat_add_small: "unat (x :: u64) + unat y < 2 ^ 64 \<Longrightarrow> unat (x + y) = unat x + unat y"
  by (simp add: unat_word_ariths)

lemma slot_base_after_iff: "s < 64 \<Longrightarrow> E < slot_base E l s \<longleftrightarrow> E div pow64 l mod 64 < s"
proof -
  assume s: "s < 64"
  define q where "q = pow64 l"
  have E: "E = E div pow64 (Suc l) * pow64 (Suc l) + E mod pow64 (Suc l)"
    by (simp only: div_mult_mod_eq)
  have m: "E mod pow64 (Suc l) div q = E div q mod 64"
    by (simp add: q_def mod_mult2_eq mult.commute [of 64])
  have "E < slot_base E l s \<longleftrightarrow> E mod pow64 (Suc l) < s * q"
    using E unfolding q_def by linarith
  also have "\<dots> \<longleftrightarrow> E mod pow64 (Suc l) div q < s"
    by (simp add: q_def div_less_iff_less_mult)
  finally show ?thesis unfolding m by (simp only: q_def)
qed

lemma level_look_least:
  fixes now :: u64
  defines "E \<equiv> unat now"
  assumes occ: "occupied lv \<noteq> 0" and l: "l \<le> 5" and room: "headroom now"
    and look: "level_look now l lv = (slot, deadline)"
  shows level_look_bit: "bit (occupied lv) slot"
    and level_look_slot: "slot < 64"
    and level_look_tick: "unat deadline = tick E l slot"
    and level_look_min: "bit (occupied lv) s \<Longrightarrow> tick E l slot \<le> tick E l s"
proof -
  define n where "n = slot_for now l"
  define after where "after = (if n + 1 < SLOTS then occupied lv AND push_bit (n + 1) (- 1) else 0)"
  have n: "n = E div pow64 l mod 64" "n < 64"
    by (simp_all add: n_def slot_for_nat E_def)
  have after_bit: "bit after j \<longleftrightarrow> bit (occupied lv) j \<and> n < j" for j
    using bit_imp_le_length [of "occupied lv" j]
    by (auto simp: after_def bit_simps SLOTS_def SLOT_BITS_def)
  have occ_less: "bit (occupied lv) j \<Longrightarrow> j < 64" for j
    using bit_imp_le_length [of "occupied lv" j] by simp
  have before: "E < slot_base E l j \<longleftrightarrow> n < j" if "j < 64" for j
    using slot_base_after_iff [OF that, of E l] n by simp
  have r: "pow64 (Suc l) \<le> 2 ^ 36"
  proof -
    have "pow64 (Suc l) \<le> pow64 6" using l by (intro power_increasing) auto
    then show ?thesis by simp
  qed
  have E: "E + pow64 (Suc l) < 2 ^ 64" using room r unfolding headroom_def E_def by linarith
  have shift: "l * 6 + 6 = Suc l * 6" by simp
  have win: "unat (now AND NOT (push_bit (l * 6 + 6) 1 - 1)) = E div pow64 (Suc l) * pow64 (Suc l)"
    unfolding shift unat_window E_def by (simp only: pow64_2)
  have range: "unat (push_bit (l * 6 + 6) (1 :: u64)) = pow64 (Suc l)"
    unfolding shift using E by (subst unat_push_bit_small) (simp_all only: pow64_2 unat_1 mult_1)
  have off: "unat (push_bit (l * 6) (of_nat j :: u64)) = j * pow64 l" if "j < 64" for j
  proof -
    have "unat (of_nat j :: u64) = j" using that by (simp add: unat_of_nat)
    moreover have "j * pow64 l < 2 ^ 64" using slot_offset [OF that, of l] E by linarith
    ultimately show ?thesis by (subst unat_push_bit_small) (simp_all only: pow64_2)
  qed
  have mono: "slot_base E l i \<le> slot_base E l j" if "i \<le> j" for i j
    using that by simp
  have top: "slot_base E l j < E div pow64 (Suc l) * pow64 (Suc l) + pow64 (Suc l)" if "j < 64" for j
    using slot_offset [OF that, of l] by simp
  have tick_after: "tick E l j = slot_base E l j" if "n < j" "j < 64" for j
    using before [OF that(2)] that(1) by (cases E j l rule: tick_cases) auto
  have tick_before: "tick E l j = slot_base E l j + pow64 (Suc l)" if "j \<le> n" "j < 64" for j
    using before [OF that(2)] that(1) by (cases E j l rule: tick_cases) auto
  have res: "(slot, deadline) =
      (if after \<noteq> 0 then
         (trailing_zeros after, (now AND NOT (push_bit (l * 6 + 6) 1 - 1))
            + push_bit (l * 6) (of_nat (trailing_zeros after)))
       else
         (trailing_zeros (occupied lv), (now AND NOT (push_bit (l * 6 + 6) 1 - 1))
            + push_bit (l * 6 + 6) 1 + push_bit (l * 6) (of_nat (trailing_zeros (occupied lv)))))"
    using look unfolding level_look_def Let_def after_def n_def SLOT_BITS_def by (rule sym)
  have "bit (occupied lv) slot \<and> slot < 64 \<and> unat deadline = tick E l slot
      \<and> (\<forall>s. bit (occupied lv) s \<longrightarrow> tick E l slot \<le> tick E l s)"
  proof (cases "after = 0")
    case True
    then have slot: "slot = trailing_zeros (occupied lv)" using res by simp
    note tz = trailing_zeros_first [OF occ, folded slot]
    have le_n: "j \<le> n" if "bit (occupied lv) j" for j
      using after_bit [of j] True that by (simp add: not_less)
    have "unat deadline = slot_base E l slot + pow64 (Suc l)"
    proof -
      have "slot_base E l slot + pow64 (Suc l) < 2 ^ 64"
        using before [OF tz(1)] le_n [OF tz(2)] E by linarith
      then show ?thesis
        using res True slot win range off [OF tz(1)]
        by (simp add: unat_add_small)
    qed
    then have "unat deadline = tick E l slot"
      using tick_before [OF le_n [OF tz(2)] tz(1)] by simp
    moreover have "tick E l slot \<le> tick E l s" if "bit (occupied lv) s" for s
    proof -
      have "slot \<le> s" using tz(3) that by (meson not_less)
      then show ?thesis
        using tick_before [OF le_n [OF tz(2)] tz(1)] tick_before [OF le_n [OF that] occ_less [OF that]] mono
        by simp
    qed
    ultimately show ?thesis using tz by blast
  next
    case False
    then have slot: "slot = trailing_zeros after" using res by simp
    note tz = trailing_zeros_first [OF False, folded slot]
    have bit: "bit (occupied lv) slot" and ns: "n < slot"
      using tz(2) after_bit by auto
    have "slot_base E l slot < 2 ^ 64"
      using top [OF tz(1)] window_bounds(1) [of E l] E by linarith
    then have "unat deadline = slot_base E l slot"
      using res False slot win off [OF tz(1)] by (simp add: unat_add_small)
    then have "unat deadline = tick E l slot"
      using tick_after [OF ns tz(1)] by simp
    moreover have "tick E l slot \<le> tick E l s" if b: "bit (occupied lv) s" for s
    proof (cases "n < s")
      case True
      then have "slot \<le> s" using tz(3) after_bit b by (meson not_less)
      then show ?thesis
        using tick_after [OF ns tz(1)] tick_after [OF True occ_less [OF b]] mono by simp
    next
      case False
      then have "tick E l s = slot_base E l s + pow64 (Suc l)"
        using tick_before occ_less [OF b] by simp
      then show ?thesis
        using tick_after [OF ns tz(1)] top [OF tz(1)] by linarith
    qed
    ultimately show ?thesis using tz bit by blast
  qed
  then show "bit (occupied lv) slot" and "slot < 64" and "unat deadline = tick E l slot"
    and "bit (occupied lv) s \<Longrightarrow> tick E l slot \<le> tick E l s" by blast+
qed

end
