(* ===== verification/Wheel_Inv.thy ===== *)
theory Wheel_Inv
  imports Wheel_Arith
begin

unbundle bit_operations_syntax

section \<open>The invariant of the wheel, and that every step keeps it\<close>

text \<open>
  \<open>wf w L F T c\<close> says that the slab of \<open>w\<close> is well formed: \<open>L l s\<close> is the list of slot
  \<open>s\<close> of level \<open>l\<close>, \<open>F\<close> the free list, and \<open>T\<close> the entries in transit, which a step
  has taken out of one list and not yet put into another; \<open>c\<close> of those in transit are still
  counted in \<open>armed\<close>.  Between operations nothing is in transit (\<open>wheel_inv\<close>).  The clauses
  on \<open>tick\<close> are what makes a timer fire in time: its slot is reached at or before its deadline,
  and below the top level inside the current window.
\<close>

abbreviation nx :: "'w wheel \<Rightarrow> nat \<Rightarrow> nat" where
  "nx w \<equiv> \<lambda>i. enext (entries w ! i)"

abbreviation pv :: "'w wheel \<Rightarrow> nat \<Rightarrow> nat" where
  "pv w \<equiv> \<lambda>i. eprev (entries w ! i)"

abbreviation place_of :: "'w wheel \<Rightarrow> nat \<Rightarrow> place" where
  "place_of w \<equiv> \<lambda>i. eplace (entries w ! i)"

abbreviation head_of :: "'w wheel \<Rightarrow> nat \<Rightarrow> nat \<Rightarrow> nat" where
  "head_of w l s \<equiv> heads (levels w ! l) ! s"

definition placed_ok :: "u64 \<Rightarrow> u64 \<Rightarrow> nat \<Rightarrow> nat \<Rightarrow> bool" where
  "placed_ok now t l s \<longleftrightarrow> l < 6 \<and> s < 64 \<and> now < t \<and> tick (unat now) l s \<le> unat t
     \<and> (l < 5 \<longrightarrow> tick (unat now) l s div pow64 (Suc l) = unat now div pow64 (Suc l))"

definition shape_ok :: "'w wheel \<Rightarrow> bool" where
  "shape_ok w \<longleftrightarrow> length (levels w) = 6 \<and> (\<forall>l<6. length (heads (levels w ! l)) = 64)
     \<and> length (entries w) \<le> NIL"

abbreviation members :: "'w wheel \<Rightarrow> nat set \<Rightarrow> place \<Rightarrow> nat set" where
  "members w T p \<equiv> {i. i < length (entries w) \<and> place_of w i = p \<and> i \<notin> T}"

definition slot_ok :: "'w wheel \<Rightarrow> nat set \<Rightarrow> nat \<Rightarrow> nat \<Rightarrow> nat list \<Rightarrow> bool" where
  "slot_ok w T l s xs \<longleftrightarrow> chain (nx w) (head_of w l s) xs \<and> prevs (pv w) NIL xs \<and> distinct xs
     \<and> set xs = members w T (Armed l s) \<and> (bit (occupied (levels w ! l)) s \<longleftrightarrow> xs \<noteq> [])"

definition free_ok :: "'w wheel \<Rightarrow> nat list \<Rightarrow> nat set \<Rightarrow> bool" where
  "free_ok w F T \<longleftrightarrow> chain (nx w) (free w) F \<and> distinct F
     \<and> set F = members w T Free
     \<and> (\<forall>i \<in> set F. ewaker (entries w ! i) = None)"

definition timing_ok :: "'w wheel \<Rightarrow> nat set \<Rightarrow> bool" where
  "timing_ok w T \<longleftrightarrow> (\<forall>i < length (entries w). \<forall>l s. place_of w i = Armed l s \<longrightarrow> i \<notin> T \<longrightarrow>
     placed_ok (elapsed w) (ewhen (entries w ! i)) l s)"

definition linked :: "'w wheel \<Rightarrow> nat set \<Rightarrow> nat set" where
  "linked w T = {i. i < length (entries w) \<and> place_of w i \<noteq> Free \<and> i \<notin> T}"

definition wf :: "'w wheel \<Rightarrow> (nat \<Rightarrow> nat \<Rightarrow> nat list) \<Rightarrow> nat list \<Rightarrow> nat list \<Rightarrow> nat \<Rightarrow> bool" where
  "wf w L F T c \<longleftrightarrow> shape_ok w \<and> (\<forall>l<6. \<forall>s<64. slot_ok w (set T) l s (L l s)) \<and> free_ok w F (set T) \<and> timing_ok w (set T)
     \<and> distinct T \<and> set T \<subseteq> {..<length (entries w)}
     \<and> armed w = phantom w + card (linked w (set T)) + c"

definition wheel_inv :: "'w wheel \<Rightarrow> bool" where
  "wheel_inv w \<longleftrightarrow> (\<exists>L F. wf w L F [] 0)"

lemmas wf_defs = wf_def shape_ok_def slot_ok_def free_ok_def timing_ok_def

lemma wf_new: "wf (tagged t) (\<lambda>_ _. []) [] [] 0"
  by (simp add: wf_defs linked_def tagged_def wheel_new_def level_new_def LEVELS_def SLOTS_def SLOT_BITS_def
        NIL_def usize_max_def nth_replicate)

lemma wheel_inv_tagged: "wheel_inv (tagged t)"
  using wf_new unfolding wheel_inv_def by blast

lemma wheel_new_tagged: "wheel_new = tagged 0"
  by (simp add: tagged_def wheel_new_def)

text \<open>A slot no field of which a step touches is as good as before.\<close>

lemma slot_ok_frame:
  assumes "slot_ok w T l s xs"
    and "\<And>j. j \<in> set xs \<Longrightarrow> nx w' j = nx w j"
    and "\<And>j. j \<in> set xs \<Longrightarrow> pv w' j = pv w j"
    and "head_of w' l s = head_of w l s"
    and "bit (occupied (levels w' ! l)) s = bit (occupied (levels w ! l)) s"
    and "members w' T' (Armed l s) = members w T (Armed l s)"
  shows "slot_ok w' T' l s xs"
proof -
  have "chain (nx w') (head_of w' l s) xs = chain (nx w) (head_of w l s) xs"
    unfolding assms(4) using assms(2) by (rule lseg_cong)
  moreover have "prevs (pv w') NIL xs = prevs (pv w) NIL xs"
    using assms(3) by (rule prevs_cong)
  ultimately show ?thesis using assms(1,5,6) unfolding slot_ok_def by simp
qed

text \<open>Reading the invariant.\<close>

lemma wf_slot:
  assumes "wf w L F T c" and "l < 6" and "s < 64"
  shows wf_slot_chain: "chain (nx w) (head_of w l s) (L l s)"
    and wf_slot_prevs: "prevs (pv w) NIL (L l s)"
    and wf_slot_distinct: "distinct (L l s)"
    and wf_slot_set: "set (L l s) = members w (set T) (Armed l s)"
    and wf_slot_bit: "bit (occupied (levels w ! l)) s \<longleftrightarrow> L l s \<noteq> []"
  using assms unfolding wf_def slot_ok_def by auto

lemma wf_place_bounds:
  assumes "wf w L F T c" and "i < length (entries w)" and "place_of w i = Armed l s" and "i \<notin> set T"
  shows "l < 6" and "s < 64" and "placed_ok (elapsed w) (ewhen (entries w ! i)) l s"
  using assms unfolding wf_def timing_ok_def placed_ok_def by blast+

lemma wf_index_not_NIL: "wf w L F T c \<Longrightarrow> i < length (entries w) \<Longrightarrow> i \<noteq> NIL"
  by (auto simp: wf_def shape_ok_def)

lemma finite_linked [simp]: "finite (linked w T)"
  by (simp add: linked_def)

subsection \<open>Linking an entry in transit\<close>

abbreviation (input) link_placed :: "nat \<Rightarrow> 'w wheel \<Rightarrow> u64" where
  "link_placed i w \<equiv> min (ewhen (entries w ! i)) (elapsed w + SPAN - 1)"

definition link_level :: "nat \<Rightarrow> 'w wheel \<Rightarrow> nat" where
  "link_level i w = level_for (elapsed w) (link_placed i w)"

definition link_slot :: "nat \<Rightarrow> 'w wheel \<Rightarrow> nat" where
  "link_slot i w = slot_for (link_placed i w) (link_level i w)"

abbreviation link_head :: "nat \<Rightarrow> 'w wheel \<Rightarrow> nat" where
  "link_head i w \<equiv> head_of w (link_level i w) (link_slot i w)"

lemma link_scalars [simp]:
  "elapsed (link i w) = elapsed w" "free (link i w) = free w" "phantom (link i w) = phantom w"
  "tag (link i w) = tag w" "armed (link i w) = Suc (armed w)"
  "length (entries (link i w)) = length (entries w)"
  by (simp_all add: link_def Let_def)

lemma link_entry:
  assumes "i < length (entries w)" and "j < length (entries w)" and "link_head i w \<noteq> i"
  shows "entries (link i w) ! j =
    (if j = i then (entries w ! i)\<lparr>eprev := NIL, enext := link_head i w,
                      eplace := Armed (link_level i w) (link_slot i w)\<rparr>
     else if link_head i w \<noteq> NIL \<and> j = link_head i w then (entries w ! j)\<lparr>eprev := i\<rparr>
     else entries w ! j)"
  using assms
  by (auto simp: link_def Let_def link_level_def [symmetric] link_slot_def [symmetric] nth_list_update)

lemma link_level_at:
  assumes "l < length (levels w)" and "link_level i w < length (levels w)"
  shows "levels (link i w) ! l =
    (if l = link_level i w then
       (levels w ! l)\<lparr>heads := (heads (levels w ! l))[link_slot i w := i],
                      occupied := occupied (levels w ! l) OR push_bit (link_slot i w) 1\<rparr>
     else levels w ! l)"
  using assms
  by (auto simp: link_def Let_def link_level_def [symmetric] link_slot_def [symmetric] nth_list_update)

lemma length_levels_link [simp]: "length (levels (link i w)) = length (levels w)"
  by (simp add: link_def Let_def)

lemma link_level_less: "link_level i w < 6"
  using level_for_le [of "elapsed w" "link_placed i w"] by (simp add: link_level_def)

lemma link_slot_less: "link_slot i w < 64"
  using slot_for_less by (simp add: link_slot_def SLOTS_def SLOT_BITS_def)

lemma bit_or_push_one: "s < 64 \<Longrightarrow> k < 64 \<Longrightarrow> bit ((x :: u64) OR 2 ^ k) s \<longleftrightarrow> bit x s \<or> s = k"
  by (auto simp: bit_simps)

lemma bit_and_not_push_one: "s < 64 \<Longrightarrow> k < 64 \<Longrightarrow> bit ((x :: u64) AND NOT (2 ^ k)) s \<longleftrightarrow> bit x s \<and> s \<noteq> k"
  by (auto simp: bit_simps)

lemma placed_ok_link:
  assumes "elapsed w < ewhen (entries w ! i)" and "headroom (elapsed w)"
  shows "placed_ok (elapsed w) (ewhen (entries w ! i)) (link_level i w) (link_slot i w)"
proof -
  define p where "p = link_placed i w"
  have "unat (elapsed w + SPAN - 1) = unat (elapsed w) + (2 ^ 36 - 1)"
    using assms(2) unat_add_small [of "elapsed w" "SPAN - 1"]
    by (simp add: unat_SPAN headroom_def add_diff_eq [symmetric])
  then have p: "unat p = min (unat (ewhen (entries w ! i))) (unat (elapsed w) + (2 ^ 36 - 1))"
    by (simp only: p_def unat_min)
  have E: "unat (elapsed w) < unat (ewhen (entries w ! i))"
    using assms(1) by (simp add: word_less_nat_alt)
  with p have gt: "unat (elapsed w) < unat p" and le: "unat p \<le> unat (ewhen (entries w ! i))"
    by simp_all
  show ?thesis
    using placed_tick_le [OF gt] placed_tick_window [OF gt] le assms(1) link_level_less [of i w]
      link_slot_less [of i w]
    unfolding placed_ok_def link_level_def link_slot_def p_def [symmetric] by auto
qed

lemma wf_transit: "wf w L F (i # T) c \<Longrightarrow> i < length (entries w) \<and> i \<notin> set T"
  by (auto simp: wf_def)

lemma wf_link_head:
  assumes "wf w L F (i # T) c"
  defines "l \<equiv> link_level i w" and "s \<equiv> link_slot i w"
  shows "link_head i w \<noteq> i" and "link_head i w = (case L l s of [] \<Rightarrow> NIL | h # _ \<Rightarrow> h)"
    and "i \<notin> set (L l s)"
proof -
  note b = link_level_less [of i w] link_slot_less [of i w]
  have c: "chain (nx w) (link_head i w) (L l s)"
    and st: "set (L l s) = members w (set (i # T)) (Armed l s)"
    using wf_slot [OF assms(1) b] unfolding l_def s_def by auto
  show eq: "link_head i w = (case L l s of [] \<Rightarrow> NIL | h # _ \<Rightarrow> h)" using c by (rule chain_head)
  show i: "i \<notin> set (L l s)" using st by simp
  have "i \<noteq> NIL" using wf_index_not_NIL [OF assms(1)] wf_transit [OF assms(1)] by blast
  then show "link_head i w \<noteq> i" using eq i by (cases "L l s") auto
qed

lemma link_entry_fields:
  assumes "wf w L F (i # T) c" and "j < length (entries w)"
  shows "nx (link i w) j = (if j = i then link_head i w else nx w j)"
    and "pv (link i w) j = (if j = i then NIL else if link_head i w \<noteq> NIL \<and> j = link_head i w then i else pv w j)"
    and "place_of (link i w) j = (if j = i then Armed (link_level i w) (link_slot i w) else place_of w j)"
    and "ewhen (entries (link i w) ! j) = ewhen (entries w ! j)"
    and "ewaker (entries (link i w) ! j) = ewaker (entries w ! j)"
    and "egeneration (entries (link i w) ! j) = egeneration (entries w ! j)"
  using link_entry [OF _ assms(2) wf_link_head(1) [OF assms(1)]] wf_transit [OF assms(1)] by auto

lemma link_slot_same:
  assumes wf: "wf w L F (i # T) c"
  defines "l \<equiv> link_level i w" and "s \<equiv> link_slot i w"
  shows "slot_ok (link i w) (set T) l s (i # L l s)"
proof -
  have ls: "l < 6" "s < 64" unfolding l_def s_def by (rule link_level_less, rule link_slot_less)
  note old = wf_slot [OF wf ls]
  note fields = link_entry_fields [OF wf, folded l_def s_def]
  note head = wf_link_head [OF wf, folded l_def s_def]
  have i: "i < length (entries w)" "i \<notin> set T" using wf_transit [OF wf] by auto
  have "length (levels w) = 6" "length (heads (levels w ! l)) = 64"
    using wf ls unfolding wf_def shape_ok_def by auto
  then have hd: "head_of (link i w) l s = i"
    and bit: "bit (occupied (levels (link i w) ! l)) s"
    using link_level_at [of l w i] ls by (auto simp: l_def s_def bit_or_push_one)
  have mem: "members (link i w) (set T) (Armed l s) = insert i (set (L l s))"
    using fields(3) i old(4) by (auto split: if_splits)
  have in_L: "x < length (entries w)" "x \<noteq> i" if "x \<in> set (L l s)" for x
    using that old(4) by auto
  have "chain (nx (link i w)) (head_of w l s) (L l s) = chain (nx w) (head_of w l s) (L l s)"
    using fields(1) in_L by (intro lseg_cong) simp
  then have "chain (nx (link i w)) i (i # L l s)"
    using old(1) fields(1) [OF i(1)] wf_index_not_NIL [OF wf i(1)] by simp
  moreover have "prevs (pv (link i w)) NIL (i # L l s)"
  proof (rule prevs_push_front [OF old(2) head(3) old(3)])
    show "pv (link i w) i = NIL" using fields(2) [OF i(1)] by simp
    fix x assume x: "x \<in> set (L l s)"
    then have "head_of w l s = hd (L l s)" "head_of w l s \<noteq> NIL"
      using head(2) wf_index_not_NIL [OF wf] in_L by (cases "L l s"; auto)+
    then show "pv (link i w) x = (if x = hd (L l s) then i else pv w x)"
      using fields(2) [of x] in_L [OF x] by auto
  qed
  ultimately show ?thesis
    using hd bit mem old(3) head(3) unfolding slot_ok_def by simp
qed

lemma link_slot_other:
  assumes wf: "wf w L F (i # T) c" and b: "l' < 6" "s' < 64"
    and ne: "\<not> (l' = link_level i w \<and> s' = link_slot i w)"
  shows "slot_ok (link i w) (set T) l' s' (L l' s')"
proof (rule slot_ok_frame)
  note fields = link_entry_fields [OF wf]
  have len: "length (levels w) = 6" "length (heads (levels w ! l')) = 64"
    using wf b unfolding wf_def shape_ok_def by auto
  show "slot_ok w (set (i # T)) l' s' (L l' s')" using wf b unfolding wf_def by blast
  have in_L: "j < length (entries w)" "j \<noteq> i" "place_of w j = Armed l' s'" if "j \<in> set (L l' s')" for j
    using that wf_slot_set [OF wf b] by auto
  show "nx (link i w) j = nx w j" if "j \<in> set (L l' s')" for j
    using fields(1) in_L [OF that] by simp
  show "pv (link i w) j = pv w j" if j: "j \<in> set (L l' s')" for j
  proof -
    have "j \<noteq> link_head i w" if "link_head i w \<noteq> NIL"
    proof
      assume "j = link_head i w"
      then have "j \<in> set (L (link_level i w) (link_slot i w))"
        using wf_link_head(2) [OF wf] that by (auto split: list.splits)
      then show False
        using in_L(3) [OF j] ne wf_slot_set [OF wf link_level_less [of i w] link_slot_less [of i w]] by simp
    qed
    then show ?thesis using fields(2) in_L [OF j] by auto
  qed
  show "head_of (link i w) l' s' = head_of w l' s'"
    and "bit (occupied (levels (link i w) ! l')) s' = bit (occupied (levels w ! l')) s'"
    using link_level_at [of l' w i] len b link_level_less [of i w] link_slot_less [of i w] ne
    by (auto simp: bit_or_push_one)
  show "members (link i w) (set T) (Armed l' s') = members w (set (i # T)) (Armed l' s')"
    using fields(3) wf_transit [OF wf] ne by (auto split: if_splits)
qed

lemma link_free:
  assumes wf: "wf w L F (i # T) c"
  shows "free_ok (link i w) F (set T)"
proof -
  note fields = link_entry_fields [OF wf]
  have F: "chain (nx w) (free w) F" "distinct F" "set F = members w (set (i # T)) Free"
    "\<forall>j \<in> set F. ewaker (entries w ! j) = None"
    using wf unfolding wf_def free_ok_def by auto
  have "chain (nx (link i w)) (free w) F = chain (nx w) (free w) F"
    using F(3) fields(1) by (intro lseg_cong) simp
  moreover have "members (link i w) (set T) Free = members w (set (i # T)) Free"
    using fields(3) wf_transit [OF wf] by (auto split: if_splits)
  moreover have "\<forall>j \<in> set F. ewaker (entries (link i w) ! j) = None"
    using F(3,4) fields(5) by simp
  ultimately show ?thesis using F unfolding free_ok_def by simp
qed

lemma wf_link:
  assumes wf: "wf w L F (i # T) c"
    and "elapsed w < ewhen (entries w ! i)" and "headroom (elapsed w)"
  shows "wf (link i w) (\<lambda>l s. if l = link_level i w \<and> s = link_slot i w then i # L l s else L l s) F T c"
proof -
  note fields = link_entry_fields [OF wf]
  have i: "i < length (entries w)" "i \<notin> set T" using wf_transit [OF wf] by auto
  have "shape_ok (link i w)"
  proof -
    have len: "length (levels w) = 6" "\<forall>l<6. length (heads (levels w ! l)) = 64"
      "length (entries w) \<le> NIL"
      using wf unfolding wf_def shape_ok_def by auto
    then show ?thesis
      using link_level_at [of _ w i] link_level_less [of i w] by (auto simp: shape_ok_def)
  qed
  moreover have "\<forall>l<6. \<forall>s<64. slot_ok (link i w) (set T) l s
      (if l = link_level i w \<and> s = link_slot i w then i # L l s else L l s)"
    using link_slot_same [OF wf] link_slot_other [OF wf] by simp
  moreover have "timing_ok (link i w) (set T)"
    using wf fields(3,4) placed_ok_link [OF assms(2,3)]
    unfolding wf_def timing_ok_def by (auto split: if_splits)
  moreover have "linked (link i w) (set T) = Set.insert i (linked w (set (i # T)))"
    using fields(3) i by (auto simp: linked_def split: if_splits)
  then have "card (linked (link i w) (set T)) = Suc (card (linked w (set (i # T))))"
    by (simp add: linked_def)
  ultimately show ?thesis
    using wf link_free [OF wf] unfolding wf_def by auto
qed

subsection \<open>Entries in transit: changing, counting and releasing them\<close>

text \<open>An entry in transit may be changed in any way: no list holds it.\<close>

lemma wf_transit_update:
  assumes wf: "wf w L F (i # T) c"
  shows "wf (w\<lparr>entries := (entries w)[i := e]\<rparr>) L F (i # T) c" (is "wf ?w L F _ c")
proof -
  have other: "entries ?w ! j = entries w ! j" if "j \<noteq> i" for j using that by simp
  have mem: "members ?w (set (i # T)) p = members w (set (i # T)) p" for p
    by (auto simp: other)
  have "slot_ok ?w (set (i # T)) l s (L l s)" if b: "l < 6" "s < 64" for l s
  proof (rule slot_ok_frame [where w = w and T = "set (i # T)"])
    show "slot_ok w (set (i # T)) l s (L l s)" using wf b unfolding wf_def by blast
    have "j \<noteq> i" if "j \<in> set (L l s)" for j using wf_slot_set [OF wf b] that by auto
    then show "nx ?w j = nx w j" "pv ?w j = pv w j" if "j \<in> set (L l s)" for j
      using that by (metis other)+
  qed (simp_all only: mem, simp_all)
  moreover have "free_ok ?w F (set (i # T))"
  proof -
    have F: "chain (nx w) (free w) F" "set F = members w (set (i # T)) Free"
      using wf unfolding wf_def free_ok_def by auto
    have ne: "j \<noteq> i" if "j \<in> set F" for j using F(2) that by auto
    have "chain (nx ?w) (free w) F = chain (nx w) (free w) F"
      using ne other by (intro lseg_cong) metis
    moreover have "ewaker (entries ?w ! j) = ewaker (entries w ! j)" if "j \<in> set F" for j
      using ne [OF that] other by metis
    ultimately show ?thesis
      using wf unfolding wf_def free_ok_def mem by simp
  qed
  moreover have "timing_ok ?w (set (i # T))"
    using wf unfolding wf_def timing_ok_def by (auto simp: other)
  moreover have "linked ?w (set (i # T)) = linked w (set (i # T))"
    unfolding linked_def by (auto simp: other)
  ultimately show ?thesis using wf unfolding wf_def shape_ok_def by simp
qed

lemma wf_uncount:
  "wf w L F T (Suc c) \<Longrightarrow> wf (w\<lparr>armed := armed w - 1\<rparr>) L F T c"
  by (simp add: wf_defs linked_def)

lemma wf_release:
  assumes wf: "wf w L F (i # T) c"
  shows "wf (snd (wheel_release i w)) L (i # F) T c" (is "wf ?w L _ T c")
proof -
  have i: "i < length (entries w)" "i \<notin> set T" "i \<noteq> NIL"
    using wf_transit [OF wf] wf_index_not_NIL [OF wf] by auto
  have other: "entries ?w ! j = entries w ! j" if "j \<noteq> i" for j
    using that by (simp add: wheel_release_def)
  have at_i: "place_of ?w i = Free" "nx ?w i = free w" "ewaker (entries ?w ! i) = None"
    using i by (simp_all add: wheel_release_def)
  have sc: "levels ?w = levels w" "length (entries ?w) = length (entries w)" "free ?w = i"
    "elapsed ?w = elapsed w" "armed ?w = armed w" "phantom ?w = phantom w"
    by (simp_all add: wheel_release_def)
  have slots: "slot_ok ?w (set T) l s (L l s)" if b: "l < 6" "s < 64" for l s
  proof (rule slot_ok_frame [where w = w and T = "set (i # T)"])
    show "slot_ok w (set (i # T)) l s (L l s)" using wf b unfolding wf_def by blast
    have "j \<noteq> i" if "j \<in> set (L l s)" for j using wf_slot_set [OF wf b] that by auto
    then show "nx ?w j = nx w j" "pv ?w j = pv w j" if "j \<in> set (L l s)" for j
      using that by (metis other)+
    show "members ?w (set T) (Armed l s) = members w (set (i # T)) (Armed l s)"
      using at_i other sc by (auto; metis place.distinct(1))
  qed (simp_all add: sc)
  have "free_ok ?w (i # F) (set T)"
  proof -
    have F: "chain (nx w) (free w) F" "distinct F" "set F = members w (set (i # T)) Free"
      "\<forall>j \<in> set F. ewaker (entries w ! j) = None"
      using wf unfolding wf_def free_ok_def by auto
    have ne: "j \<noteq> i" if "j \<in> set F" for j using F(3) that by auto
    have "chain (nx ?w) (free w) F = chain (nx w) (free w) F"
      using ne other by (intro lseg_cong) metis
    then have "chain (nx ?w) (free ?w) (i # F)" using F(1) at_i(2) i(3) sc by simp
    moreover have "members ?w (set T) Free = insert i (set F)"
      unfolding F(3) using at_i other sc i by (auto; metis)
    moreover have "\<forall>j \<in> set (i # F). ewaker (entries ?w ! j) = None"
      using F(4) ne other at_i(3) by (metis set_ConsD)
    ultimately show ?thesis using F(2) ne unfolding free_ok_def by auto
  qed
  moreover have "timing_ok ?w (set T)"
    using wf at_i(1) unfolding wf_def timing_ok_def sc by (metis other place.distinct(1) set_ConsD)
  moreover have "linked ?w (set T) = linked w (set (i # T))"
    using at_i(1) other sc unfolding linked_def by (auto; metis)
  ultimately show ?thesis
    using wf slots unfolding wf_def shape_ok_def sc by auto
qed

end
