(* ===== verification/Wheel_Ops.thy ===== *)
theory Wheel_Ops
  imports Wheel_Inv
begin

unbundle bit_operations_syntax

section \<open>Arming, cancelling and reading timers\<close>

text \<open>
  The abstract view of a wheel is the finite map \<open>timers\<close> from the keys of armed timers to their
  deadline and waker.  This theory shows that \<open>wheel_insert\<close>, \<open>wheel_remove\<close>,
  \<open>wheel_reset\<close>, \<open>replace_waker\<close> and the reads are the obvious operations of that map and
  keep the invariant.
\<close>

subsection \<open>Taking an entry from the slab\<close>

lemma wf_alloc_free:
  assumes wf: "wf w L (f # F) [] c"
  shows "wf (w\<lparr>free := enext (entries w ! f)\<rparr>) L F [f] c" (is "wf ?w L F _ c")
proof -
  have F: "chain (nx w) (free w) (f # F)" "distinct (f # F)"
    "set (f # F) = members w {} Free"
    "\<forall>j \<in> set (f # F). ewaker (entries w ! j) = None"
    using wf unfolding wf_def free_ok_def set_simps(1) by blast+
  have f: "f < length (entries w)" "place_of w f = Free" using F(3) by auto
  have mem: "members ?w (set [f]) (Armed l s) = members w {} (Armed l s)" for l s
    using f(2) by auto
  have "slot_ok ?w (set [f]) l s (L l s)" if "l < 6" "s < 64" for l s
    using wf that mem unfolding wf_def slot_ok_def by auto
  moreover have "members ?w (set [f]) Free = set F" using F(2,3) by auto
  then have "free_ok ?w F (set [f])"
    using F unfolding free_ok_def by auto
  moreover have "timing_ok ?w (set [f])"
    using wf unfolding wf_def timing_ok_def by auto
  moreover have "linked ?w (set [f]) = linked w {}"
    using f(2) unfolding linked_def by auto
  ultimately show ?thesis
    using wf f unfolding wf_def shape_ok_def by auto
qed

lemma wf_grow:
  assumes wf: "wf w L [] [] c" and room: "length (entries w) < NIL"
  shows "wf (snd (grow w)) L [] [length (entries w)] c" (is "wf ?w L [] [?i] c")
proof -
  have other: "entries ?w ! j = entries w ! j" if "j < ?i" for j
    using that by (simp add: grow_def nth_append)
  have sc: "levels ?w = levels w" "length (entries ?w) = Suc ?i" "free ?w = free w"
    "elapsed ?w = elapsed w" "armed ?w = armed w" "phantom ?w = phantom w"
    by (simp_all add: grow_def)
  have mem: "members ?w {?i} p = members w {} p" for p
    using other sc(2) by (auto simp: less_Suc_eq)
  have slots: "slot_ok ?w (set [?i]) l s (L l s)" if b: "l < 6" "s < 64" for l s
  proof (rule slot_ok_frame [where w = w and T = "{}"])
    show "slot_ok w {} l s (L l s)" using wf b unfolding wf_def by auto
    have "j < ?i" if "j \<in> set (L l s)" for j using wf_slot_set [OF wf b] that by auto
    then show "nx ?w j = nx w j" "pv ?w j = pv w j" if "j \<in> set (L l s)" for j
      using that by (metis other)+
  qed (use mem in \<open>simp_all add: sc\<close>)
  have "free_ok ?w [] (set [?i])"
    using wf mem [of Free] unfolding wf_def free_ok_def sc by auto
  moreover have "timing_ok ?w (set [?i])"
    using wf other unfolding wf_def timing_ok_def sc by (auto simp: less_Suc_eq)
  moreover have "linked ?w (set [?i]) = linked w {}"
    using other sc(2) unfolding linked_def by (auto simp: less_Suc_eq)
  ultimately show ?thesis
    using wf slots room unfolding wf_def shape_ok_def sc by auto
qed

lemma wf_alloc:
  assumes wf: "wf w L F [] c" and room: "length (entries w) < NIL" and a: "alloc w = (i, w')"
  obtains F' where "wf w' L F' [i] c" and "i < length (entries w')" and "place_of w' i = Free"
    and "\<And>j. j < length (entries w) \<Longrightarrow> entries w' ! j = entries w ! j"
    and "\<And>j. length (entries w) \<le> j \<Longrightarrow> j < length (entries w') \<Longrightarrow> j = i"
    and "elapsed w' = elapsed w" and "phantom w' = phantom w"
    and "length (entries w) \<le> length (entries w')"
proof (cases "free w = NIL")
  case True
  moreover have "chain (nx w) (free w) F" using wf unfolding wf_def free_ok_def by blast
  ultimately have "F = []" by simp
  moreover have "i = length (entries w)" "w' = snd (grow w)"
    using a True by (simp_all add: alloc_def grow_def)
  ultimately show thesis
    using that [of "[]"] wf_grow [of w L c] wf room by (auto simp: grow_def nth_append less_Suc_eq)
next
  case False
  have "chain (nx w) (free w) F" using wf unfolding wf_def free_ok_def by blast
  with False obtain F' where F: "F = free w # F'" by (auto dest: chain_not_NIL)
  have w': "i = free w" "w' = w\<lparr>free := enext (entries w ! free w)\<rparr>"
    using a False by (auto simp: alloc_def)
  have "set F = members w {} Free" using wf unfolding wf_def free_ok_def by auto
  then have "free w < length (entries w)" "place_of w (free w) = Free" using F by auto
  then show thesis
    using that [of F'] wf_alloc_free [of w L "free w" F' c] wf unfolding F w' by simp
qed

subsection \<open>Taking an armed entry out of its slot\<close>

lemma unlink_scalars [simp]:
  "elapsed (unlink i w) = elapsed w" "free (unlink i w) = free w" "phantom (unlink i w) = phantom w"
  "tag (unlink i w) = tag w" "length (entries (unlink i w)) = length (entries w)"
  "length (levels (unlink i w)) = length (levels w)"
  by (auto simp: unlink_def Let_def split: place.split)

lemma unlink_fields:
  assumes "place_of w i = Armed l s" and "j < length (entries w)"
  shows "nx (unlink i w) j = (if pv w i \<noteq> NIL \<and> j = pv w i then nx w i else nx w j)"
    and "pv (unlink i w) j = (if nx w i \<noteq> NIL \<and> j = nx w i then pv w i else pv w j)"
    and "place_of (unlink i w) j = place_of w j"
    and "ewhen (entries (unlink i w) ! j) = ewhen (entries w ! j)"
    and "ewaker (entries (unlink i w) ! j) = ewaker (entries w ! j)"
    and "egeneration (entries (unlink i w) ! j) = egeneration (entries w ! j)"
  using assms by (auto simp: unlink_def Let_def nth_upd)

lemma unlink_levels:
  assumes "place_of w i = Armed l s" and "l < length (levels w)"
  shows "armed (unlink i w) = armed w - 1"
    and "levels (unlink i w) ! l' =
      (if pv w i = NIL \<and> l' = l then
         (levels w ! l)\<lparr>heads := (heads (levels w ! l))[s := nx w i],
            occupied := (if nx w i = NIL then occupied (levels w ! l) AND NOT (push_bit s 1)
                         else occupied (levels w ! l))\<rparr>
       else levels w ! l')"
  using assms by (auto simp: unlink_def Let_def nth_list_update)

lemma wf_armed_at:
  assumes wf: "wf w L F [] c" and i: "i < length (entries w)" and p: "place_of w i = Armed l s"
    and split: "L l s = xs @ i # ys"
  shows "l < 6" and "s < 64" and "distinct (xs @ i # ys)" and "pv w i = last (NIL # xs)"
    and "nx w i = (case ys of [] \<Rightarrow> NIL | y # _ \<Rightarrow> y)"
proof -
  show b: "l < 6" "s < 64" using wf_place_bounds [OF wf i p] by auto
  show "distinct (xs @ i # ys)" using wf_slot_distinct [OF wf b] split by simp
  show "pv w i = last (NIL # xs)"
    using prevs_mid wf_slot_prevs [OF wf b] unfolding split by blast
  show "nx w i = (case ys of [] \<Rightarrow> NIL | y # _ \<Rightarrow> y)"
    using chain_mid wf_slot_chain [OF wf b] unfolding split by blast
qed

lemma wf_armed_split:
  assumes wf: "wf w L F [] c" and i: "i < length (entries w)" and p: "place_of w i = Armed l s"
  obtains xs ys where "L l s = xs @ i # ys"
proof -
  have "i \<in> set (L l s)"
    using wf_slot_set [OF wf wf_place_bounds(1,2) [OF wf i p]] i p by simp
  then show thesis by (meson split_list that)
qed

lemma unlink_slot_same:
  assumes wf: "wf w L F [] c" and i: "i < length (entries w)" and p: "place_of w i = Armed l s"
    and split: "L l s = xs @ i # ys"
  shows "slot_ok (unlink i w) {i} l s (xs @ ys)"
proof -
  note at = wf_armed_at [where L = L, OF wf i p split]
  note b = at(1,2) and d = at(3) and pvi = at(4) and nxi = at(5)
  note old = wf_slot [OF wf b, unfolded split]
  note fields = unlink_fields [OF p]
  have in_len: "x < length (entries w)" "x \<noteq> NIL" if "x \<in> set (xs @ i # ys)" for x
    using old(4) that wf_index_not_NIL [OF wf] by auto
  have pv_NIL: "pv w i = NIL \<longleftrightarrow> xs = []" using pvi in_len by (cases xs rule: rev_cases) auto
  have nx_NIL: "nx w i = NIL \<longleftrightarrow> ys = []" using nxi in_len by (cases ys) auto
  have len: "length (levels w) = 6" "length (heads (levels w ! l)) = 64"
    using wf b unfolding wf_def shape_ok_def by auto
  have hd: "head_of (unlink i w) l s = (if xs = [] then nx w i else head_of w l s)"
    and bit: "bit (occupied (levels (unlink i w) ! l)) s \<longleftrightarrow> xs @ ys \<noteq> []"
    using unlink_levels(2) [OF p, of l] b len pv_NIL nx_NIL old(5) by (auto simp: bit_and_not_push_one)
  have "chain (nx (unlink i w)) (if xs = [] then nx w i else head_of w l s) (xs @ ys)"
  proof (rule chain_unlink [OF old(1) d])
    fix x assume "x \<in> set (xs @ ys)"
    then show "nx (unlink i w) x = (if xs \<noteq> [] \<and> x = last xs then nx w i else nx w x)"
      using fields(1) [of x] in_len [of x] pv_NIL pvi by auto
  qed
  moreover have "prevs (pv (unlink i w)) NIL (xs @ ys)"
  proof (rule prevs_unlink [OF old(2) d])
    fix x assume "x \<in> set (xs @ ys)"
    then show "pv (unlink i w) x = (if ys \<noteq> [] \<and> x = hd ys then pv w i else pv w x)"
      using fields(2) [of x] in_len [of x] nx_NIL nxi by (cases ys) auto
  qed
  moreover have "set (xs @ ys) = members (unlink i w) {i} (Armed l s)"
  proof -
    have "set (xs @ ys) = set (xs @ i # ys) - {i}" using d by auto
    then show ?thesis using old(4) fields(3) by auto
  qed
  ultimately show ?thesis using d hd bit unfolding slot_ok_def by auto
qed

lemma unlink_slot_other:
  assumes wf: "wf w L F [] c" and i: "i < length (entries w)" and p: "place_of w i = Armed l s"
    and b': "l' < 6" "s' < 64" and ne: "\<not> (l' = l \<and> s' = s)"
  shows "slot_ok (unlink i w) {i} l' s' (L l' s')"
proof (rule slot_ok_frame [where w = w and T = "{}"])
  obtain xs ys where split: "L l s = xs @ i # ys" by (rule wf_armed_split [OF wf i p])
  note at = wf_armed_at [where L = L, OF wf i p split]
  note b = at(1,2) and pvi = at(4) and nxi = at(5)
  note fields = unlink_fields [OF p]
  have len: "length (levels w) = 6" "length (heads (levels w ! l)) = 64"
    using wf b unfolding wf_def shape_ok_def by auto
  show "slot_ok w {} l' s' (L l' s')" using wf b' unfolding wf_def by auto
  have in_L: "j < length (entries w)" "place_of w j = Armed l' s'" if "j \<in> set (L l' s')" for j
    using that wf_slot_set [OF wf b'] by auto
  have nb: "place_of w (pv w i) = Armed l s" if "pv w i \<noteq> NIL"
    using wf_slot_set [OF wf b] split pvi that by (cases xs rule: rev_cases) auto
  have nb': "place_of w (nx w i) = Armed l s" if "nx w i \<noteq> NIL"
    using wf_slot_set [OF wf b] split nxi that by (cases ys) auto
  show "nx (unlink i w) j = nx w j" if "j \<in> set (L l' s')" for j
    using fields(1) in_L [OF that] nb ne by auto
  show "pv (unlink i w) j = pv w j" if "j \<in> set (L l' s')" for j
    using fields(2) in_L [OF that] nb' ne by auto
  show "head_of (unlink i w) l' s' = head_of w l' s'"
    and "bit (occupied (levels (unlink i w) ! l')) s' = bit (occupied (levels w ! l')) s'"
    using unlink_levels(2) [OF p, of l'] len b b' ne by (auto simp: bit_and_not_push_one)
  show "members (unlink i w) {i} (Armed l' s') = members w {} (Armed l' s')"
    using fields(3) p ne by auto
qed

lemma wf_unlink:
  assumes wf: "wf w L F [] c" and i: "i < length (entries w)" and p: "place_of w i = Armed l s"
  obtains L' where "wf (unlink i w) L' F [i] c"
proof -
  obtain xs ys where split: "L l s = xs @ i # ys" by (rule wf_armed_split [OF wf i p])
  note at = wf_armed_at [where L = L, OF wf i p split]
  note b = at(1,2) and pvi = at(4)
  note fields = unlink_fields [OF p]
  have nb: "place_of w (pv w i) = Armed l s" if "pv w i \<noteq> NIL"
    using wf_slot_set [OF wf b] split pvi that by (cases xs rule: rev_cases) auto
  have shape: "shape_ok (unlink i w)"
    using wf b unlink_levels(2) [OF p] unfolding wf_def shape_ok_def by auto
  have slots: "\<forall>l'<6. \<forall>s'<64. slot_ok (unlink i w) {i} l' s'
      (if l' = l \<and> s' = s then xs @ ys else L l' s')"
    using unlink_slot_same [where L = L, OF wf i p split] unlink_slot_other [where L = L, OF wf i p] by auto
  have fr: "free_ok (unlink i w) F {i}"
  proof -
    have F: "chain (nx w) (free w) F" "distinct F" "set F = members w {} Free"
      "\<forall>j \<in> set F. ewaker (entries w ! j) = None"
      using wf unfolding wf_def free_ok_def by auto
    have "chain (nx (unlink i w)) (free w) F = chain (nx w) (free w) F"
      using F(3) fields(1) nb by (intro lseg_cong) auto
    moreover have "members (unlink i w) {i} Free = members w {} Free"
      using fields(3) p by auto
    ultimately show ?thesis using F fields(5) unfolding free_ok_def by simp
  qed
  have tm: "timing_ok (unlink i w) {i}"
    using wf fields(3,4) unfolding wf_def timing_ok_def by auto
  have "linked w {} = Set.insert i (linked (unlink i w) {i})"
    using fields(3) i p by (auto simp: linked_def)
  then have "card (linked w {}) = Suc (card (linked (unlink i w) {i}))"
    by (simp add: linked_def)
  moreover have "armed (unlink i w) = armed w - 1"
    using unlink_levels(1) [OF p] wf b unfolding wf_def shape_ok_def by simp
  ultimately show thesis
    using that [of "\<lambda>l' s'. if l' = l \<and> s' = s then xs @ ys else L l' s'"] shape slots fr tm wf i
    unfolding wf_def by simp
qed

subsection \<open>The armed timers\<close>

definition timers :: "'w wheel \<Rightarrow> timer_key \<Rightarrow> (u64 \<times> 'w option) option" where
  "timers w k = map_option (\<lambda>e. (ewhen e, ewaker e)) (entry_of k w)"

lemma timers_Some_iff:
  "timers w k = Some (t, v) \<longleftrightarrow> key_index k < length (entries w)
     \<and> egeneration (entries w ! key_index k) = key_generation k \<and> place_of w (key_index k) \<noteq> Free
     \<and> ewhen (entries w ! key_index k) = t \<and> ewaker (entries w ! key_index k) = v"
  by (auto simp: timers_def entry_of_def Let_def)

lemma timers_None_iff:
  "timers w k = None \<longleftrightarrow> \<not> (key_index k < length (entries w)
     \<and> egeneration (entries w ! key_index k) = key_generation k \<and> place_of w (key_index k) \<noteq> Free)"
  by (auto simp: timers_def entry_of_def Let_def)

lemma live_iff: "live k w = Some i \<longleftrightarrow> i = key_index k \<and> timers w k \<noteq> None"
  by (auto simp: live_def timers_def)

lemma live_None_iff: "live k w = None \<longleftrightarrow> timers w k = None"
  by (simp add: live_def timers_def)

lemma is_fired_iff: "is_fired k w \<longleftrightarrow> timers w k = None"
  by (simp add: is_fired_def timers_def)

text \<open>Two wheels that agree on what an entry is agree on the timers of that entry's keys.\<close>

lemma timers_frame:
  assumes "key_index k < length (entries w) \<longleftrightarrow> key_index k < length (entries w')"
    and "key_index k < length (entries w) \<Longrightarrow>
      ewhen (entries w' ! key_index k) = ewhen (entries w ! key_index k)
      \<and> ewaker (entries w' ! key_index k) = ewaker (entries w ! key_index k)
      \<and> egeneration (entries w' ! key_index k) = egeneration (entries w ! key_index k)
      \<and> (place_of w' (key_index k) = Free \<longleftrightarrow> place_of w (key_index k) = Free)"
  shows "timers w' k = timers w k"
  using assms by (auto simp: timers_def entry_of_def Let_def)

lemma timers_link:
  assumes "wf w L F (i # T) c" and "key_index k \<noteq> i"
  shows "timers (link i w) k = timers w k"
  using link_entry_fields [OF assms(1)] assms(2) by (intro timers_frame) auto

lemma timers_unlink:
  assumes "place_of w i = Armed l s"
  shows "timers (unlink i w) k = timers w k"
  using unlink_fields [OF assms] by (intro timers_frame) auto

lemma timers_release:
  assumes "i < length (entries w)"
  shows "timers (snd (wheel_release i w)) k = (if key_index k = i then None else timers w k)"
  using assms
  by (auto simp: timers_None_iff wheel_release_def intro!: timers_frame)

lemma timers_transit_update:
  "key_index k \<noteq> i \<Longrightarrow> timers (w\<lparr>entries := (entries w)[i := e]\<rparr>) k = timers w k"
  by (intro timers_frame) auto

text \<open>Arming a timer the wheel has not passed.\<close>

lemma wheel_insert_arms:
  assumes inv: "wheel_inv w" and room: "headroom (elapsed w)" and len: "length (entries w) < NIL"
    and late: "elapsed w < t"
  obtains key w' where "wheel_insert t v w = (Inr key, w')" and "wheel_inv w'"
    and "timers w key = None" and "timers w' = (timers w)(key \<mapsto> (t, Some v))"
    and "elapsed w' = elapsed w" and "armed w' = Suc (armed w)" and "phantom w' = phantom w"
    and "length (entries w') \<le> Suc (length (entries w))"
proof -
  obtain L F where wf: "wf w L F [] 0" using inv unfolding wheel_inv_def by blast
  obtain i w1 where a: "alloc w = (i, w1)" by (cases "alloc w") auto
  obtain F' where wf1: "wf w1 L F' [i] 0" and i: "i < length (entries w1)" "place_of w1 i = Free"
    and old: "\<And>j. j < length (entries w) \<Longrightarrow> entries w1 ! j = entries w ! j"
    and new: "\<And>j. length (entries w) \<le> j \<Longrightarrow> j < length (entries w1) \<Longrightarrow> j = i"
    and sc: "elapsed w1 = elapsed w" "phantom w1 = phantom w" "length (entries w) \<le> length (entries w1)"
    using wf_alloc [OF wf len a] by blast
  define w2 where "w2 = w1\<lparr>entries := upd_entry i (\<lambda>e. e\<lparr>ewhen := t, ewaker := Some v\<rparr>) (entries w1)\<rparr>"
  have wf2: "wf w2 L F' [i] 0" unfolding w2_def by (rule wf_transit_update [OF wf1])
  have e2: "ewhen (entries w2 ! i) = t" "ewaker (entries w2 ! i) = Some v"
    "elapsed w2 = elapsed w" "phantom w2 = phantom w" "length (entries w2) = length (entries w1)"
    using i sc by (simp_all add: w2_def)
  define w3 where "w3 = link i w2"
  define key where "key = \<lparr>key_index = i, key_generation = egeneration (entries w3 ! i)\<rparr>"
  have res: "wheel_insert t v w = (Inr key, w3)"
    using late a by (simp add: wheel_insert_def w2_def w3_def key_def Let_def)
  have wf3: "\<exists>L'. wf w3 L' F' [] 0"
    unfolding w3_def using wf_link [OF wf2] room late e2 by auto
  note fields = link_entry_fields [OF wf2, folded w3_def]
  have none: "timers w k = None" if "key_index k = i" for k
  proof (cases "i < length (entries w)")
    case True
    then show ?thesis using that i(2) old by (simp add: timers_None_iff)
  next
    case False
    then show ?thesis using that by (simp add: timers_None_iff)
  qed
  have "timers w3 k = ((timers w)(key \<mapsto> (t, Some v))) k" for k
  proof (cases "key_index k = i")
    case True
    have "k = key \<longleftrightarrow> key_generation k = egeneration (entries w3 ! i)"
      using True by (cases k) (auto simp: key_def)
    moreover have "timers w3 k = (if key_generation k = egeneration (entries w3 ! i) then Some (t, Some v) else None)"
      using True fields [of i] i e2 by (auto simp: timers_def entry_of_def Let_def w3_def)
    ultimately show ?thesis using none [OF True] by simp
  next
    case False
    have "timers w3 k = timers w2 k" unfolding w3_def by (rule timers_link [OF wf2 False])
    also have "\<dots> = timers w1 k" unfolding w2_def by (rule timers_transit_update [OF False])
    also have "\<dots> = timers w k"
    proof (rule timers_frame)
      show "key_index k < length (entries w) \<longleftrightarrow> key_index k < length (entries w1)"
        using new [of "key_index k"] False sc(3) by force
    qed (simp add: old)
    finally show ?thesis using False by (auto simp: key_def)
  qed
  then have "timers w3 = (timers w)(key \<mapsto> (t, Some v))" by blast
  moreover have "armed w1 = armed w"
    using a by (auto simp: alloc_def grow_def split: if_splits)
  then have "armed w3 = Suc (armed w)" by (simp add: w3_def w2_def)
  moreover have "length (entries w3) \<le> Suc (length (entries w))"
    using a by (auto simp: w3_def e2 alloc_def grow_def split: if_splits)
  ultimately show thesis
    using that res wf3 none [of key] e2 unfolding wheel_inv_def
    by (auto simp: key_def w3_def)
qed

text \<open>Removing a timer, and a key that names none.\<close>

lemma wheel_remove_stale: "timers w key = None \<Longrightarrow> wheel_remove key w = (None, w)"
  by (simp add: wheel_remove_def live_None_iff [THEN iffD2])

lemma wheel_remove_armed:
  assumes inv: "wheel_inv w" and k: "timers w key = Some (t, v)"
  obtains w' where "wheel_remove key w = (v, w')" and "wheel_inv w'"
    and "timers w' = (timers w)(key := None)"
    and "elapsed w' = elapsed w" and "Suc (armed w') = armed w" and "phantom w' = phantom w"
    and "length (entries w') = length (entries w)"
proof -
  obtain L F where wf: "wf w L F [] 0" using inv unfolding wheel_inv_def by blast
  define i where "i = key_index key"
  have i: "i < length (entries w)" "place_of w i \<noteq> Free" "ewaker (entries w ! i) = v"
    "egeneration (entries w ! i) = key_generation key"
    using k unfolding timers_Some_iff i_def by auto
  then obtain l s where p: "place_of w i = Armed l s" by (cases "place_of w i") auto
  obtain L' where wf1: "wf (unlink i w) L' F [i] 0" by (rule wf_unlink [OF wf i(1) p])
  define w' where "w' = snd (wheel_release i (unlink i w))"
  have "live key w = Some i" using k by (simp add: live_iff i_def)
  then have res: "wheel_remove key w = (v, w')"
    using i(3) unlink_fields(5) [OF p i(1)]
    by (simp add: wheel_remove_def w'_def wheel_release_def)
  have wf2: "wf w' L' (i # F) [] 0" unfolding w'_def by (rule wf_release [OF wf1])
  have "timers w' k = ((timers w)(key := None)) k" for k
  proof -
    have "timers w' k = (if key_index k = i then None else timers w k)"
      using i(1) timers_unlink [OF p] by (simp add: w'_def timers_release)
    moreover have "timers w k = None" if "key_index k = i" "k \<noteq> key"
      using that i(4) by (cases k; cases key) (auto simp: timers_None_iff i_def)
    ultimately show ?thesis by (auto simp: i_def)
  qed
  then have "timers w' = (timers w)(key := None)" by blast
  moreover have "Suc (armed w') = armed w"
  proof -
    have "i \<in> linked w {}" using i by (simp add: linked_def)
    then have "0 < card (linked w {})" by (auto simp: card_gt_0_iff)
    then have "0 < armed w" using wf unfolding wf_def by simp
    moreover have "l < length (levels w)"
      using wf_place_bounds(1) [OF wf i(1) p] wf unfolding wf_def shape_ok_def by simp
    ultimately show ?thesis
      using unlink_levels(1) [OF p] by (simp add: w'_def wheel_release_def)
  qed
  ultimately show thesis
    using that res wf2 unfolding wheel_inv_def by (auto simp: w'_def wheel_release_def)
qed

text \<open>An entry whose place is not free keeps its timer while it moves between slots.\<close>

lemma timers_relink:
  assumes "wf w L F (i # T) c" and "place_of w i \<noteq> Free"
  shows "timers (link i w) = timers w"
proof
  fix k
  show "timers (link i w) k = timers w k"
    using link_entry_fields [OF assms(1)] assms(2) by (intro timers_frame) auto
qed

lemma timers_at:
  assumes "timers w key = Some (t, v)"
  shows "k \<noteq> key \<Longrightarrow> key_index k = key_index key \<Longrightarrow> timers w k = None"
  using assms by (cases k; cases key) (auto simp: timers_None_iff timers_Some_iff)

lemma armed_index:
  assumes "wf w L F [] c" and "timers w key = Some (t, v)"
  obtains l s L' where "place_of w (key_index key) = Armed l s" and "key_index key < length (entries w)"
    and "wf (unlink (key_index key) w) L' F [key_index key] c"
proof -
  have i: "key_index key < length (entries w)" "place_of w (key_index key) \<noteq> Free"
    using assms(2) unfolding timers_Some_iff by auto
  then obtain l s where p: "place_of w (key_index key) = Armed l s"
    by (cases "place_of w (key_index key)") auto
  show thesis
    using wf_unlink [OF assms(1) i(1) p] that [OF p i(1)] by blast
qed

text \<open>Moving a timer.\<close>

lemma wheel_reset_stale: "timers w key = None \<Longrightarrow> wheel_reset key t v w = w"
  by (simp add: wheel_reset_def live_None_iff [THEN iffD2])

lemma wheel_reset_past:
  assumes "timers w key = Some (t', v')" and "t \<le> elapsed w"
  shows "wheel_reset key t v w = snd (wheel_remove key w)"
proof -
  have "live key w = Some (key_index key)" using assms(1) by (simp add: live_iff)
  then show ?thesis using assms(2) by (simp add: wheel_reset_def wheel_remove_def Let_def)
qed

lemma wheel_reset_moves:
  assumes inv: "wheel_inv w" and room: "headroom (elapsed w)" and k: "timers w key = Some (t', v')"
    and late: "elapsed w < t"
  shows "wheel_inv (wheel_reset key t v w)"
    and "timers (wheel_reset key t v w) = (timers w)(key \<mapsto> (t, Some v))"
proof -
  obtain L F where wf: "wf w L F [] 0" using inv unfolding wheel_inv_def by blast
  define i where "i = key_index key"
  obtain l s L' where p: "place_of w i = Armed l s" and i: "i < length (entries w)"
    and wf1: "wf (unlink i w) L' F [i] 0"
    unfolding i_def by (rule armed_index [OF wf k])
  have g: "egeneration (entries w ! i) = key_generation key"
    using k unfolding timers_Some_iff i_def by simp
  define f where "f = (\<lambda>e :: 'a entry. e\<lparr>ewhen := t, ewaker := (if ewaker e = Some v then ewaker e else Some v)\<rparr>)"
  define w2 where "w2 = (unlink i w)\<lparr>entries := upd_entry i f (entries (unlink i w))\<rparr>"
  have res: "wheel_reset key t v w = link i w2"
    using k late by (simp add: wheel_reset_def live_iff [THEN iffD2] w2_def f_def Let_def i_def)
  have wf2: "wf w2 L' F [i] 0" unfolding w2_def by (rule wf_transit_update [OF wf1])
  have e2: "ewhen (entries w2 ! i) = t" "ewaker (entries w2 ! i) = Some v" "elapsed w2 = elapsed w"
    "place_of w2 i \<noteq> Free" "egeneration (entries w2 ! i) = key_generation key"
    "length (entries w2) = length (entries w)"
    using i unlink_fields [OF p i] g p by (auto simp: w2_def f_def)
  show "wheel_inv (wheel_reset key t v w)"
    unfolding res wheel_inv_def using wf_link [OF wf2] room late e2 by auto
  have "timers (link i w2) k = ((timers w)(key \<mapsto> (t, Some v))) k" for k
  proof (cases "key_index k = i")
    case True
    have "k = key \<longleftrightarrow> key_generation k = key_generation key"
      using True by (cases k; cases key) (auto simp: i_def)
    then show ?thesis
      using True e2 i timers_at [OF k, of k] unfolding timers_relink [OF wf2 e2(4)]
      by (auto simp: timers_def entry_of_def Let_def i_def)
  next
    case False
    then have "timers w2 k = timers w k"
      unfolding w2_def using timers_transit_update timers_unlink [OF p] by metis
    then show ?thesis using False unfolding timers_relink [OF wf2 e2(4)] by (auto simp: i_def)
  qed
  then show "timers (wheel_reset key t v w) = (timers w)(key \<mapsto> (t, Some v))" unfolding res by blast
qed

text \<open>Updates that touch no link: the waker of an entry, all wakers, the phantom count.\<close>

lemma wf_rewaker:
  assumes wf: "wf w L F T c" and "length es = length (entries w)"
    and "\<And>j. j < length es \<Longrightarrow> nx w j = enext (es ! j) \<and> pv w j = eprev (es ! j)
      \<and> place_of w j = eplace (es ! j) \<and> ewhen (entries w ! j) = ewhen (es ! j)
      \<and> (place_of w j = Free \<longrightarrow> ewaker (entries w ! j) = None \<longrightarrow> ewaker (es ! j) = None)"
  shows "wf (w\<lparr>entries := es\<rparr>) L F T c" (is "wf ?w L F T c")
proof -
  have mem: "members ?w (set T) p = members w (set T) p" for p using assms by auto
  have "slot_ok ?w (set T) l s (L l s)" if "l < 6" "s < 64" for l s
  proof (rule slot_ok_frame [where w = w and T = "set T"])
    show "slot_ok w (set T) l s (L l s)" using wf that unfolding wf_def by simp
  qed (use assms mem wf_slot_set [OF wf that] in auto)
  moreover have "free_ok ?w F (set T)"
  proof -
    have F: "chain (nx w) (free w) F" "set F = members w (set T) Free"
      using wf unfolding wf_def free_ok_def by auto
    then have "chain (nx ?w) (free w) F"
      using assms(2,3) by (intro lseg_cong [THEN iffD1, OF _ F(1)]) auto
    then show ?thesis using wf assms(2,3) mem unfolding wf_def free_ok_def by auto
  qed
  moreover have "timing_ok ?w (set T)" using wf assms(2,3) unfolding wf_def timing_ok_def by simp
  moreover have "linked ?w (set T) = linked w (set T)" using assms(2,3) by (auto simp: linked_def)
  ultimately show ?thesis using wf assms(2) unfolding wf_def shape_ok_def by simp
qed

lemma wheel_inv_rewaker:
  assumes "wheel_inv w" and "length es = length (entries w)"
    and "\<And>j. j < length es \<Longrightarrow> nx w j = enext (es ! j) \<and> pv w j = eprev (es ! j)
      \<and> place_of w j = eplace (es ! j) \<and> ewhen (entries w ! j) = ewhen (es ! j)
      \<and> (place_of w j = Free \<longrightarrow> ewaker (entries w ! j) = None \<longrightarrow> ewaker (es ! j) = None)"
  shows "wheel_inv (w\<lparr>entries := es\<rparr>)"
  using assms wf_rewaker unfolding wheel_inv_def by blast

lemma replace_waker_stale: "timers w key = None \<Longrightarrow> replace_waker key v w = (Some v, w)"
  by (simp add: replace_waker_def live_None_iff [THEN iffD2])

lemma replace_waker_armed:
  assumes inv: "wheel_inv w" and k: "timers w key = Some (t, v')"
  shows "fst (replace_waker key v w) = v'" and "wheel_inv (snd (replace_waker key v w))"
    and "timers (snd (replace_waker key v w)) = (timers w)(key \<mapsto> (t, Some v))"
proof -
  define i where "i = key_index key"
  have e: "i < length (entries w)" "place_of w i \<noteq> Free" "ewhen (entries w ! i) = t"
    "ewaker (entries w ! i) = v'" "egeneration (entries w ! i) = key_generation key"
    using k unfolding timers_Some_iff i_def by auto
  define es where "es = upd_entry i (\<lambda>e. e\<lparr>ewaker := Some v\<rparr>) (entries w)"
  have res: "replace_waker key v w = (v', w\<lparr>entries := es\<rparr>)"
    using k e(4) by (simp add: replace_waker_def live_iff [THEN iffD2] i_def es_def)
  then show "fst (replace_waker key v w) = v'" by simp
  show "wheel_inv (snd (replace_waker key v w))"
    using e unfolding res snd_conv
    by (intro wheel_inv_rewaker [OF inv]) (auto simp: es_def nth_upd)
  have "timers (w\<lparr>entries := es\<rparr>) k = ((timers w)(key \<mapsto> (t, Some v))) k" for k
  proof (cases "key_index k = i")
    case True
    have "k = key \<longleftrightarrow> key_generation k = key_generation key"
      using True by (cases k; cases key) (auto simp: i_def)
    then show ?thesis
      using True e timers_at [OF k, of k] by (auto simp: timers_def entry_of_def Let_def i_def es_def)
  next
    case False
    then show ?thesis using timers_transit_update [OF False] by (auto simp: es_def i_def)
  qed
  then show "timers (snd (replace_waker key v w)) = (timers w)(key \<mapsto> (t, Some v))"
    unfolding res by auto
qed

lemma take_wakers_timers:
  "timers (snd (take_wakers w)) k = map_option (\<lambda>(t, _). (t, None)) (timers w k)"
  by (auto simp: take_wakers_def timers_def entry_of_def Let_def)

lemma take_wakers_inv: "wheel_inv w \<Longrightarrow> wheel_inv (snd (take_wakers w))"
  unfolding take_wakers_def snd_conv by (rule wheel_inv_rewaker) auto

lemma set_phantom_inv:
  assumes "wheel_inv w"
  shows "wheel_inv (set_phantom n w)" and "armed (set_phantom n w) = armed w - phantom w + n"
    and "timers (set_phantom n w) = timers w"
proof -
  obtain L F where "wf w L F [] 0" using assms unfolding wheel_inv_def by blast
  then have "wf (set_phantom n w) L F [] 0"
    unfolding wf_defs set_phantom_def linked_def by simp
  then show "wheel_inv (set_phantom n w)" unfolding wheel_inv_def by blast
qed (auto simp: set_phantom_def timers_def entry_of_def)

text \<open>The count of armed timers is the number of keys with a timer, plus the phantom ones.\<close>

lemma timers_keys:
  "bij_betw key_index (dom (timers w)) (linked w {})"
proof (rule bij_betw_imageI)
  show "inj_on key_index (dom (timers w))"
    using timers_at by (fastforce intro!: inj_onI)
  show "key_index ` dom (timers w) = linked w {}"
  proof (rule set_eqI)
    fix i
    show "i \<in> key_index ` dom (timers w) \<longleftrightarrow> i \<in> linked w {}"
    proof
      assume "i \<in> linked w {}"
      then have "\<lparr>key_index = i, key_generation = egeneration (entries w ! i)\<rparr> \<in> dom (timers w)"
        by (auto simp: linked_def timers_Some_iff)
      then show "i \<in> key_index ` dom (timers w)" by force
    qed (auto simp: linked_def timers_Some_iff)
  qed
qed

lemma armed_count:
  assumes "wheel_inv w"
  shows "finite (dom (timers w))" and "armed w = phantom w + card (dom (timers w))"
proof -
  have "finite (linked w {})" by (simp add: linked_def)
  then show "finite (dom (timers w))" using bij_betw_finite [OF timers_keys] by blast
  show "armed w = phantom w + card (dom (timers w))"
    using assms bij_betw_same_card [OF timers_keys, of w] unfolding wheel_inv_def wf_def by auto
qed

lemma timers_after_elapsed:
  assumes "wheel_inv w" and "timers w k = Some (t, v)"
  shows "elapsed w < t"
proof -
  obtain l s where "place_of w (key_index k) = Armed l s" "key_index k < length (entries w)"
    "ewhen (entries w ! key_index k) = t"
    using assms(2) unfolding timers_Some_iff by (cases "place_of w (key_index k)") auto
  then show ?thesis
    using assms(1) unfolding wheel_inv_def wf_def timing_ok_def placed_ok_def by fastforce
qed

end
