(* ===== verification/Wheel_Advance.thy ===== *)
theory Wheel_Advance
  imports Wheel_Ops
begin

text \<open>
  Advancing the timer wheel: the next slot is the earliest one, a drained slot fires what is
  due and links the rest again, and the loop of \<^const>\<open>advance\<close> ends with every due timer fired.
\<close>

subsection \<open>The next slot\<close>

text \<open>What \<^const>\<open>next_slot\<close> picks among the levels it has seen: a level with a bit set, at the
  earliest tick of all bits seen.\<close>

definition picked :: "u64 \<Rightarrow> (nat \<Rightarrow> u64) \<Rightarrow> nat \<Rightarrow> (nat \<times> nat \<times> u64) option \<Rightarrow> bool" where
  "picked now occ n r = (case r of
     None \<Rightarrow> (\<forall>l<n. occ l = 0)
   | Some (l, s, d) \<Rightarrow> l < n \<and> s < 64 \<and> bit (occ l) s \<and> unat d = tick (unat now) l s
       \<and> (\<forall>l'<n. \<forall>s'<64. bit (occ l') s' \<longrightarrow> unat d \<le> tick (unat now) l' s'))"

lemma picked_Suc_empty: "picked now occ n r \<Longrightarrow> occ n = 0 \<Longrightarrow> picked now occ (Suc n) r"
  by (auto simp: picked_def less_Suc_eq split: option.splits)

lemma picked_Suc_take:
  assumes "picked now occ n r" and s: "bit (occ n) s" "s < 64" and d: "unat d = tick (unat now) n s"
    and min: "\<And>s'. bit (occ n) s' \<Longrightarrow> tick (unat now) n s \<le> tick (unat now) n s'"
    and better: "\<And>l' s' d'. r = Some (l', s', d') \<Longrightarrow> d < d'"
  shows "picked now occ (Suc n) (Some (n, s, d))"
proof (cases r)
  case None
  then show ?thesis
    using assms(1) s d min by (auto simp: picked_def less_Suc_eq)
next
  case (Some a)
  obtain l0 s0 d0 where r: "r = Some (l0, s0, d0)" using Some by (cases a) auto
  have "unat d < unat d0" using better [OF r] by (simp add: word_less_nat_alt)
  then show ?thesis
    using assms(1) s d min unfolding r by (fastforce simp: picked_def less_Suc_eq)
qed

lemma picked_Suc_keep:
  assumes "picked now occ n (Some (l0, s0, d0))" and d: "unat d = tick (unat now) n s"
    and min: "\<And>s'. bit (occ n) s' \<Longrightarrow> tick (unat now) n s \<le> tick (unat now) n s'"
    and "\<not> d < d0"
  shows "picked now occ (Suc n) (Some (l0, s0, d0))"
proof -
  have "unat d0 \<le> unat d" using assms(4) by (simp add: word_less_nat_alt)
  then show ?thesis
    using assms(1) d min by (fastforce simp: picked_def less_Suc_eq)
qed

lemma next_slot_from_picked:
  assumes "headroom now" and "n + length lvs = 6"
    and "\<And>i. i < length lvs \<Longrightarrow> occ (n + i) = occupied (lvs ! i)"
    and "picked now occ n best"
  shows "picked now occ 6 (next_slot_from now n best lvs)"
  using assms(2-4)
proof (induction lvs arbitrary: n best)
  case (Cons lv lvs)
  have occ: "occ n = occupied lv" using Cons.prems(2) [of 0] by simp
  have rest: "occ (Suc n + i) = occupied (lvs ! i)" if "i < length lvs" for i
    using Cons.prems(2) [of "Suc i"] that by simp
  show ?case
  proof (cases "occupied lv = 0")
    case True
    then show ?thesis
      using Cons.IH [of "Suc n" best] Cons.prems rest picked_Suc_empty occ by simp
  next
    case False
    obtain s d where look: "level_look now n lv = (s, d)" by (cases "level_look now n lv")
    have n: "n \<le> 5" using Cons.prems(1) by simp
    note least = level_look_least [OF False n assms(1) look]
    define best' where "best' = (if (case best of None \<Rightarrow> True | Some (_, _, d') \<Rightarrow> d < d')
      then Some (n, s, d) else best)"
    have "picked now occ (Suc n) best'"
    proof (cases "case best of None \<Rightarrow> True | Some (_, _, d') \<Rightarrow> d < d'")
      case True
      then show ?thesis
        using least occ
        by (auto simp: best'_def intro!: picked_Suc_take [OF Cons.prems(3), of s d])
    next
      case False
      then obtain l0 s0 d0 where b: "best = Some (l0, s0, d0)" "\<not> d < d0"
        by (auto split: option.splits)
      then show ?thesis
        using picked_Suc_keep [of now occ n l0 s0 d0 d s] Cons.prems(3) least occ
        by (auto simp: best'_def)
    qed
    then have "picked now occ 6 (next_slot_from now (Suc n) best' lvs)"
      using Cons.prems(1) rest by (intro Cons.IH) auto
    then show ?thesis using False look by (simp add: best'_def)
  qed
qed simp

lemma next_slot_picked:
  assumes "shape_ok w" and "headroom (elapsed w)"
  shows "picked (elapsed w) (\<lambda>l. occupied (levels w ! l)) 6 (next_slot w)"
  unfolding next_slot_def using assms
  by (intro next_slot_from_picked) (auto simp: shape_ok_def picked_def)

lemma next_slot_None_empty:
  assumes wf: "wf w L F [] c" and "headroom (elapsed w)" and "next_slot w = None"
    and "l < 6" and "s < 64"
  shows "L l s = []"
proof -
  have "shape_ok w" using wf unfolding wf_def by simp
  then have "occupied (levels w ! l) = 0"
    using next_slot_picked assms(2-4) by (fastforce simp: picked_def)
  then show ?thesis using wf_slot_bit [OF wf assms(4,5)] by simp
qed

lemma wf_slot_placed:
  assumes wf: "wf w L F T c" and "l < 6" and "s < 64" and "i \<in> set (L l s)"
  shows "placed_ok (elapsed w) (ewhen (entries w ! i)) l s"
  using wf assms(4) wf_slot_set [OF wf assms(2,3)] unfolding wf_def timing_ok_def by auto

lemma slots_ticks_differ:
  assumes wf: "wf w L F [] c" and b: "l < 6" "s < 64" "l' < 6" "s' < 64"
    and ne: "L l s \<noteq> []" "L l' s' \<noteq> []" and diff: "\<not> (l' = l \<and> s' = s)"
  shows "tick (unat (elapsed w)) l s \<noteq> tick (unat (elapsed w)) l' s'"
proof -
  have window: "tick (unat (elapsed w)) k t div pow64 (Suc k) = unat (elapsed w) div pow64 (Suc k)"
    if k: "k < 5" "t < 64" "L k t \<noteq> []" for k t
  proof -
    have "hd (L k t) \<in> set (L k t)" using k(3) by simp
    then show ?thesis using wf_slot_placed [OF wf _ k(2)] k(1) unfolding placed_ok_def by fastforce
  qed
  consider "l = l'" | "l < l'" | "l' < l" by linarith
  then show ?thesis
  proof cases
    case 1
    show ?thesis
    proof
      assume "tick (unat (elapsed w)) l s = tick (unat (elapsed w)) l' s'"
      then have "s * pow64 l = s' * pow64 l"
        using tick_mod [OF b(2), of "unat (elapsed w)" l] tick_mod [OF b(4), of "unat (elapsed w)" l'] 1
        by simp
      then show False using diff 1 by simp
    qed
  next
    case 2
    then show ?thesis using window [of l s] b ne by (intro tick_levels_differ) auto
  next
    case 3
    then show ?thesis
      using window [of l' s'] b ne by (intro not_sym [OF tick_levels_differ]) auto
  qed
qed

lemma next_slot_Some_least:
  assumes wf: "wf w L F [] c" and "headroom (elapsed w)" and r: "next_slot w = Some (l, s, d)"
  shows "l < 6" and "s < 64" and "L l s \<noteq> []" and "unat d = tick (unat (elapsed w)) l s"
    and "\<And>l' s'. l' < 6 \<Longrightarrow> s' < 64 \<Longrightarrow> L l' s' \<noteq> [] \<Longrightarrow> \<not> (l' = l \<and> s' = s) \<Longrightarrow>
      unat d < tick (unat (elapsed w)) l' s'"
proof -
  have "shape_ok w" using wf unfolding wf_def by simp
  then have p: "picked (elapsed w) (\<lambda>l. occupied (levels w ! l)) 6 (Some (l, s, d))"
    using next_slot_picked assms(2) r by fastforce
  show b: "l < 6" "s < 64" and d: "unat d = tick (unat (elapsed w)) l s"
    using p by (auto simp: picked_def)
  show ne: "L l s \<noteq> []" using p wf_slot_bit [OF wf b] by (simp add: picked_def)
  fix l' s' assume b': "l' < 6" "s' < 64" and ne': "L l' s' \<noteq> []" and diff: "\<not> (l' = l \<and> s' = s)"
  have "unat d \<le> tick (unat (elapsed w)) l' s'"
    using p wf_slot_bit [OF wf b'] b' ne' by (auto simp: picked_def)
  moreover have "unat d \<noteq> tick (unat (elapsed w)) l' s'"
    using slots_ticks_differ [OF wf b b' ne ne' diff] d by simp
  ultimately show "unat d < tick (unat (elapsed w)) l' s'" by simp
qed

text \<open>Every armed timer is at or after the next slot's tick.\<close>

lemma next_slot_before_timers:
  assumes inv: "wheel_inv w" and "headroom (elapsed w)" and k: "timers w k = Some (t, v)"
  obtains l s d where "next_slot w = Some (l, s, d)" and "d \<le> t"
proof -
  obtain L F where wf: "wf w L F [] 0" using inv unfolding wheel_inv_def by blast
  obtain l s where p: "place_of w (key_index k) = Armed l s" and i: "key_index k < length (entries w)"
    and t: "ewhen (entries w ! key_index k) = t"
    using k unfolding timers_Some_iff by (cases "place_of w (key_index k)") auto
  have b: "l < 6" "s < 64" using wf_place_bounds [OF wf i p] by auto
  have mem: "key_index k \<in> set (L l s)" using wf_slot_set [OF wf b] i p by simp
  have le: "tick (unat (elapsed w)) l s \<le> unat t"
    using wf_slot_placed [OF wf b mem] t unfolding placed_ok_def by simp
  show thesis
  proof (cases "next_slot w")
    case None
    then show thesis using next_slot_None_empty [OF wf assms(2) None b] mem by simp
  next
    case (Some a)
    obtain l' s' d where r: "next_slot w = Some (l', s', d)" using Some by (cases a) auto
    note least = next_slot_Some_least [OF wf assms(2) r]
    have "unat d \<le> tick (unat (elapsed w)) l s"
      using least(4) least(5) [OF b] mem by (cases "l = l' \<and> s = s'") force+
    then show thesis using that [OF r] le by (simp add: word_le_nat_alt)
  qed
qed

subsection \<open>Taking a slot\<close>

lemma div_between:
  fixes a b c q :: nat
  assumes "a \<le> b" and "b \<le> c" and "c div q = a div q"
  shows "c div q = b div q"
  using div_le_mono [OF assms(1), of q] div_le_mono [OF assms(2), of q] assms(3) by simp

text \<open>A timer that is placed right stays so while the clock moves up to, and not past, its slot.\<close>

lemma placed_ok_advance:
  assumes "placed_ok now t l s" and "now \<le> d" and "unat d < tick (unat now) l s"
  shows "placed_ok d t l s"
proof -
  have le: "unat now \<le> unat d" using assms(2) by (simp add: word_le_nat_alt)
  have stable: "tick (unat d) l s = tick (unat now) l s"
    using assms(1,3) le unfolding placed_ok_def by (intro tick_stable) auto
  have "tick (unat now) l s div pow64 (Suc l) = unat now div pow64 (Suc l)" if "l < 5"
    using assms(1) that unfolding placed_ok_def by blast
  then have "tick (unat now) l s div pow64 (Suc l) = unat d div pow64 (Suc l)" if "l < 5"
    using div_between [OF le less_imp_le [OF assms(3)]] that by blast
  moreover have "tick (unat now) l s \<le> unat t" using assms(1) unfolding placed_ok_def by blast
  then have "d < t" unfolding word_less_nat_alt using assms(3) by linarith
  ultimately show ?thesis using assms(1) unfolding placed_ok_def stable by blast
qed

lemma take_slot_simps [simp]:
  "entries (snd (take_slot l s d w)) = entries w" "free (snd (take_slot l s d w)) = free w"
  "elapsed (snd (take_slot l s d w)) = d" "phantom (snd (take_slot l s d w)) = phantom w"
  "armed (snd (take_slot l s d w)) = armed w" "fst (take_slot l s d w) = head_of w l s"
  by (simp_all add: take_slot_def Let_def)

lemma take_slot_slot_other:
  assumes "slot_ok w {} l' s' xs" and "\<not> (l' = l \<and> s' = s)" and "l < length (levels w)"
    and "s < 64" and "s' < 64"
  shows "slot_ok (snd (take_slot l s d w)) (members w {} (Armed l s)) l' s' xs"
proof (rule slot_ok_frame [OF assms(1)])
  let ?w = "snd (take_slot l s d w)"
  show "members ?w (members w {} (Armed l s)) (Armed l' s') = members w {} (Armed l' s')"
    using assms(2) by auto
  show "head_of ?w l' s' = head_of w l' s'"
    using assms(2,3) by (auto simp: take_slot_def Let_def nth_list_update)
  show "bit (occupied (levels ?w ! l')) s' = bit (occupied (levels w ! l')) s'"
    using assms(2-5) by (auto simp: take_slot_def Let_def nth_list_update bit_and_not_push_one)
qed auto

lemma take_slot_slot_same:
  assumes "shape_ok w" and "l < 6" and "s < 64"
  shows "slot_ok (snd (take_slot l s d w)) (members w {} (Armed l s)) l s []"
  using assms by (auto simp: slot_ok_def take_slot_def Let_def shape_ok_def bit_and_not_push_one)

lemma wf_take_slot:
  assumes wf: "wf w L F [] 0" and room: "headroom (elapsed w)" and r: "next_slot w = Some (l, s, d)"
  defines "w' \<equiv> snd (take_slot l s d w)"
  shows "wf w' (\<lambda>l' s'. if l' = l \<and> s' = s then [] else L l' s') F (L l s) (length (L l s))"
proof -
  note least = next_slot_Some_least [OF wf room r]
  note b = least(1,2)
  have T: "set (L l s) = members w {} (Armed l s)" using wf_slot_set [OF wf b] by simp
  have dist: "distinct (L l s)" using wf_slot_distinct [OF wf b] .
  have shape: "shape_ok w" using wf unfolding wf_def by simp
  have "shape_ok w'"
    using shape b by (auto simp: w'_def shape_ok_def take_slot_def Let_def nth_list_update)
  moreover have "slot_ok w' (set (L l s)) l' s' (if l' = l \<and> s' = s then [] else L l' s')"
    if b': "l' < 6" "s' < 64" for l' s'
  proof (cases "l' = l \<and> s' = s")
    case True
    then show ?thesis using take_slot_slot_same [OF shape b] unfolding w'_def T by simp
  next
    case False
    have "slot_ok w {} l' s' (L l' s')" using wf b' unfolding wf_def by simp
    moreover have "l < length (levels w)" using shape b unfolding shape_ok_def by simp
    ultimately have "slot_ok w' (set (L l s)) l' s' (L l' s')"
      unfolding w'_def T using take_slot_slot_other [OF _ False _ b(2) b'(2)] by blast
    then show ?thesis unfolding if_not_P [OF False] .
  qed
  moreover have "free_ok w' F (set (L l s))"
    using wf unfolding wf_def free_ok_def T w'_def by auto
  moreover have "timing_ok w' (set (L l s))"
    unfolding timing_ok_def
  proof (intro allI impI)
    fix i l' s' assume i: "i < length (entries w')" "place_of w' i = Armed l' s'" "i \<notin> set (L l s)"
    have iw: "i < length (entries w)" "place_of w i = Armed l' s'" using i unfolding w'_def by auto
    have b': "l' < 6" "s' < 64" using wf_place_bounds [OF wf iw] by auto
    have mem: "i \<in> set (L l' s')" using wf_slot_set [OF wf b'] iw by simp
    then have "\<not> (l' = l \<and> s' = s)" using i(3) by auto
    then have lt: "unat d < tick (unat (elapsed w)) l' s'" using least(5) [OF b'] mem by force
    have "elapsed w \<le> d"
      using least(4) tick_gt [of "unat (elapsed w)" l s] by (simp add: word_le_nat_alt)
    then show "placed_ok (elapsed w') (ewhen (entries w' ! i)) l' s'"
      using placed_ok_advance [OF wf_slot_placed [OF wf b' mem] _ lt] by (simp add: w'_def)
  qed
  moreover have "card (linked w {}) = card (linked w' (set (L l s))) + length (L l s)"
  proof -
    have "linked w {} = linked w' (set (L l s)) \<union> set (L l s)"
      "linked w' (set (L l s)) \<inter> set (L l s) = {}"
      unfolding w'_def linked_def T by auto
    moreover have "finite (linked w' (set (L l s)))" by (simp add: linked_def)
    ultimately show ?thesis using card_Un_disjoint distinct_card [OF dist] by (metis List.finite_set)
  qed
  ultimately show ?thesis
    using wf dist T unfolding wf_def w'_def by auto
qed

subsection \<open>Draining a slot\<close>

text \<open>The wakers of the armed entries that are due, as a multiset: what an advance fires.\<close>

definition due_waker :: "u64 \<Rightarrow> 'w entry \<Rightarrow> 'w option" where
  "due_waker now e = (if eplace e \<noteq> Free \<and> ewhen e \<le> now then ewaker e else None)"

definition due :: "u64 \<Rightarrow> 'w wheel \<Rightarrow> 'w multiset" where
  "due now w = mset (List.map_filter (due_waker now) (entries w))"

lemma mset_map_filter_update:
  "i < length xs \<Longrightarrow> mset (List.map_filter f (xs[i := x])) + mset_set (set_option (f (xs ! i)))
     = mset (List.map_filter f xs) + mset_set (set_option (f x))"
proof (induction xs arbitrary: i)
  case (Cons y ys)
  then show ?case
    by (cases i) (auto simp: map_filter_simps split: option.splits)
qed simp

lemma map_filter_cong_nth:
  "length xs = length ys \<Longrightarrow> (\<And>j. j < length xs \<Longrightarrow> f (xs ! j) = f (ys ! j)) \<Longrightarrow>
     List.map_filter f xs = List.map_filter f ys"
proof (induction xs ys rule: list_induct2)
  case (Cons x xs y ys)
  have "f x = f y" using Cons.prems [of 0] by simp
  moreover have "List.map_filter f xs = List.map_filter f ys"
    using Cons.prems [of "Suc j" for j] by (intro Cons.IH) auto
  ultimately show ?case by (simp add: map_filter_simps split: option.split)
qed (simp add: map_filter_simps)

lemma due_relink:
  assumes "wf w L F (i # T) c" and "place_of w i \<noteq> Free"
  shows "due now (link i w) = due now w"
  unfolding due_def
  using link_entry_fields [OF assms(1)] assms(2)
  by (intro arg_cong [where f = mset] map_filter_cong_nth) (auto simp: due_waker_def)

lemma due_release:
  assumes "i < length (entries w)" and "place_of w i \<noteq> Free" and "ewhen (entries w ! i) \<le> now"
    and "entries w' = (entries w)[i := e]" and "eplace e = Free"
  shows "due now w = mset_set (set_option (ewaker (entries w ! i))) + due now w'"
  using mset_map_filter_update [OF assms(1), of "due_waker now" e] assms
  by (simp add: due_def due_waker_def add.commute)

definition drained :: "u64 \<Rightarrow> 'w wheel \<Rightarrow> nat set \<Rightarrow> 'w wheel \<Rightarrow> bool" where
  "drained now w S w' \<longleftrightarrow> elapsed w' = elapsed w \<and> phantom w' = phantom w
     \<and> length (entries w') = length (entries w)
     \<and> (\<forall>k. timers w' k = (case timers w k of
          Some (t, v) \<Rightarrow> if t \<le> now \<and> key_index k \<in> S then None else Some (t, v) | None \<Rightarrow> None))"

lemma drain_fire_step:
  assumes wf: "wf w L F (i # T) (Suc c)" and T: "chain (nx w) i (i # T)"
    and p: "place_of w i \<noteq> Free" and due: "ewhen (entries w ! i) \<le> now"
  defines "w' \<equiv> snd (wheel_release i (w\<lparr>armed := armed w - 1,
                        entries := upd_entry i (\<lambda>e. e\<lparr>ewaker := None\<rparr>) (entries w)\<rparr>))"
  shows "wf w' L (i # F) T c" and "chain (nx w') (nx w i) T"
    and "drained now w {i} w'" and "due now w = mset_set (set_option (ewaker (entries w ! i))) + due now w'"
    and "\<And>j. j \<in> set T \<Longrightarrow> entries w' ! j = entries w ! j"
proof -
  have i: "i < length (entries w)" "i \<notin> set T" using wf_transit [OF wf] by auto
  have "wf (w\<lparr>armed := armed w - 1\<rparr>) L F (i # T) c" by (rule wf_uncount [OF wf])
  then have "wf (w\<lparr>armed := armed w - 1, entries := upd_entry i (\<lambda>e. e\<lparr>ewaker := None\<rparr>) (entries w)\<rparr>) L F (i # T) c"
    using wf_transit_update [of "w\<lparr>armed := armed w - 1\<rparr>"] by simp
  then show "wf w' L (i # F) T c" unfolding w'_def by (rule wf_release)
  define e where "e = (entries w ! i)\<lparr>ewaker := None, eplace := Free,
    egeneration := egeneration (entries w ! i) + 1, enext := free w\<rparr>"
  have e: "entries w' = (entries w)[i := e]" "eplace e = Free"
    using i by (simp_all add: w'_def wheel_release_def e_def)
  have other: "entries w' ! j = entries w ! j" if "j \<in> set T" for j
  proof -
    have "j \<noteq> i" using that i(2) by blast
    then show ?thesis unfolding e(1) by simp
  qed
  then show "\<And>j. j \<in> set T \<Longrightarrow> entries w' ! j = entries w ! j" .
  have "chain (nx w) (nx w i) T" using T by simp
  then show "chain (nx w') (nx w i) T" by (rule lseg_cong [THEN iffD1, rotated]) (simp add: other)
  show "due now w = mset_set (set_option (ewaker (entries w ! i))) + due now w'"
    by (rule due_release [OF i(1) p due e])
  have "timers w' k = (if key_index k = i then None else timers w k)" for k
  proof (cases "key_index k = i")
    case True
    then show ?thesis using i(1) e by (simp add: timers_None_iff)
  next
    case False
    then show ?thesis using e(1) by (simp, intro timers_frame) simp_all
  qed
  moreover have "t \<le> now" if "timers w k = Some (t, v)" "key_index k = i" for k t v
    using that due unfolding timers_Some_iff by auto
  ultimately show "drained now w {i} w'"
    by (auto simp: drained_def w'_def wheel_release_def split: option.split)
qed

lemma drain_keep_step:
  assumes wf: "wf w L F (i # T) (Suc c)" and T: "chain (nx w) i (i # T)"
    and p: "\<And>j. j \<in> set (i # T) \<Longrightarrow> place_of w j \<noteq> Free"
    and late: "now < ewhen (entries w ! i)" and "elapsed w \<le> now" and room: "headroom (elapsed w)"
  defines "w' \<equiv> link i (w\<lparr>armed := armed w - 1\<rparr>)"
  obtains L' where "wf w' L' F T c" and "chain (nx w') (nx w i) T"
    and "drained now w {i} w'" and "due now w' = due now w"
    and "\<And>j. j \<in> set T \<Longrightarrow> place_of w' j = place_of w j"
proof -
  let ?w = "w\<lparr>armed := armed w - 1\<rparr>"
  have i: "i < length (entries w)" "i \<notin> set T" "set T \<subseteq> {..<length (entries w)}"
    using wf_transit [OF wf] wf unfolding wf_def by auto
  have wf1: "wf ?w L F (i # T) c" by (rule wf_uncount [OF wf])
  note fields = link_entry_fields [OF wf1, folded w'_def]
  have p1: "place_of ?w i \<noteq> Free" using p by simp
  have t: "timers w' = timers w"
    using timers_relink [OF wf1 p1] unfolding w'_def by (simp add: fun_eq_iff timers_def entry_of_def)
  show thesis
  proof (rule that)
    show "wf w' (\<lambda>l s. if l = link_level i ?w \<and> s = link_slot i ?w then i # L l s else L l s) F T c"
      unfolding w'_def using late assms(5) room by (intro wf_link [OF wf1]) auto
    have same: "nx w j = nx w' j" if "j \<in> set T" for j
      using that i fields(1) [of j] by auto
    have "chain (nx w) (nx w i) T" using T by simp
    then show "chain (nx w') (nx w i) T" by (rule lseg_cong [THEN iffD1, rotated]) (simp add: same)
    show "due now w' = due now w"
      using due_relink [OF wf1 p1] unfolding w'_def by (simp add: due_def)
    show "drained now w {i} w'"
      unfolding drained_def t using late
      by (auto simp: w'_def timers_Some_iff split: option.split)
    show "place_of w' j = place_of w j" if "j \<in> set T" for j
      using that i fields(3) [of j] by auto
  qed
qed

lemma drained_trans:
  "drained now w S w1 \<Longrightarrow> drained now w1 S' w2 \<Longrightarrow> drained now w (S \<union> S') w2"
  unfolding drained_def by (force split: option.splits if_splits)

lemma drained_refl: "drained now w {} w"
  by (simp add: drained_def split: option.split)

lemma mset_fire:
  "mset (case v of Some waker \<Rightarrow> fired @ [waker] | None \<Rightarrow> fired) = mset fired + mset_set (set_option v)"
  by (cases v) auto

lemma drain_fires:
  assumes "wf w L F T (length T)" and "chain (nx w) index T" and "elapsed w \<le> now"
    and "headroom (elapsed w)" and "\<And>j. j \<in> set T \<Longrightarrow> place_of w j \<noteq> Free"
  shows "\<exists>w' fired'. drain now index w fired = Some (w', fired') \<and> wheel_inv w'
     \<and> drained now w (set T) w' \<and> mset fired' + due now w' = mset fired + due now w"
  using assms
proof (induction T arbitrary: index w L F fired)
  case Nil
  then have "index = NIL" "wheel_inv w" by (auto simp: wheel_inv_def)
  then show ?case using drained_refl by (auto simp: drain.simps)
next
  case (Cons i T)
  have idx: "index = i" "i \<noteq> NIL" and T: "chain (nx w) i (i # T)"
    using Cons.prems(2) wf_index_not_NIL [OF Cons.prems(1)] wf_transit [OF Cons.prems(1)] by auto
  have wf: "wf w L F (i # T) (Suc (length T))" using Cons.prems(1) by simp
  have p: "place_of w i \<noteq> Free" using Cons.prems(5) by simp
  have rest: "\<exists>w' fired'. drain now (nx w i) w1 fired1 = Some (w', fired') \<and> wheel_inv w'
      \<and> drained now w (set (i # T)) w' \<and> mset fired' + due now w' = mset fired1 + due now w1"
    if "wf w1 L1 F1 T (length T)" "chain (nx w1) (nx w i) T" "drained now w {i} w1"
      "\<And>j. j \<in> set T \<Longrightarrow> place_of w1 j \<noteq> Free" for w1 L1 F1 fired1
  proof -
    have "elapsed w1 = elapsed w" using that(3) by (simp add: drained_def)
    then show ?thesis
      using Cons.IH [OF that(1,2) _ _ that(4), of fired1] Cons.prems(3,4) drained_trans [OF that(3)]
      by fastforce
  qed
  show ?case
  proof (cases "ewhen (entries w ! i) \<le> now")
    case True
    define fired1 where "fired1 = (case ewaker (entries w ! i) of Some waker \<Rightarrow> fired @ [waker] | None \<Rightarrow> fired)"
    define w1 where "w1 = snd (wheel_release i (w\<lparr>armed := armed w - 1,
                        entries := upd_entry i (\<lambda>e. e\<lparr>ewaker := None\<rparr>) (entries w)\<rparr>))"
    note step = drain_fire_step [OF wf T p True, folded w1_def]
    have "drain now index w fired = drain now (nx w i) w1 fired1"
      using idx True by (subst drain.simps) (simp add: Let_def w1_def fired1_def)
    moreover have "\<And>j. j \<in> set T \<Longrightarrow> place_of w1 j \<noteq> Free" using step(5) Cons.prems(5) by simp
    moreover have "mset fired1 + due now w1 = mset fired + due now w"
      using step(4) mset_fire by (simp add: fired1_def)
    ultimately show ?thesis using rest [OF step(1-3), of fired1] by simp
  next
    case False
    define w1 where "w1 = link i (w\<lparr>armed := armed w - 1\<rparr>)"
    have late: "now < ewhen (entries w ! i)" using False by simp
    obtain L1 where step: "wf w1 L1 F T (length T)" "chain (nx w1) (nx w i) T" "drained now w {i} w1"
      "due now w1 = due now w" "\<And>j. j \<in> set T \<Longrightarrow> place_of w1 j = place_of w j"
      using drain_keep_step [OF wf T Cons.prems(5) late Cons.prems(3,4), folded w1_def] by blast
    have "drain now index w fired = drain now (nx w i) w1 fired"
      using idx False by (subst drain.simps) (simp add: Let_def w1_def)
    moreover have "\<And>j. j \<in> set T \<Longrightarrow> place_of w1 j \<noteq> Free" using step(5) Cons.prems(5) by simp
    ultimately show ?thesis using rest [OF step(1-3), of fired] step(4) by simp
  qed
qed

subsection \<open>Advancing\<close>

text \<open>What one round of the loop does: the slot is drained at its tick.\<close>

lemma advance_round:
  assumes inv: "wheel_inv w" and r: "next_slot w = Some (l, s, d)" and "d \<le> now" and room: "headroom now"
    and le: "elapsed w \<le> now"
  obtains w' fired' S where "drain now (fst (take_slot l s d w)) (snd (take_slot l s d w)) fired = Some (w', fired')"
    and "wheel_inv w'" and "elapsed w' = d" and "elapsed w < d"
    and "drained now (w\<lparr>elapsed := d\<rparr>) S w'" and "mset fired' + due now w' = mset fired + due now w"
proof -
  obtain L F where wf: "wf w L F [] 0" using inv unfolding wheel_inv_def by blast
  have room': "headroom (elapsed w)" "headroom d"
    using room le assms(3) unfolding headroom_def word_le_nat_alt by auto
  define w1 where "w1 = snd (take_slot l s d w)"
  note least = next_slot_Some_least [OF wf room'(1) r]
  have wf1: "wf w1 (\<lambda>l' s'. if l' = l \<and> s' = s then [] else L l' s') F (L l s) (length (L l s))"
    unfolding w1_def by (rule wf_take_slot [OF wf room'(1) r])
  have "chain (nx w1) (head_of w l s) (L l s)"
    using wf_slot_chain [OF wf least(1,2)] by (simp add: w1_def)
  moreover have "place_of w1 j \<noteq> Free" if "j \<in> set (L l s)" for j
    using that wf_slot_set [OF wf least(1,2)] by (auto simp: w1_def)
  ultimately obtain w' fired' where d: "drain now (head_of w l s) w1 fired = Some (w', fired')"
    "wheel_inv w'" "drained now w1 (set (L l s)) w'" "mset fired' + due now w' = mset fired + due now w1"
    using drain_fires [OF wf1, of "head_of w l s" now fired] assms(3) room'(2) by (auto simp: w1_def)
  have "timers w1 = timers (w\<lparr>elapsed := d\<rparr>)" "due now w1 = due now w"
    by (simp_all add: fun_eq_iff timers_def entry_of_def w1_def due_def)
  then have "drained now (w\<lparr>elapsed := d\<rparr>) (set (L l s)) w'"
    using d(3) by (simp add: drained_def w1_def)
  moreover have "elapsed w' = d" using d(3) by (simp add: drained_def w1_def)
  moreover have "elapsed w < d"
    using least(4) tick_gt [of "unat (elapsed w)" l s] by (simp add: word_less_nat_alt)
  ultimately show thesis
    using that d \<open>due now w1 = due now w\<close> by (simp add: w1_def)
qed

definition advanced :: "u64 \<Rightarrow> 'w wheel \<Rightarrow> 'w wheel \<Rightarrow> bool" where
  "advanced now w w' \<longleftrightarrow> phantom w' = phantom w \<and> length (entries w') = length (entries w)
     \<and> (\<forall>k. timers w' k = (case timers w k of
          Some (t, v) \<Rightarrow> if t \<le> now then None else Some (t, v) | None \<Rightarrow> None))"

lemma timers_clock [simp]: "timers (w\<lparr>elapsed := d\<rparr>) = timers w"
  by (simp add: fun_eq_iff timers_def entry_of_def)

lemma due_none:
  assumes "\<And>k t v. timers w k = Some (t, v) \<Longrightarrow> now < t"
  shows "due now w = {#}"
proof -
  have "due_waker now e = None" if e: "e \<in> set (entries w)" for e
  proof -
    obtain i where i: "i < length (entries w)" "entries w ! i = e"
      using e by (auto simp: in_set_conv_nth)
    have "now < ewhen e" if "eplace e \<noteq> Free"
      using assms [of "\<lparr>key_index = i, key_generation = egeneration e\<rparr>"] i that
      by (simp add: timers_Some_iff)
    then show ?thesis by (auto simp: due_waker_def not_le)
  qed
  then have "List.map_filter (due_waker now) (entries w) = []"
    by (auto simp: map_filter_def filter_empty_conv)
  then show ?thesis by (simp add: due_def)
qed

lemma advanced_idle:
  assumes "\<And>k t v. timers w k = Some (t, v) \<Longrightarrow> now < t"
  shows "advanced now w w"
  using assms by (force simp: advanced_def split: option.split)

lemma drained_advanced:
  assumes "drained now (w\<lparr>elapsed := d\<rparr>) S w1" and "advanced now w1 w2"
  shows "advanced now w w2"
proof -
  show ?thesis
    using assms unfolding drained_def advanced_def by (force split: option.splits if_splits)
qed

lemma advance_loop_fires:
  assumes "wheel_inv w" and "headroom now" and "elapsed w \<le> now"
  shows "\<exists>w' fired'. advance_loop now w fired = Some (w', fired') \<and> wheel_inv w'
     \<and> elapsed w' \<le> now \<and> advanced now w w' \<and> mset fired' = mset fired + due now w
     \<and> (\<forall>l s d. next_slot w' = Some (l, s, d) \<longrightarrow> now < d)"
  using assms
proof (induction "unat now - unat (elapsed w)" arbitrary: w fired rule: less_induct)
  case less
  have room: "headroom (elapsed w)"
    using less.prems unfolding headroom_def word_le_nat_alt by auto
  show ?case
  proof (cases "\<exists>l s d. next_slot w = Some (l, s, d) \<and> d \<le> now")
    case False
    then have stop: "now < d" if "next_slot w = Some (l, s, d)" for l s d
      using that by (meson not_le)
    then have "advance_loop now w fired = Some (w, fired)"
      by (subst advance_loop.simps) (auto split: option.split)
    moreover have late: "now < t" if k: "timers w k = Some (t, v)" for k t v
    proof -
      obtain l s d where "next_slot w = Some (l, s, d)" "d \<le> t"
        by (rule next_slot_before_timers [OF less.prems(1) room k])
      then show ?thesis using stop by (meson less_le_trans)
    qed
    ultimately show ?thesis
      using less.prems stop due_none [OF late] advanced_idle [OF late] by auto
  next
    case True
    then obtain l s d where r: "next_slot w = Some (l, s, d)" and d: "d \<le> now" by blast
    obtain w1 fired1 S where step:
      "drain now (fst (take_slot l s d w)) (snd (take_slot l s d w)) fired = Some (w1, fired1)"
      "wheel_inv w1" "elapsed w1 = d" "elapsed w < d" "drained now (w\<lparr>elapsed := d\<rparr>) S w1"
      "mset fired1 + due now w1 = mset fired + due now w"
      by (rule advance_round [OF less.prems(1) r d less.prems(2,3)])
    have "advance_loop now w fired = advance_loop now w1 fired1"
      using r d step(1) by (subst advance_loop.simps) (simp add: not_less [symmetric] del: not_less)
    moreover have "unat now - unat (elapsed w1) < unat now - unat (elapsed w)"
      using step(4) d unfolding step(3) word_less_nat_alt word_le_nat_alt by linarith
    ultimately show ?thesis
      using less.hyps [of w1 fired1] step(2,3,6) d less.prems(2) drained_advanced [OF step(5)] by fastforce
  qed
qed

text \<open>Moving the clock up to a time before every slot's tick keeps the wheel well formed.\<close>

lemma wf_clock:
  assumes wf: "wf w L F [] 0" and room: "headroom now" and le: "elapsed w \<le> now"
    and stop: "\<And>l s d. next_slot w = Some (l, s, d) \<Longrightarrow> now < d"
  shows "wf (w\<lparr>elapsed := now\<rparr>) L F [] 0"
proof -
  have room': "headroom (elapsed w)" using room le unfolding headroom_def word_le_nat_alt by auto
  have "placed_ok now (ewhen (entries w ! i)) l s"
    if i: "i < length (entries w)" "place_of w i = Armed l s" for i l s
  proof -
    have b: "l < 6" "s < 64" using wf_place_bounds [OF wf i] by auto
    have mem: "i \<in> set (L l s)" using wf_slot_set [OF wf b] i by simp
    obtain l' s' d where r: "next_slot w = Some (l', s', d)"
      using next_slot_None_empty [OF wf room' _ b] mem by (cases "next_slot w") force+
    note least = next_slot_Some_least [OF wf room' r]
    have "unat d \<le> tick (unat (elapsed w)) l s"
      using least(4) least(5) [OF b] mem by (cases "l = l' \<and> s = s'") force+
    then have "unat now < tick (unat (elapsed w)) l s"
      using stop [OF r] unfolding word_less_nat_alt by linarith
    then show ?thesis by (rule placed_ok_advance [OF wf_slot_placed [OF wf b mem] le])
  qed
  then show ?thesis
    using wf unfolding wf_def shape_ok_def slot_ok_def free_ok_def timing_ok_def linked_def by simp
qed

lemma advance_fires:
  assumes inv: "wheel_inv w" and room: "headroom now" and le: "elapsed w \<le> now"
  obtains w' fired' where "advance now w fired = Some (w', fired')" and "wheel_inv w'"
    and "elapsed w' = now" and "advanced now w w'" and "mset fired' = mset fired + due now w"
proof -
  obtain w1 fired' where r: "advance_loop now w fired = Some (w1, fired')" "wheel_inv w1"
    "elapsed w1 \<le> now" "advanced now w w1" "mset fired' = mset fired + due now w"
    "\<And>l s d. next_slot w1 = Some (l, s, d) \<Longrightarrow> now < d"
    using advance_loop_fires [OF assms, of fired] by blast
  obtain L F where "wf w1 L F [] 0" using r(2) unfolding wheel_inv_def by blast
  then have "wheel_inv (w1\<lparr>elapsed := now\<rparr>)"
    unfolding wheel_inv_def using wf_clock [OF _ room r(3)] r(6) by blast
  moreover have "advanced now w (w1\<lparr>elapsed := now\<rparr>)"
    using r(4) by (simp add: advanced_def)
  moreover have "advance now w fired = Some (w1\<lparr>elapsed := now\<rparr>, fired')"
    using r(1,3) by (simp add: advance_def max_absorb2)
  ultimately show thesis using that r(5) by simp
qed

text \<open>A clock reading behind the wheel changes nothing.\<close>

lemma advance_behind:
  assumes inv: "wheel_inv w" and room: "headroom (elapsed w)" and lt: "now < elapsed w"
  shows "advance now w fired = Some (w, fired)" and "advanced now w w" and "due now w = {#}"
proof -
  have late: "now < t" if "timers w k = Some (t, v)" for k t v
    using timers_after_elapsed [OF inv that] lt by simp
  obtain L F where wf: "wf w L F [] 0" using inv unfolding wheel_inv_def by blast
  have "now < d" if r: "next_slot w = Some (l, s, d)" for l s d
    using next_slot_Some_least(4) [OF wf room r] tick_gt [of "unat (elapsed w)" l s] lt
    unfolding word_less_nat_alt by linarith
  then have "advance_loop now w fired = Some (w, fired)"
    by (subst advance_loop.simps) (auto split: option.split)
  then show "advance now w fired = Some (w, fired)" using lt by (simp add: advance_def max_absorb1)
qed (use timers_after_elapsed [OF inv] lt in \<open>auto intro!: advanced_idle due_none intro: less_trans\<close>)

lemma advance_total:
  assumes inv: "wheel_inv w" and room: "headroom (elapsed w)" "headroom now"
  obtains w' fired' where "advance now w fired = Some (w', fired')" and "wheel_inv w'"
    and "elapsed w' = max (elapsed w) now" and "advanced now w w'" and "mset fired' = mset fired + due now w"
proof (cases "now < elapsed w")
  case True
  then show thesis
    using that advance_behind [OF inv room(1) True] inv by (simp add: max_absorb1)
next
  case False
  then have le: "elapsed w \<le> now" by simp
  show thesis
    by (rule advance_fires [OF inv room(2) le, of fired]) (use that le in \<open>simp add: max_absorb2\<close>)
qed

lemma due_iff:
  "v \<in># due now w \<longleftrightarrow> (\<exists>k t. timers w k = Some (t, Some v) \<and> t \<le> now)"
proof
  assume "v \<in># due now w"
  then obtain i where i: "i < length (entries w)" "due_waker now (entries w ! i) = Some v"
    by (auto simp: due_def map_filter_def in_set_conv_nth)
  then have "timers w \<lparr>key_index = i, key_generation = egeneration (entries w ! i)\<rparr>
      = Some (ewhen (entries w ! i), Some v)" "ewhen (entries w ! i) \<le> now"
    by (auto simp: timers_Some_iff due_waker_def split: if_splits)
  then show "\<exists>k t. timers w k = Some (t, Some v) \<and> t \<le> now" by blast
next
  assume "\<exists>k t. timers w k = Some (t, Some v) \<and> t \<le> now"
  then obtain i where "i < length (entries w)" "due_waker now (entries w ! i) = Some v"
    by (auto simp: timers_Some_iff due_waker_def)
  then show "v \<in># due now w"
    by (force simp: due_def map_filter_def in_set_conv_nth image_iff)
qed

lemma next_deadline_None:
  assumes inv: "wheel_inv w" and room: "headroom (elapsed w)"
  shows "next_deadline w = None \<longleftrightarrow> dom (timers w) = {}"
proof
  assume "next_deadline w = None"
  then show "dom (timers w) = {}"
    using next_slot_before_timers [OF inv room] by (fastforce simp: next_deadline_def)
next
  assume none: "dom (timers w) = {}"
  show "next_deadline w = None"
  proof (rule ccontr)
    assume "next_deadline w \<noteq> None"
    then obtain l s d where r: "next_slot w = Some (l, s, d)" by (auto simp: next_deadline_def)
    obtain L F where wf: "wf w L F [] 0" using inv unfolding wheel_inv_def by blast
    note least = next_slot_Some_least [OF wf room r]
    obtain i where "i \<in> set (L l s)" using least(3) by (cases "L l s") auto
    then have "i \<in> linked w {}" using wf_slot_set [OF wf least(1,2)] by (auto simp: linked_def)
    then show False using timers_keys [of w] none by (simp add: bij_betw_def)
  qed
qed

lemma next_deadline_Some:
  assumes inv: "wheel_inv w" and room: "headroom (elapsed w)" and d: "next_deadline w = Some d"
  shows "elapsed w < d" and "\<And>k t v. timers w k = Some (t, v) \<Longrightarrow> d \<le> t"
proof -
  obtain l s where r: "next_slot w = Some (l, s, d)" using d by (auto simp: next_deadline_def)
  obtain L F where wf: "wf w L F [] 0" using inv unfolding wheel_inv_def by blast
  show "elapsed w < d"
    using next_slot_Some_least(4) [OF wf room r] tick_gt [of "unat (elapsed w)" l s]
    by (simp add: word_less_nat_alt)
  show "d \<le> t" if k: "timers w k = Some (t, v)" for k t v
    by (rule next_slot_before_timers [OF inv room k]) (use r in simp)
qed

end
