(* ===== verification/Wheel_Spec.thy ===== *)
theory Wheel_Spec
  imports Wheel_Advance
begin

text \<open>
  What the timer wheel promises, and what a client gets from it.  The interface
  \<open>timer_store\<close> states the laws a set of armed timers obeys and proves, for any run of
  operations, that a timer is never lost and never late; the wheel of \<open>src/src/time/wheel.rs\<close> is
  an instance, and the properties of the wheel follow.
\<close>

subsection \<open>The interface of a timer store\<close>

datatype ('k, 'w) timer_op = Arm u64 'w | Cancel 'k | Expire u64

text \<open>A run of operations, with the wakers it fired.\<close>

fun timer_run :: "(u64 \<Rightarrow> 'w \<Rightarrow> 's \<Rightarrow> ('w + 'k) \<times> 's) \<Rightarrow> ('k \<Rightarrow> 's \<Rightarrow> 'w option \<times> 's)
    \<Rightarrow> (u64 \<Rightarrow> 's \<Rightarrow> 'w list \<Rightarrow> ('s \<times> 'w list) option)
    \<Rightarrow> ('k, 'w) timer_op list \<Rightarrow> 's \<Rightarrow> 'w list \<Rightarrow> ('s \<times> 'w list) option" where
  "timer_run arm cancel expire [] s fired = Some (s, fired)"
| "timer_run arm cancel expire (Arm t v # ops) s fired =
     timer_run arm cancel expire ops (snd (arm t v s)) fired"
| "timer_run arm cancel expire (Cancel k # ops) s fired =
     timer_run arm cancel expire ops (snd (cancel k s)) fired"
| "timer_run arm cancel expire (Expire now # ops) s fired =
     (case expire now s fired of None \<Rightarrow> None
      | Some (s', fired') \<Rightarrow> timer_run arm cancel expire ops s' fired')"

lemma timer_run_append:
  "timer_run arm cancel expire (xs @ ys) s fired =
     (case timer_run arm cancel expire xs s fired of None \<Rightarrow> None
      | Some (s', fired') \<Rightarrow> timer_run arm cancel expire ys s' fired')"
  by (induction arm cancel expire xs s fired rule: timer_run.induct) (auto split: option.split)

abbreviation is_arm :: "('k, 'w) timer_op \<Rightarrow> bool" where
  "is_arm op \<equiv> (case op of Arm _ _ \<Rightarrow> True | _ \<Rightarrow> False)"

text \<open>The operations that leave the timer of key \<open>k\<close>, due at \<open>t\<close>, alone: no cancel of
  \<open>k\<close>, and no clock reading that reaches \<open>t\<close>.\<close>

definition leaves :: "(u64 \<Rightarrow> bool) \<Rightarrow> 'k \<Rightarrow> u64 \<Rightarrow> ('k, 'w) timer_op \<Rightarrow> bool" where
  "leaves ok k t op = (case op of Arm _ _ \<Rightarrow> True | Cancel k' \<Rightarrow> k' \<noteq> k | Expire now \<Rightarrow> ok now \<and> now < t)"

text \<open>A clock reading that reaches \<open>t\<close>, with no cancel of \<open>k\<close> before it.\<close>

definition reaches :: "'k \<Rightarrow> u64 \<Rightarrow> ('k, 'w) timer_op list \<Rightarrow> bool" where
  "reaches k t ops \<longleftrightarrow> (\<exists>before now rest. ops = before @ Expire now # rest \<and> t \<le> now \<and> Cancel k \<notin> set before)"

lemma reaches_Cons: "reaches k t ops \<Longrightarrow> op \<noteq> Cancel k \<Longrightarrow> reaches k t (op # ops)"
  unfolding reaches_def by (metis append_Cons set_ConsD)

lemma reaches_now: "t \<le> now \<Longrightarrow> reaches k t (Expire now # ops)"
  unfolding reaches_def by (metis append_Nil empty_iff empty_set)

text \<open>The run arms \<open>v\<close>, and goes on to a clock reading that reaches its time with no cancel of its key before it.\<close>

definition arms_due :: "(u64 \<Rightarrow> 'w \<Rightarrow> 's \<Rightarrow> ('w + 'k) \<times> 's) \<Rightarrow> ('k \<Rightarrow> 's \<Rightarrow> 'w option \<times> 's)
    \<Rightarrow> (u64 \<Rightarrow> 's \<Rightarrow> 'w list \<Rightarrow> ('s \<times> 'w list) option) \<Rightarrow> 'w \<Rightarrow> ('k, 'w) timer_op list \<Rightarrow> 's \<Rightarrow> 'w list \<Rightarrow> bool" where
  "arms_due arm cancel expire v ops s fired \<longleftrightarrow>
     (\<exists>ops0 t ops1 s0 f0 k. ops = ops0 @ Arm t v # ops1 \<and> timer_run arm cancel expire ops0 s fired = Some (s0, f0)
        \<and> fst (arm t v s0) = Inr k \<and> reaches k t ops1)"

lemma arms_due_now: "fst (arm t v s) = Inr k \<Longrightarrow> reaches k t ops \<Longrightarrow> arms_due arm cancel expire v (Arm t v # ops) s fired"
  unfolding arms_due_def by (rule exI [of _ "[]"]) auto

lemma arms_due_later:
  assumes "arms_due arm cancel expire v ops s1 fired1"
    and "\<And>xs. timer_run arm cancel expire (op # xs) s fired = timer_run arm cancel expire xs s1 fired1"
  shows "arms_due arm cancel expire v (op # ops) s fired"
proof -
  from assms(1) obtain ops0 t ops1 s0 f0 k where "ops = ops0 @ Arm t v # ops1"
    "timer_run arm cancel expire ops0 s1 fired1 = Some (s0, f0)" "fst (arm t v s0) = Inr k" "reaches k t ops1"
    unfolding arms_due_def by blast
  then show ?thesis unfolding arms_due_def using assms(2) [of ops0] by (intro exI [of _ "op # ops0"]) auto
qed

locale timer_store =
  fixes inv :: "'s \<Rightarrow> bool" and clock :: "'s \<Rightarrow> u64" and used :: "'s \<Rightarrow> nat" and capacity :: nat
    and ok :: "u64 \<Rightarrow> bool"
    and armed_at :: "'s \<Rightarrow> 'k \<Rightarrow> (u64 \<times> 'w option) option"
    and arm :: "u64 \<Rightarrow> 'w \<Rightarrow> 's \<Rightarrow> ('w + 'k) \<times> 's"
    and cancel :: "'k \<Rightarrow> 's \<Rightarrow> 'w option \<times> 's"
    and expire :: "u64 \<Rightarrow> 's \<Rightarrow> 'w list \<Rightarrow> ('s \<times> 'w list) option"
  assumes arm_late: "t \<le> clock s \<Longrightarrow> arm t v s = (Inl v, s)"
    and arm_early: "inv s \<Longrightarrow> used s < capacity \<Longrightarrow> clock s < t \<Longrightarrow>
      \<exists>k s'. arm t v s = (Inr k, s') \<and> inv s' \<and> clock s' = clock s \<and> used s' \<le> Suc (used s)
        \<and> armed_at s k = None \<and> armed_at s' = (armed_at s)(k \<mapsto> (t, Some v))"
    and cancel_law: "inv s \<Longrightarrow> inv (snd (cancel k s)) \<and> clock (snd (cancel k s)) = clock s
      \<and> used (snd (cancel k s)) = used s \<and> armed_at (snd (cancel k s)) = (armed_at s)(k := None)
      \<and> fst (cancel k s) = Option.bind (armed_at s k) snd"
    and expire_law: "inv s \<Longrightarrow> ok now \<Longrightarrow>
      \<exists>s' fired'. expire now s fired = Some (s', fired') \<and> inv s' \<and> clock s' = max (clock s) now
        \<and> used s' = used s
        \<and> (\<forall>k. armed_at s' k = (case armed_at s k of
             Some (t, v) \<Rightarrow> if t \<le> now then None else Some (t, v) | None \<Rightarrow> None))
        \<and> (\<forall>v. v \<in> set fired' \<longleftrightarrow> v \<in> set fired \<or> (\<exists>k t. armed_at s k = Some (t, Some v) \<and> t \<le> now))"
begin

lemma arm_keeps:
  assumes "inv s" and "used s < capacity"
  shows "inv (snd (arm t v s))" and "used (snd (arm t v s)) \<le> Suc (used s)"
    and "armed_at s k = Some e \<Longrightarrow> armed_at (snd (arm t v s)) k = Some e"
proof -
  consider "t \<le> clock s" | "clock s < t" by fastforce
  then have "inv (snd (arm t v s)) \<and> used (snd (arm t v s)) \<le> Suc (used s)
    \<and> (armed_at s k = Some e \<longrightarrow> armed_at (snd (arm t v s)) k = Some e)"
  proof cases
    case 1
    then show ?thesis using arm_late assms(1) by simp
  next
    case 2
    then show ?thesis using arm_early [OF assms 2, of v] by force
  qed
  then show "inv (snd (arm t v s))" "used (snd (arm t v s)) \<le> Suc (used s)"
    "armed_at s k = Some e \<Longrightarrow> armed_at (snd (arm t v s)) k = Some e" by auto
qed

text \<open>A timer left alone is still armed after any run, and the run ends.\<close>

lemma run_keeps:
  assumes "inv s" and "used s + length (filter is_arm ops) \<le> capacity"
    and "armed_at s k = Some (t, v)" and "list_all (leaves ok k t) ops"
  shows "\<exists>s' fired'. timer_run arm cancel expire ops s fired = Some (s', fired') \<and> inv s'
    \<and> armed_at s' k = Some (t, v) \<and> set fired \<subseteq> set fired'"
  using assms
proof (induction ops arbitrary: s fired)
  case (Cons op ops)
  show ?case
  proof (cases op)
    case (Arm t' v')
    then have "used s < capacity" using Cons.prems(2) by simp
    note keeps = arm_keeps [OF Cons.prems(1) this, where t = t' and v = v']
    show ?thesis
      using Cons.IH [of "snd (arm t' v' s)" fired] Cons.prems keeps(1,2) keeps(3) [OF Cons.prems(3)] Arm
      by simp
  next
    case (Cancel k')
    then show ?thesis
      using Cons.IH [of "snd (cancel k' s)" fired] Cons.prems cancel_law [OF Cons.prems(1), of k']
      by (auto simp: leaves_def)
  next
    case (Expire now)
    then have now: "ok now" "now < t" using Cons.prems(4) by (auto simp: leaves_def)
    obtain s' fired' where e: "expire now s fired = Some (s', fired')" "inv s'" "used s' = used s"
      and at: "\<And>k. armed_at s' k = (case armed_at s k of
             Some (t, v) \<Rightarrow> if t \<le> now then None else Some (t, v) | None \<Rightarrow> None)"
      and f: "\<And>v. v \<in> set fired \<Longrightarrow> v \<in> set fired'"
      using expire_law [OF Cons.prems(1) now(1), of fired] by blast
    have "armed_at s' k = Some (t, v)" using at [of k] Cons.prems(3) now(2) by simp
    then obtain s2 fired2 where "timer_run arm cancel expire ops s' fired' = Some (s2, fired2)" "inv s2"
      "armed_at s2 k = Some (t, v)" "set fired' \<subseteq> set fired2"
      using Cons.IH [of s' fired'] e(2,3) Cons.prems(2,4) Expire by auto
    then show ?thesis using e(1) f Expire by auto
  qed
qed simp

text \<open>Whatever happens to the others in between, the first clock reading at or past \<open>t\<close> fires the
  timer, and its key names nothing from then on.\<close>

lemma run_fires:
  assumes "inv s" and "used s + length (filter is_arm ops) \<le> capacity"
    and "armed_at s k = Some (t, Some v)" and "list_all (leaves ok k t) ops"
    and "ok now" and "t \<le> now"
  shows "\<exists>s' fired'. timer_run arm cancel expire (ops @ [Expire now]) s fired = Some (s', fired')
    \<and> v \<in> set fired' \<and> armed_at s' k = None"
proof -
  obtain s1 fired1 where r: "timer_run arm cancel expire ops s fired = Some (s1, fired1)" "inv s1"
    "armed_at s1 k = Some (t, Some v)"
    using run_keeps [OF assms(1-4), of fired] by blast
  obtain s2 fired2 where "expire now s1 fired1 = Some (s2, fired2)" "armed_at s2 k = None" "v \<in> set fired2"
    using expire_law [OF r(2) assms(5), of fired1] r(3) assms(6) by fastforce
  then show ?thesis by (simp add: timer_run_append r(1))
qed

text \<open>Nothing fires before its time and nothing that was cancelled fires: a waker a run fired was armed, before
  or in the run, under a key that the run did not cancel before a clock reading had reached its time.\<close>

lemma run_origin:
  assumes "inv s" and "used s + length (filter is_arm ops) \<le> capacity"
    and "\<And>now. Expire now \<in> set ops \<Longrightarrow> ok now"
    and "timer_run arm cancel expire ops s fired = Some (s', fired')" and "v \<in> set fired'"
  shows "v \<in> set fired \<or> (\<exists>k t. armed_at s k = Some (t, Some v) \<and> reaches k t ops)
    \<or> arms_due arm cancel expire v ops s fired"
  using assms
proof (induction ops arbitrary: s fired)
  case (Cons op ops)
  note later = arms_due_later [of arm cancel expire v ops _ _ op s fired] and past = reaches_Cons [of _ _ ops op]
  show ?case
  proof (cases op)
    case (Arm t1 v1)
    then have cap: "used s < capacity" using Cons.prems(2) by simp
    let ?s1 = "snd (arm t1 v1 s)"
    have "v \<in> set fired \<or> (\<exists>k t. armed_at ?s1 k = Some (t, Some v) \<and> reaches k t ops) \<or> arms_due arm cancel expire v ops ?s1 fired"
      using arm_keeps(1,2) [OF Cons.prems(1) cap, where t = t1 and v = v1] Cons.prems(2-5) Arm
      by (intro Cons.IH) auto
    moreover have "armed_at s k = Some (t, Some v) \<or> t = t1 \<and> v = v1 \<and> fst (arm t1 v1 s) = Inr k"
      if "armed_at ?s1 k = Some (t, Some v)" for k t
    proof (cases "clock s < t1")
      case True
      show ?thesis using arm_early [OF Cons.prems(1) cap True, of v1] that by (auto split: if_splits)
    qed (use that in \<open>auto simp: arm_late\<close>)
    ultimately show ?thesis using later [of ?s1 fired] arms_due_now [of arm t1 v s _ ops] past unfolding Arm by fastforce
  next
    case (Cancel k)
    let ?s1 = "snd (cancel k s)"
    have "v \<in> set fired \<or> (\<exists>k t. armed_at ?s1 k = Some (t, Some v) \<and> reaches k t ops) \<or> arms_due arm cancel expire v ops ?s1 fired"
      using cancel_law [OF Cons.prems(1), of k] Cons.prems(2-5) Cancel by (intro Cons.IH) auto
    moreover have "k' \<noteq> k \<and> armed_at s k' = Some e" if "armed_at ?s1 k' = Some e" for k' e
      using cancel_law [OF Cons.prems(1), of k] that by (simp split: if_splits)
    ultimately show ?thesis using later [of ?s1 fired] past unfolding Cancel by fastforce
  next
    case (Expire now)
    then have "ok now" using Cons.prems(3) [of now] by simp
    then obtain s1 fired1 where e: "expire now s fired = Some (s1, fired1)" "inv s1" "used s1 = used s"
      and at: "\<And>k. armed_at s1 k = (case armed_at s k of
             Some (t, v) \<Rightarrow> if t \<le> now then None else Some (t, v) | None \<Rightarrow> None)"
      and f: "\<And>v. v \<in> set fired1 \<Longrightarrow> v \<in> set fired \<or> (\<exists>k t. armed_at s k = Some (t, Some v) \<and> t \<le> now)"
      using expire_law [OF Cons.prems(1), of now fired] by blast
    have "v \<in> set fired1 \<or> (\<exists>k t. armed_at s1 k = Some (t, Some v) \<and> reaches k t ops) \<or> arms_due arm cancel expire v ops s1 fired1"
      using e Cons.prems(2-5) Expire by (intro Cons.IH) auto
    moreover have "armed_at s k = Some e" if "armed_at s1 k = Some e" for k e
      using at [of k] that by (auto split: option.splits if_splits)
    ultimately show ?thesis
      using later [of s1 fired1] e(1) f [of v] reaches_now [of _ now _ ops] past unfolding Expire by fastforce
  qed
qed simp

end

subsection \<open>The wheel is a timer store\<close>

definition wheel_ready :: "'w wheel \<Rightarrow> bool" where
  "wheel_ready w \<longleftrightarrow> wheel_inv w \<and> headroom (elapsed w)"

lemma headroom_max: "headroom a \<Longrightarrow> headroom b \<Longrightarrow> headroom (max a b)"
  by (simp add: max_def)

interpretation wheel: timer_store wheel_ready elapsed "\<lambda>w. length (entries w)" NIL headroom timers
  wheel_insert wheel_remove advance
proof
  fix s :: "'w wheel" and t v
  show "t \<le> elapsed s \<Longrightarrow> wheel_insert t v s = (Inl v, s)" by (simp add: wheel_insert_def)
next
  fix s :: "'w wheel" and t v
  assume "wheel_ready s" and len: "length (entries s) < NIL" and t: "elapsed s < t"
  then have inv: "wheel_inv s" "headroom (elapsed s)" by (auto simp: wheel_ready_def)
  show "\<exists>k s'. wheel_insert t v s = (Inr k, s') \<and> wheel_ready s' \<and> elapsed s' = elapsed s
      \<and> length (entries s') \<le> Suc (length (entries s)) \<and> timers s k = None
      \<and> timers s' = (timers s)(k \<mapsto> (t, Some v))"
    by (rule wheel_insert_arms [OF inv len t, of v]) (use inv in \<open>auto simp: wheel_ready_def\<close>)
next
  fix s :: "'w wheel" and k
  assume "wheel_ready s"
  then have inv: "wheel_inv s" "headroom (elapsed s)" by (auto simp: wheel_ready_def)
  show "wheel_ready (snd (wheel_remove k s)) \<and> elapsed (snd (wheel_remove k s)) = elapsed s
      \<and> length (entries (snd (wheel_remove k s))) = length (entries s)
      \<and> timers (snd (wheel_remove k s)) = (timers s)(k := None)
      \<and> fst (wheel_remove k s) = Option.bind (timers s k) snd"
  proof (cases "timers s k")
    case None
    then show ?thesis using inv by (simp add: wheel_remove_stale wheel_ready_def fun_upd_idem)
  next
    case (Some e)
    obtain t v where k: "timers s k = Some (t, v)" using Some by (cases e) auto
    show ?thesis by (rule wheel_remove_armed [OF inv(1) k]) (use inv k in \<open>auto simp: wheel_ready_def\<close>)
  qed
next
  fix s :: "'w wheel" and now and fired :: "'w list"
  assume "wheel_ready s" and now: "headroom now"
  then have inv: "wheel_inv s" "headroom (elapsed s)" by (auto simp: wheel_ready_def)
  show "\<exists>s' fired'. advance now s fired = Some (s', fired') \<and> wheel_ready s'
      \<and> elapsed s' = max (elapsed s) now \<and> length (entries s') = length (entries s)
      \<and> (\<forall>k. timers s' k = (case timers s k of
           Some (t, v) \<Rightarrow> if t \<le> now then None else Some (t, v) | None \<Rightarrow> None))
      \<and> (\<forall>v. v \<in> set fired' \<longleftrightarrow> v \<in> set fired \<or> (\<exists>k t. timers s k = Some (t, Some v) \<and> t \<le> now))"
  proof (rule advance_total [OF inv now, of fired])
    fix w' fired'
    assume a: "advance now s fired = Some (w', fired')" "wheel_inv w'" "elapsed w' = max (elapsed s) now"
      "advanced now s w'" "mset fired' = mset fired + due now s"
    have "v \<in> set fired' \<longleftrightarrow> v \<in> set fired \<or> v \<in># due now s" for v
      using a(5) by (metis set_mset_mset union_iff)
    then show ?thesis
      using a headroom_max [OF inv(2) now] by (simp add: wheel_ready_def advanced_def due_iff)
  qed
qed

subsection \<open>The wheels that operations reach\<close>

inductive wheel_reachable :: "'w wheel \<Rightarrow> bool" where
  start: "wheel_reachable (tagged t)"
| insert: "wheel_reachable w \<Longrightarrow> length (entries w) < NIL \<Longrightarrow> wheel_reachable (snd (wheel_insert t v w))"
| remove: "wheel_reachable w \<Longrightarrow> wheel_reachable (snd (wheel_remove key w))"
| replace: "wheel_reachable w \<Longrightarrow> wheel_reachable (snd (replace_waker key v w))"
| reset: "wheel_reachable w \<Longrightarrow> wheel_reachable (wheel_reset key t v w)"
| phantom: "wheel_reachable w \<Longrightarrow> wheel_reachable (set_phantom n w)"
| wakers: "wheel_reachable w \<Longrightarrow> wheel_reachable (snd (take_wakers w))"
| advance: "wheel_reachable w \<Longrightarrow> headroom now \<Longrightarrow> advance now w fired = Some (w', fired') \<Longrightarrow>
    wheel_reachable w'"

lemma headroom_0 [simp]: "headroom 0"
  by (simp add: headroom_def)

lemma tagged_simps [simp]: "elapsed (tagged t) = 0" "entries (tagged t) = []"
  by (simp_all add: tagged_def wheel_new_def)

lemma tagged_ready: "wheel_ready (tagged t)"
  by (simp add: wheel_ready_def wheel_inv_tagged)

lemma reset_ready: "wheel_ready w \<Longrightarrow> wheel_ready (wheel_reset key t v w)"
proof (cases "timers w key")
  case (Some e)
  assume ready: "wheel_ready w"
  obtain t' v' where k: "timers w key = Some (t', v')" using Some by (cases e) auto
  have inv: "wheel_inv w" "headroom (elapsed w)" using ready by (auto simp: wheel_ready_def)
  show ?thesis
  proof (cases "t \<le> elapsed w")
    case True
    then show ?thesis
      using wheel_reset_past [OF k True] wheel.cancel_law [OF ready] by simp
  next
    case False
    then show ?thesis
      using wheel_reset_moves(1) [OF inv k, of t v] inv
      by (auto simp: wheel_ready_def wheel_reset_def Let_def split: option.split)
  qed
qed (simp add: wheel_reset_stale)

lemma replace_ready: "wheel_ready w \<Longrightarrow> wheel_ready (snd (replace_waker key v w))"
proof (cases "timers w key")
  case (Some e)
  assume ready: "wheel_ready w"
  obtain t' v' where k: "timers w key = Some (t', v')" using Some by (cases e) auto
  then show ?thesis
    using replace_waker_armed(2) [of w key t' v' v] ready
    by (auto simp: wheel_ready_def replace_waker_def split: option.split)
qed (simp add: replace_waker_stale)

lemma advance_ready:
  "wheel_ready w \<Longrightarrow> headroom now \<Longrightarrow> advance now w fired = Some (w', fired') \<Longrightarrow> wheel_ready w'"
  using wheel.expire_law [of w now fired] by auto

lemma reachable_ready: "wheel_reachable w \<Longrightarrow> wheel_ready w"
proof (induction rule: wheel_reachable.induct)
  case (start t)
  show ?case by (rule tagged_ready)
next
  case (insert w t v)
  then show ?case by (intro wheel.arm_keeps(1)) auto
next
  case (remove w key)
  then show ?case using wheel.cancel_law by blast
next
  case (replace w key v)
  then show ?case by (intro replace_ready)
next
  case (reset w key t v)
  then show ?case by (intro reset_ready)
next
  case (phantom w n)
  then show ?case using set_phantom_inv(1) by (auto simp: wheel_ready_def set_phantom_def)
next
  case (wakers w)
  then show ?case using take_wakers_inv by (auto simp: wheel_ready_def take_wakers_def)
next
  case (advance w now fired w' fired')
  then show ?case using advance_ready by blast
qed

subsection \<open>Properties of the wheel\<close>

text \<open>A wheel with one timer, armed for tick 70 by a wheel at tick 0: the instance of the witnesses.\<close>

definition demo_wheel :: "nat wheel" where
  "demo_wheel = snd (wheel_insert 70 5 (tagged 0))"

definition demo_key :: timer_key where
  "demo_key = \<lparr>key_index = 0, key_generation = 0\<rparr>"

lemma demo_level: "level_for 0 70 = 1" "slot_for 70 (Suc 0) = 1"
  by code_simp+

lemma demo_entries:
  "entries demo_wheel = [\<lparr>ewhen = 70, ewaker = Some 5, eprev = NIL, enext = NIL, egeneration = 0,
     eplace = Armed 1 1\<rparr>]"
  by (simp add: demo_wheel_def wheel_insert_def alloc_def tagged_def wheel_new_def grow_def Let_def
      link_def demo_level SPAN_def SLOT_BITS_def LEVELS_def SLOTS_def level_new_def min_def)

lemma demo_reachable: "wheel_reachable demo_wheel"
  unfolding demo_wheel_def
  by (intro wheel_reachable.intros) (simp add: NIL_def usize_max_def)

lemma demo_ready: "wheel_ready demo_wheel"
  by (rule reachable_ready [OF demo_reachable])

lemma demo_inv: "wheel_inv demo_wheel" and demo_headroom: "headroom (elapsed demo_wheel)"
  using demo_ready by (auto simp: wheel_ready_def)

lemma demo_timers: "timers demo_wheel demo_key = Some (70, Some 5)"
  by (simp add: timers_Some_iff demo_entries demo_key_def)

lemma demo_clock: "elapsed demo_wheel = 0"
  by (simp add: demo_wheel_def wheel_insert_def alloc_def tagged_def wheel_new_def grow_def Let_def)

lemma demo_small: "headroom 100" "headroom 50"
  by (simp_all add: headroom_def)

text \<open>
  C1: Advancing a well-formed wheel to a clock reading always ends.  It fires exactly the wakers of the
  armed timers due at that reading, each once, drops those timers and no other, keeps every
  later timer as it was, and leaves the wheel well formed with its clock at the reading.
\<close>

theorem advance_fires_due:
  assumes "wheel_inv w" and "headroom (elapsed w)" and "headroom now"
  shows "\<exists>w' fired'. advance now w fired = Some (w', fired') \<and> wheel_inv w'
    \<and> elapsed w' = max (elapsed w) now \<and> mset fired' = mset fired + due now w
    \<and> (\<forall>k. timers w' k = (case timers w k of
          Some (t, v) \<Rightarrow> if t \<le> now then None else Some (t, v) | None \<Rightarrow> None))"
proof -
  obtain w' fired' where "advance now w fired = Some (w', fired')" "wheel_inv w'"
    "elapsed w' = max (elapsed w) now" "advanced now w w'" "mset fired' = mset fired + due now w"
    by (rule advance_total [OF assms, of fired])
  then show ?thesis by (auto simp: advanced_def)
qed

theorem advance_fires_due_witness:
  "wheel_inv demo_wheel \<and> headroom (elapsed demo_wheel) \<and> headroom 100
   \<and> (\<exists>w' fired'. advance 100 demo_wheel [] = Some (w', fired') \<and> mset fired' = {#5#}
        \<and> timers w' demo_key = None)"
proof -
  have "due 100 demo_wheel = {#5#}"
    by (simp add: due_def demo_entries due_waker_def map_filter_simps)
  then show ?thesis
    using advance_fires_due [OF demo_inv demo_headroom demo_small(1), of "[]"] demo_inv demo_headroom
      demo_small(1) demo_timers
    by fastforce
qed

text \<open>
  C14: A timer that is armed in the wheel, that no operation of a run cancels and that no clock reading
  of the run reaches, is fired by the first advance to a reading at or past its deadline, whatever
  timers the run arms, cancels and fires in between; its key names no timer afterwards.
\<close>

theorem armed_timer_fires:
  assumes "wheel_ready w" and "length (entries w) + length (filter is_arm ops) \<le> NIL"
    and "timers w k = Some (t, Some v)" and "list_all (leaves headroom k t) ops"
    and "headroom now" and "t \<le> now"
  shows "\<exists>w' fired'. timer_run wheel_insert wheel_remove advance (ops @ [Expire now]) w fired = Some (w', fired')
    \<and> v \<in> set fired' \<and> timers w' k = None"
  by (rule wheel.run_fires [OF assms])

theorem armed_timer_fires_witness:
  "wheel_ready demo_wheel \<and> timers demo_wheel demo_key = Some (70, Some 5)
   \<and> (\<exists>w' fired'. timer_run wheel_insert wheel_remove advance ([Arm 60 6, Expire 50] @ [Expire 100]) demo_wheel []
        = Some (w', fired') \<and> 5 \<in> set fired' \<and> timers w' demo_key = None)"
proof -
  have "length (entries demo_wheel) + length (filter is_arm [Arm 60 (6 :: nat), Expire 50 :: (timer_key, nat) timer_op]) \<le> NIL"
    by (simp add: demo_entries NIL_def usize_max_def)
  moreover have "list_all (leaves headroom demo_key 70) [Arm 60 (6 :: nat), Expire 50]"
    by (simp add: leaves_def demo_small)
  ultimately show ?thesis
    using armed_timer_fires [OF demo_ready _ demo_timers _ demo_small(1), of "[Arm 60 6, Expire 50]" "[]"]
      demo_ready demo_timers by fastforce
qed

text \<open>
  C15: Nothing fires before its time, and nothing that was cancelled fires.  Every waker that a run of arms,
  cancels and advances fires was armed, before the run or in it, and a clock reading later in the run reached its
  deadline with no cancel of its key in between.
\<close>

theorem fired_was_due:
  assumes "wheel_ready w" and "length (entries w) + length (filter is_arm ops) \<le> NIL"
    and "\<And>now. Expire now \<in> set ops \<Longrightarrow> headroom now"
    and "timer_run wheel_insert wheel_remove advance ops w fired = Some (w', fired')" and "v \<in> set fired'"
  shows "v \<in> set fired \<or> (\<exists>k t. timers w k = Some (t, Some v) \<and> reaches k t ops)
    \<or> arms_due wheel_insert wheel_remove advance v ops w fired"
  by (rule wheel.run_origin [OF assms])

theorem fired_was_due_witness:
  "\<exists>w' fired'. timer_run wheel_insert wheel_remove advance [Cancel demo_key, Expire 100] demo_wheel [] = Some (w', fired')
     \<and> 5 \<notin> set fired'"
proof -
  let ?ops = "[Cancel demo_key, Expire 100] :: (timer_key, nat) timer_op list"
  have len: "length (entries demo_wheel) + length (filter is_arm ?ops) \<le> NIL"
    by (simp add: demo_entries NIL_def usize_max_def)
  have "wheel_ready (snd (wheel_remove demo_key demo_wheel))" using wheel.cancel_law [OF demo_ready] by blast
  then obtain w' fired' where r: "timer_run wheel_insert wheel_remove advance ?ops demo_wheel [] = Some (w', fired')"
    using wheel.expire_law [OF _ demo_small(1), of _ "[]"] by fastforce
  have "k = demo_key" if "timers demo_wheel k = Some (t, Some 5)" for t k
    using that unfolding timers_Some_iff demo_entries by (auto simp: demo_key_def timer_key.equality)
  moreover have "\<not> reaches demo_key t ?ops" for t
    by (auto simp: reaches_def Cons_eq_append_conv)
  ultimately have "5 \<notin> set fired'"
    using fired_was_due [OF demo_ready len _ r, of 5] demo_small(1) by (auto simp: arms_due_def Cons_eq_append_conv)
  then show ?thesis using r by blast
qed

text \<open>
  C7: Every wheel that the operations reach from a new one, in any order, is well formed: the slot
  lists and the free list partition the slab, an occupied bit is set exactly where a list is not
  empty, each timer hangs in a slot whose tick comes no later than its deadline, and the count of armed
  timers is the number of live keys plus the phantom ones.
\<close>

theorem reachable_wheel_ok:
  assumes "wheel_reachable w"
  shows "wheel_inv w \<and> finite (dom (timers w)) \<and> armed w = phantom w + card (dom (timers w))
    \<and> (\<forall>k t v. timers w k = Some (t, v) \<longrightarrow> elapsed w < t)"
proof -
  have inv: "wheel_inv w" using reachable_ready [OF assms] by (simp add: wheel_ready_def)
  then show ?thesis using armed_count [OF inv] timers_after_elapsed [OF inv] by blast
qed

theorem reachable_wheel_ok_witness:
  "wheel_reachable demo_wheel \<and> wheel_inv demo_wheel
   \<and> armed demo_wheel = phantom demo_wheel + card (dom (timers demo_wheel))"
  using reachable_wheel_ok [OF demo_reachable] demo_reachable by blast

text \<open>
  C29: Arming a timer at or before the wheel's clock hands the waker back and changes nothing.  Arming
  it later gives a key that named no timer, which now names exactly this deadline and waker; every
  other key names what it did, one more timer is counted, and the wheel stays well formed.
\<close>

theorem insert_arms_or_refuses:
  assumes "wheel_inv w" and "headroom (elapsed w)" and "length (entries w) < NIL"
  shows "case wheel_insert t v w of
      (Inl v', w') \<Rightarrow> t \<le> elapsed w \<and> v' = v \<and> w' = w
    | (Inr key, w') \<Rightarrow> elapsed w < t \<and> wheel_inv w' \<and> elapsed w' = elapsed w \<and> armed w' = Suc (armed w)
        \<and> timers w key = None \<and> timers w' = (timers w)(key \<mapsto> (t, Some v)) \<and> \<not> is_fired key w'"
proof (cases "t \<le> elapsed w")
  case True
  then show ?thesis by (simp add: wheel_insert_def)
next
  case False
  then have late: "elapsed w < t" by simp
  show ?thesis
    by (rule wheel_insert_arms [OF assms late, of v]) (use late in \<open>simp add: is_fired_iff\<close>)
qed

theorem insert_arms_or_refuses_witness:
  "length (entries demo_wheel) < NIL \<and> (\<exists>key w'. wheel_insert 90 7 demo_wheel = (Inr key, w')
     \<and> timers w' key = Some (90, Some 7) \<and> timers w' demo_key = Some (70, Some 5))"
proof -
  have len: "length (entries demo_wheel) < NIL" by (simp add: demo_entries NIL_def usize_max_def)
  have "elapsed demo_wheel < 90" using demo_clock by simp
  then show ?thesis
    using insert_arms_or_refuses [OF demo_inv demo_headroom len, of 90 7] len demo_timers
    by (auto split: prod.splits sum.splits)
qed

text \<open>
  C30: Removing an armed timer hands back its waker, and its key names nothing afterwards while every
  other key names what it did; removing a key that names no timer changes nothing.  The wheel stays
  well formed.
\<close>

theorem remove_disarms:
  assumes "wheel_ready w"
  shows "wheel_ready (snd (wheel_remove key w))
    \<and> timers (snd (wheel_remove key w)) = (timers w)(key := None)
    \<and> is_fired key (snd (wheel_remove key w))
    \<and> fst (wheel_remove key w) = Option.bind (timers w key) snd
    \<and> (timers w key = None \<longrightarrow> snd (wheel_remove key w) = w)"
proof -
  note law = wheel.cancel_law [OF assms, of key]
  have "is_fired key (snd (wheel_remove key w))" unfolding is_fired_iff using law by simp
  then show ?thesis using law wheel_remove_stale [of w key] by simp
qed

theorem remove_disarms_witness:
  "fst (wheel_remove demo_key demo_wheel) = Some 5 \<and> is_fired demo_key (snd (wheel_remove demo_key demo_wheel))
   \<and> timers (snd (wheel_remove demo_key demo_wheel)) demo_key = None"
  using remove_disarms [OF demo_ready, of demo_key] demo_timers by simp

text \<open>
  C31: Moving an armed timer to a deadline past the wheel's clock makes its key name that deadline and
  waker and leaves every other key alone; moving it to a deadline already reached removes it.  A key
  that names no timer is left as it is, and the wheel stays well formed.
\<close>

theorem reset_moves:
  assumes "wheel_ready w"
  shows "wheel_ready (wheel_reset key t v w)
    \<and> timers (wheel_reset key t v w) =
        (if timers w key = None then timers w
         else if t \<le> elapsed w then (timers w)(key := None)
         else (timers w)(key \<mapsto> (t, Some v)))"
proof (cases "timers w key")
  case None
  then show ?thesis using assms by (simp add: wheel_reset_stale)
next
  case (Some e)
  obtain t' v' where k: "timers w key = Some (t', v')" using Some by (cases e) auto
  have inv: "wheel_inv w" "headroom (elapsed w)" using assms by (auto simp: wheel_ready_def)
  show ?thesis
  proof (cases "t \<le> elapsed w")
    case True
    then show ?thesis
      using k wheel_reset_past [OF k True] wheel.cancel_law [OF assms, of key] by simp
  next
    case False
    then show ?thesis
      using k wheel_reset_moves(2) [OF inv k, of t v] reset_ready [OF assms] by simp
  qed
qed

theorem reset_moves_witness:
  "wheel_ready demo_wheel \<and> timers (wheel_reset demo_key 90 6 demo_wheel) demo_key = Some (90, Some 6)"
proof -
  have "\<not> 90 \<le> elapsed demo_wheel"
    using demo_clock by simp
  then show ?thesis
    using reset_moves [OF demo_ready, of demo_key 90 6] demo_ready demo_timers by simp
qed

text \<open>
  C32: The wheel reports no next deadline exactly when no timer is armed; otherwise the tick it reports
  is after its clock and no later than any armed deadline, so a thread that sleeps until then misses
  no timer and the wait is never empty.
\<close>

theorem next_deadline_bounds:
  assumes "wheel_ready w"
  shows "case next_deadline w of
      None \<Rightarrow> dom (timers w) = {}
    | Some d \<Rightarrow> dom (timers w) \<noteq> {} \<and> elapsed w < d \<and> (\<forall>k t v. timers w k = Some (t, v) \<longrightarrow> d \<le> t)"
proof -
  have inv: "wheel_inv w" "headroom (elapsed w)" using assms by (auto simp: wheel_ready_def)
  show ?thesis
    using next_deadline_None [OF inv] next_deadline_Some [OF inv] by (auto split: option.split)
qed

theorem next_deadline_bounds_witness:
  "wheel_ready demo_wheel \<and> (\<exists>d. next_deadline demo_wheel = Some d \<and> d \<le> 70)"
  using next_deadline_bounds [OF demo_ready] demo_ready demo_timers by (auto split: option.splits)

text \<open>
  C33: The level that the bit trick of \<^const>\<open>level_for\<close> computes from the highest bit in which the
  clock and the deadline differ is the one found by comparing their windows level by level.
\<close>

theorem level_for_is_by_windows: "level_for now t = level_by_windows now t"
  by (rule level_for_by_windows)

end
