(* ===== verification/Coop.thy ===== *)
theory Coop
  imports Prelude
begin

text \<open>
  Cooperative scheduling, \<open>src/src/coop.rs\<close>: the per-thread budget that a poll spends its
  completed operations from.  The thread's context (\<open>rt/context.rs\<close>, struct \<open>Here\<close>) is a record
  of the fields the budget touches; \<open>world\<close> is whatever else code of the user can see.  A call of
  a waker is code of the user: it is the parameter \<open>u\<close> of every operation that makes one, a
  function from the call and the state to the state it leaves.  Later theories extend the record.
\<close>

subsection \<open>The context, wakers and polls\<close>

datatype 'w ucall = Clone 'w | Wake 'w | Wake_by_ref 'w | Drop 'w

datatype 'a poll = Pending | Ready 'a

record 'e ctx =
  budget :: u64
  cur_task :: "nat option"
  on_shard :: bool
  budget_yields :: u64
  world :: 'e

text \<open>Dropping an optional waker calls code of the user only when there is one.\<close>

definition drop_waker :: "('w ucall \<Rightarrow> 's \<Rightarrow> 's) \<Rightarrow> 'w option \<Rightarrow> 's \<Rightarrow> 's" where
  "drop_waker u w s = (case w of None \<Rightarrow> s | Some w \<Rightarrow> u (Drop w) s)"

definition wake_waker :: "('w ucall \<Rightarrow> 's \<Rightarrow> 's) \<Rightarrow> 'w option \<Rightarrow> 's \<Rightarrow> 's" where
  "wake_waker u w s = (case w of None \<Rightarrow> s | Some w \<Rightarrow> u (Wake w) s)"

subsection \<open>Hearing wakes\<close>

text \<open>A property of wakes is stated over user code that keeps a record of the wakes it was called for: \<open>log\<close> reads it
  from the world.  The code may do more, and record more, but it rewrites nothing.\<close>

definition called :: "'w ucall \<Rightarrow> 'w list" where
  "called c = (case c of Wake w \<Rightarrow> [w] | Wake_by_ref w \<Rightarrow> [w] | _ \<Rightarrow> [])"

definition hears :: "('e \<Rightarrow> 'w list) \<Rightarrow> ('w ucall \<Rightarrow> ('e, 'x) ctx_scheme \<Rightarrow> ('e, 'x) ctx_scheme) \<Rightarrow> bool" where
  "hears log u \<longleftrightarrow> (\<forall>c s. \<exists>more. log (world (u c s)) = log (world s) @ called c @ more)"

definition grows :: "('e \<Rightarrow> 'w list) \<Rightarrow> ('e, 'x) ctx_scheme \<Rightarrow> ('e, 'x) ctx_scheme \<Rightarrow> bool" where
  "grows log s s' \<longleftrightarrow> (\<exists>more. log (world s') = log (world s) @ more)"

text \<open>The waker \<open>w\<close> has been called between \<open>s\<close> and \<open>s'\<close>.\<close>

definition told :: "('e \<Rightarrow> 'w list) \<Rightarrow> 'w \<Rightarrow> ('e, 'x) ctx_scheme \<Rightarrow> ('e, 'x) ctx_scheme \<Rightarrow> bool" where
  "told log w s s' \<longleftrightarrow> w \<in> set (drop (length (log (world s))) (log (world s')))"

lemma grows_refl: "world s' = world s \<Longrightarrow> grows log s s'"
  by (simp add: grows_def)

lemma grows_trans: "grows log s s1 \<Longrightarrow> grows log s1 s2 \<Longrightarrow> grows log s s2"
  by (auto simp: grows_def)

lemma told_after: "grows log s s1 \<Longrightarrow> told log w s1 s2 \<Longrightarrow> told log w s s2"
proof -
  assume "grows log s s1" and t: "told log w s1 s2"
  then have "length (log (world s)) \<le> length (log (world s1))" by (auto simp: grows_def)
  then show ?thesis using t unfolding told_def by (rule subsetD [OF set_drop_subset_set_drop])
qed

lemma told_before: "told log w s s1 \<Longrightarrow> grows log s1 s2 \<Longrightarrow> told log w s s2"
  by (auto simp: grows_def told_def)

lemma told_world: "world s' = world s \<Longrightarrow> told log w s t = told log w s' t" "world t' = world t \<Longrightarrow> told log w s t = told log w s t'"
  by (simp_all add: told_def)

lemma hears_grows: "hears log u \<Longrightarrow> grows log s (u c s)"
  by (fastforce simp: hears_def grows_def)

lemma hears_told: "hears log u \<Longrightarrow> w \<in> set (called c) \<Longrightarrow> told log w s (u c s)"
proof -
  assume "hears log u" and w: "w \<in> set (called c)"
  then obtain more where "log (world (u c s)) = log (world s) @ called c @ more" unfolding hears_def by blast
  then show ?thesis using w by (simp add: told_def)
qed

lemma called_simps [simp]: "called (Wake w) = [w]" "called (Wake_by_ref w) = [w]" "called (Clone w) = []" "called (Drop w) = []"
  by (simp_all add: called_def)

lemma wake_grows: "hears log u \<Longrightarrow> grows log s (wake_waker u w s)"
  by (auto simp: wake_waker_def hears_grows grows_refl split: option.split)

lemma drop_grows: "hears log u \<Longrightarrow> grows log s (drop_waker u w s)"
  by (auto simp: drop_waker_def hears_grows grows_refl split: option.split)

lemma wake_told: "hears log u \<Longrightarrow> told log w s (wake_waker u (Some w) s)"
  by (simp add: wake_waker_def hears_told)

subsection \<open>The budget\<close>

definition BUDGET :: u64 where
  "BUDGET = 128"

definition UNBUDGETED :: u64 where
  "UNBUDGETED = - 1"

record entered =
  e_left :: u64
  e_task :: "nat option"

definition enter_task :: "nat \<Rightarrow> ('e, 'x) ctx_scheme \<Rightarrow> entered \<times> ('e, 'x) ctx_scheme" where
  "enter_task i s = (\<lparr>e_left = budget s, e_task = cur_task s\<rparr>, s\<lparr>budget := BUDGET, cur_task := Some i\<rparr>)"

definition leave_task :: "entered \<Rightarrow> ('e, 'x) ctx_scheme \<Rightarrow> ('e, 'x) ctx_scheme" where
  "leave_task e s = s\<lparr>budget := e_left e, cur_task := e_task e\<rparr>"

definition current_task :: "('e, 'x) ctx_scheme \<Rightarrow> nat option" where
  "current_task s = cur_task s"

definition enter :: "('e, 'x) ctx_scheme \<Rightarrow> u64 \<times> ('e, 'x) ctx_scheme" where
  "enter s = (budget s, s\<lparr>budget := BUDGET\<rparr>)"

definition leave :: "u64 \<Rightarrow> ('e, 'x) ctx_scheme \<Rightarrow> ('e, 'x) ctx_scheme" where
  "leave previous s = s\<lparr>budget := previous\<rparr>"

definition outside :: "(('e, 'x) ctx_scheme \<Rightarrow> 'a \<times> ('e, 'x) ctx_scheme)
    \<Rightarrow> ('e, 'x) ctx_scheme \<Rightarrow> 'a \<times> ('e, 'x) ctx_scheme" where
  "outside f s =
     (let saved = budget s; (result, s') = f (s\<lparr>budget := UNBUDGETED\<rparr>)
      in (result, s'\<lparr>budget := saved\<rparr>))"

definition was_spent :: "('e, 'x) ctx_scheme \<Rightarrow> ('e, 'x) ctx_scheme" where
  "was_spent s = s\<lparr>budget := 0\<rparr>"

definition try_spend :: "('e, 'x) ctx_scheme \<Rightarrow> bool \<times> ('e, 'x) ctx_scheme" where
  "try_spend s =
     (let rest = budget s - 1; spent = (budget s = 0); s1 = s\<lparr>budget := rest\<rparr>
      in (\<not> spent, if spent then was_spent s1 else s1))"

definition budget_yield :: "('e, 'x) ctx_scheme \<Rightarrow> ('e, 'x) ctx_scheme" where
  "budget_yield s = (if on_shard s then s\<lparr>budget_yields := budget_yields s + 1\<rparr> else s)"

definition refused :: "('w ucall \<Rightarrow> ('e, 'x) ctx_scheme \<Rightarrow> ('e, 'x) ctx_scheme) \<Rightarrow> 'w
    \<Rightarrow> ('e, 'x) ctx_scheme \<Rightarrow> bool \<times> ('e, 'x) ctx_scheme" where
  "refused u waker s = (False, u (Wake_by_ref waker) (budget_yield s))"

definition spend :: "('w ucall \<Rightarrow> ('e, 'x) ctx_scheme \<Rightarrow> ('e, 'x) ctx_scheme) \<Rightarrow> 'w
    \<Rightarrow> ('e, 'x) ctx_scheme \<Rightarrow> bool \<times> ('e, 'x) ctx_scheme" where
  "spend u waker s =
     (case try_spend s of (True, s1) \<Rightarrow> (True, s1) | (False, s1) \<Rightarrow> refused u waker s1)"

definition exhausted :: "('w ucall \<Rightarrow> ('e, 'x) ctx_scheme \<Rightarrow> ('e, 'x) ctx_scheme) \<Rightarrow> 'w
    \<Rightarrow> ('e, 'x) ctx_scheme \<Rightarrow> bool \<times> ('e, 'x) ctx_scheme" where
  "exhausted u waker s =
     (if budget s = 0 then (case refused u waker s of (r, s1) \<Rightarrow> (\<not> r, s1)) else (False, s))"

definition spent_one :: "('e, 'x) ctx_scheme \<Rightarrow> ('e, 'x) ctx_scheme" where
  "spent_one s = s\<lparr>budget := budget s - 1\<rparr>"

definition refund :: "('e, 'x) ctx_scheme \<Rightarrow> ('e, 'x) ctx_scheme" where
  "refund s = s\<lparr>budget := (if budget s = - 1 then - 1 else budget s + 1)\<rparr>"

definition poll_budget :: "('w ucall \<Rightarrow> ('e, 'x) ctx_scheme \<Rightarrow> ('e, 'x) ctx_scheme) \<Rightarrow> 'w
    \<Rightarrow> (('e, 'x) ctx_scheme \<Rightarrow> 'a poll \<times> ('e, 'x) ctx_scheme)
    \<Rightarrow> ('e, 'x) ctx_scheme \<Rightarrow> 'a poll \<times> ('e, 'x) ctx_scheme" where
  "poll_budget u waker poll s =
     (case try_spend s of
        (False, s1) \<Rightarrow> (case refused u waker s1 of (_, s2) \<Rightarrow> (Pending, s2))
      | (True, s1) \<Rightarrow>
          (case poll s1 of
             (Pending, s2) \<Rightarrow> (Pending, refund s2)
           | (Ready x, s2) \<Rightarrow> (Ready x, s2)))"

definition has_budget_remaining :: "('e, 'x) ctx_scheme \<Rightarrow> bool" where
  "has_budget_remaining s \<longleftrightarrow> budget s \<noteq> 0"

definition consume_budget_poll :: "('w ucall \<Rightarrow> ('e, 'x) ctx_scheme \<Rightarrow> ('e, 'x) ctx_scheme) \<Rightarrow> 'w
    \<Rightarrow> ('e, 'x) ctx_scheme \<Rightarrow> unit poll \<times> ('e, 'x) ctx_scheme" where
  "consume_budget_poll u waker = poll_budget u waker (\<lambda>s. (Ready (), s))"

definition unconstrained_poll :: "(('e, 'x) ctx_scheme \<Rightarrow> 'a poll \<times> ('e, 'x) ctx_scheme)
    \<Rightarrow> ('e, 'x) ctx_scheme \<Rightarrow> 'a poll \<times> ('e, 'x) ctx_scheme" where
  "unconstrained_poll future = outside future"

definition cooperative_poll :: "('w ucall \<Rightarrow> ('e, 'x) ctx_scheme \<Rightarrow> ('e, 'x) ctx_scheme) \<Rightarrow> 'w
    \<Rightarrow> (('e, 'x) ctx_scheme \<Rightarrow> 'a poll \<times> ('e, 'x) ctx_scheme)
    \<Rightarrow> ('e, 'x) ctx_scheme \<Rightarrow> 'a poll \<times> ('e, 'x) ctx_scheme" where
  "cooperative_poll u waker future = poll_budget u waker future"

text \<open>The future that is pending once and wakes its own task (\<open>YieldNow\<close> of \<open>task.rs\<close>).\<close>

definition yield_now_poll :: "('w ucall \<Rightarrow> 's \<Rightarrow> 's) \<Rightarrow> 'w \<Rightarrow> bool \<Rightarrow> 's \<Rightarrow> unit poll \<times> bool \<times> 's" where
  "yield_now_poll u waker yielded s =
     (if yielded then (Ready (), yielded, s) else (Pending, True, u (Wake_by_ref waker) s))"

subsection \<open>What a budget allows\<close>

lemma try_spend_cases:
  "try_spend s = (if budget s = 0 then (False, s) else (True, s\<lparr>budget := budget s - 1\<rparr>))"
  by (simp add: try_spend_def was_spent_def Let_def)

text \<open>Spending \<open>n\<close> times in a row: how many of the operations may complete.\<close>

fun spend_many :: "nat \<Rightarrow> ('e, 'x) ctx_scheme \<Rightarrow> nat \<times> ('e, 'x) ctx_scheme" where
  "spend_many 0 s = (0, s)"
| "spend_many (Suc n) s =
     (let (ok, s1) = try_spend s; (k, s2) = spend_many n s1 in ((if ok then Suc k else k), s2))"

lemma unat_pred: "(x :: u64) \<noteq> 0 \<Longrightarrow> unat (x - 1) = unat x - 1"
  by (simp add: unat_minus_one)

lemma spend_many_min:
  "fst (spend_many n s) = min n (unat (budget s)) \<and>
   unat (budget (snd (spend_many n s))) = unat (budget s) - n"
proof (induction n arbitrary: s)
  case (Suc n)
  show ?case
  proof (cases "budget s = 0")
    case True
    then have "try_spend s = (False, s)" by (simp add: try_spend_cases)
    then show ?thesis using Suc.IH [of s] True by (simp add: Let_def split: prod.split)
  next
    case False
    then have t: "try_spend s = (True, s\<lparr>budget := budget s - 1\<rparr>)" by (simp add: try_spend_cases)
    have "0 < unat (budget s)" using False by (simp add: unat_gt_0)
    then show ?thesis
      using Suc.IH [of "s\<lparr>budget := budget s - 1\<rparr>"] t unat_pred [OF False]
      by (auto simp: Let_def split: prod.splits)
  qed
qed simp

text \<open>
  C34: A poll of a task starts with a budget of 128 operations: however many operations try to
  complete in it, exactly the first 128 may, and leaving the poll puts back the budget and the
  current task that were there before it.
\<close>

theorem task_poll_completes_budget:
  "(let (before, s1) = enter_task i s; (k, s2) = spend_many n s1; s3 = leave_task before s2
    in k = min n 128 \<and> cur_task s1 = Some i \<and> budget s3 = budget s \<and> cur_task s3 = cur_task s)"
  using spend_many_min [of n "s\<lparr>budget := BUDGET, cur_task := Some i\<rparr>"]
  by (auto simp: enter_task_def leave_task_def Let_def BUDGET_def split: prod.split)

end
