(* ===== verification/Waiters.thy ===== *)
theory Waiters
  imports Coop
begin

text \<open>
  The FIFO of waiters that the single-shard primitives share, \<open>src/src/sync/local/waiters.rs\<close>: a
  slab of entries linked into one list by index, with a free list.  The steps on the slab are
  plain functions; the two operations that run code of the user, \<open>refresh\<close> and \<open>wake_closed\<close>,
  take the state of the primitive that owns the list with the functions that read and replace the
  slab in it.  The unwinding guard \<open>CloseRest\<close> is not modelled: a waker that panics is outside the
  model.
\<close>

record wkey =
  wk_index :: nat
  wk_generation :: u32

datatype wstate = Waiting | Granted | Closed | Free

record 'w wentry =
  w_waker :: "'w option"
  w_need :: nat
  w_state :: wstate
  w_prev :: nat
  w_next :: nat
  w_generation :: u32

record 'w slab =
  s_entries :: "'w wentry list"
  s_free :: nat
  s_head :: nat
  s_tail :: nat

subsection \<open>Steps on the slab\<close>

definition slab_new :: "'w slab" where
  "slab_new = \<lparr>s_entries = [], s_free = NIL, s_head = NIL, s_tail = NIL\<rparr>"

abbreviation upd_wentry :: "nat \<Rightarrow> ('w wentry \<Rightarrow> 'w wentry) \<Rightarrow> 'w slab \<Rightarrow> 'w slab" where
  "upd_wentry i f s \<equiv> s\<lparr>s_entries := (s_entries s)[i := f (s_entries s ! i)]\<rparr>"

definition slab_live :: "wkey \<Rightarrow> 'w slab \<Rightarrow> 'w wentry option" where
  "slab_live key s =
     (if wk_index key < length (s_entries s) then
        (let e = s_entries s ! wk_index key
         in if w_generation e = wk_generation key \<and> w_state e \<noteq> Free then Some e else None)
      else None)"

definition slab_push :: "nat \<Rightarrow> 'w \<Rightarrow> 'w slab \<Rightarrow> wkey \<times> 'w slab" where
  "slab_push need waker s =
     (let tail = s_tail s;
          entry = \<lparr>w_waker = Some waker, w_need = need, w_state = Waiting, w_prev = tail,
                   w_next = NIL, w_generation = 0\<rparr>;
          (index, s1) =
            (if s_free s = NIL then (length (s_entries s), s\<lparr>s_entries := s_entries s @ [entry]\<rparr>)
             else
               (let index = s_free s; slot = s_entries s ! index
                in (index, s\<lparr>s_free := w_next slot,
                     s_entries := (s_entries s)[index := entry\<lparr>w_generation := w_generation slot\<rparr>]\<rparr>)));
          s2 = (if tail = NIL then s1\<lparr>s_head := index\<rparr> else upd_wentry tail (\<lambda>e. e\<lparr>w_next := index\<rparr>) s1);
          s3 = s2\<lparr>s_tail := index\<rparr>
      in (\<lparr>wk_index = index, wk_generation = w_generation (s_entries s3 ! index)\<rparr>, s3))"

definition slab_unlink :: "nat \<Rightarrow> 'w slab \<Rightarrow> 'w slab" where
  "slab_unlink index s =
     (let prev = w_prev (s_entries s ! index); nxt = w_next (s_entries s ! index);
          s1 = (if prev = NIL then s\<lparr>s_head := nxt\<rparr> else upd_wentry prev (\<lambda>e. e\<lparr>w_next := nxt\<rparr>) s)
      in if nxt = NIL then s1\<lparr>s_tail := prev\<rparr> else upd_wentry nxt (\<lambda>e. e\<lparr>w_prev := prev\<rparr>) s1)"

definition slab_free_entry :: "nat \<Rightarrow> 'w slab \<Rightarrow> 'w slab" where
  "slab_free_entry index s =
     (upd_wentry index (\<lambda>e. e\<lparr>w_state := Free, w_waker := None,
         w_generation := w_generation e + 1, w_next := s_free s\<rparr>) s)\<lparr>s_free := index\<rparr>"

definition slab_pop_front :: "wstate \<Rightarrow> 'w slab \<Rightarrow> (nat \<times> 'w option) option \<times> 'w slab" where
  "slab_pop_front st s =
     (let index = s_head s
      in if index = NIL then (None, s)
         else
           (let s1 = slab_unlink index s; e = s_entries s1 ! index
            in (Some (w_need e, w_waker e),
                upd_wentry index (\<lambda>e. e\<lparr>w_state := st, w_waker := None\<rparr>) s1)))"

subsection \<open>The waiters\<close>

definition waiters_is_empty :: "'w slab \<Rightarrow> bool" where
  "waiters_is_empty s \<longleftrightarrow> s_head s = NIL"

definition front_fits :: "nat \<Rightarrow> 'w slab \<Rightarrow> bool" where
  "front_fits available s \<longleftrightarrow> s_head s \<noteq> NIL \<and> w_need (s_entries s ! s_head s) \<le> available"

definition grant_front_if :: "nat \<Rightarrow> 'w slab \<Rightarrow> (nat \<times> 'w option) option \<times> 'w slab" where
  "grant_front_if available s =
     (if s_head s \<noteq> NIL \<and> w_need (s_entries s ! s_head s) \<le> available
      then slab_pop_front Granted s else (None, s))"

definition close_front :: "'w slab \<Rightarrow> 'w option option \<times> 'w slab" where
  "close_front s = (case slab_pop_front Closed s of (r, s1) \<Rightarrow> (map_option snd r, s1))"

text \<open>The look and the replacing step of \<open>refresh\<close>, and \<open>refresh\<close> itself, which clones in between.\<close>

definition refresh_look :: "wkey \<Rightarrow> 'w \<Rightarrow> 'w slab \<Rightarrow> wstate \<times> bool" where
  "refresh_look key waker s =
     (case slab_live key s of
        None \<Rightarrow> (Free, True)
      | Some e \<Rightarrow> (w_state e, w_state e \<noteq> Waiting \<or> w_waker e = Some waker))"

definition refresh_step :: "wkey \<Rightarrow> 'w \<Rightarrow> 'w slab \<Rightarrow> wstate \<times> 'w option \<times> 'w slab" where
  "refresh_step key fresh s =
     (case slab_live key s of
        Some e \<Rightarrow>
          if w_state e = Waiting
          then (Waiting, w_waker e, upd_wentry (wk_index key) (\<lambda>e. e\<lparr>w_waker := Some fresh\<rparr>) s)
          else (w_state e, Some fresh, s)
      | None \<Rightarrow> (Free, Some fresh, s))"

definition refresh_clone :: "('s \<Rightarrow> 'w slab) \<Rightarrow> ('w slab \<Rightarrow> 's \<Rightarrow> 's) \<Rightarrow> ('w ucall \<Rightarrow> 's \<Rightarrow> 's)
    \<Rightarrow> wkey \<Rightarrow> 'w \<Rightarrow> 's \<Rightarrow> wstate \<times> 's" where
  "refresh_clone get_w put_w u key waker s =
     (let s1 = u (Clone waker) s;
          (state, old, slab) = refresh_step key waker (get_w s1)
      in (state, drop_waker u old (put_w slab s1)))"

definition refresh :: "('s \<Rightarrow> 'w slab) \<Rightarrow> ('w slab \<Rightarrow> 's \<Rightarrow> 's) \<Rightarrow> ('w ucall \<Rightarrow> 's \<Rightarrow> 's)
    \<Rightarrow> wkey \<Rightarrow> 'w \<Rightarrow> 's \<Rightarrow> wstate \<times> 's" where
  "refresh get_w put_w u key waker s =
     (case refresh_look key waker (get_w s) of
        (state, same) \<Rightarrow> if same then (state, s) else refresh_clone get_w put_w u key waker s)"

definition waiters_take :: "wkey \<Rightarrow> 'w slab \<Rightarrow> 'w slab" where
  "waiters_take key s =
     (case slab_live key s of
        Some e \<Rightarrow> if w_state e \<noteq> Waiting then slab_free_entry (wk_index key) s else s
      | None \<Rightarrow> s)"

definition waiters_cancel :: "wkey \<Rightarrow> 'w slab \<Rightarrow> (wstate \<times> bool \<times> 'w option) \<times> 'w slab" where
  "waiters_cancel key s =
     (case slab_live key s of
        None \<Rightarrow> ((Free, False, None), s)
      | Some e \<Rightarrow>
          (let state = w_state e;
               waker = w_waker e;
               s1 = upd_wentry (wk_index key) (\<lambda>e. e\<lparr>w_waker := None\<rparr>) s;
               was_front = (state = Waiting \<and> s_head s1 = wk_index key);
               s2 = (if state = Waiting then slab_unlink (wk_index key) s1 else s1)
           in ((state, was_front, waker), slab_free_entry (wk_index key) s2)))"

text \<open>Ending every wait.  The wakers are code of the user, so the loop may not end.\<close>

partial_function (option) wake_closed :: "('s \<Rightarrow> 'w slab) \<Rightarrow> ('w slab \<Rightarrow> 's \<Rightarrow> 's)
    \<Rightarrow> ('w ucall \<Rightarrow> 's \<Rightarrow> 's) \<Rightarrow> 's \<Rightarrow> 's option" where
  "wake_closed get_w put_w u s =
     (case close_front (get_w s) of
        (None, _) \<Rightarrow> Some s
      | (Some waker, slab) \<Rightarrow> wake_closed get_w put_w u (wake_waker u waker (put_w slab s)))"

declare wake_closed.simps [code]

subsection \<open>The invariant\<close>

abbreviation wnx :: "'w slab \<Rightarrow> nat \<Rightarrow> nat" where
  "wnx s \<equiv> \<lambda>i. w_next (s_entries s ! i)"

abbreviation wpv :: "'w slab \<Rightarrow> nat \<Rightarrow> nat" where
  "wpv s \<equiv> \<lambda>i. w_prev (s_entries s ! i)"

abbreviation wst :: "'w slab \<Rightarrow> nat \<Rightarrow> wstate" where
  "wst s \<equiv> \<lambda>i. w_state (s_entries s ! i)"

abbreviation in_state :: "'w slab \<Rightarrow> wstate \<Rightarrow> nat set" where
  "in_state s st \<equiv> {i. i < length (s_entries s) \<and> wst s i = st}"

text \<open>\<open>q\<close> is the line of waiting entries, \<open>F\<close> the free list, \<open>T\<close> the entries in transit between
  two steps: unlinked, not yet freed, whatever their state says.\<close>

definition slab_wf :: "'w slab \<Rightarrow> nat list \<Rightarrow> nat list \<Rightarrow> nat set \<Rightarrow> bool" where
  "slab_wf s q F T \<longleftrightarrow>
     chain (wnx s) (s_head s) q \<and> prevs (wpv s) NIL q \<and> s_tail s = last (NIL # q) \<and> distinct q
   \<and> set q = in_state s Waiting - T \<and> chain (wnx s) (s_free s) F \<and> distinct F
   \<and> set F = in_state s Free - T \<and> length (s_entries s) \<le> NIL
   \<and> (\<forall>i \<in> set q. w_waker (s_entries s ! i) \<noteq> None)"

definition slab_inv :: "'w slab \<Rightarrow> bool" where
  "slab_inv s \<longleftrightarrow> (\<exists>q F. slab_wf s q F {})"

lemma slab_wfD:
  assumes "slab_wf s q F T"
  shows wq_chain: "chain (wnx s) (s_head s) q" and wq_prevs: "prevs (wpv s) NIL q"
    and wq_tail: "s_tail s = last (NIL # q)" and wq_distinct: "distinct q"
    and wq_set: "set q = in_state s Waiting - T" and wf_chain: "chain (wnx s) (s_free s) F"
    and wf_distinct: "distinct F" and wf_set: "set F = in_state s Free - T"
    and w_length: "length (s_entries s) \<le> NIL"
    and wq_waker: "\<And>i. i \<in> set q \<Longrightarrow> w_waker (s_entries s ! i) \<noteq> None"
  using assms unfolding slab_wf_def by auto

lemma slab_wfI:
  assumes "chain (wnx s) (s_head s) q" and "prevs (wpv s) NIL q"
    and "s_tail s = last (NIL # q)" and "distinct q"
    and "set q = in_state s Waiting - T" and "chain (wnx s) (s_free s) F"
    and "distinct F" and "set F = in_state s Free - T"
    and "length (s_entries s) \<le> NIL"
    and "\<And>i. i \<in> set q \<Longrightarrow> w_waker (s_entries s ! i) \<noteq> None"
  shows "slab_wf s q F T"
  using assms unfolding slab_wf_def by blast

lemma slab_wf_new: "slab_wf slab_new [] [] {}"
  by (simp add: slab_wf_def slab_new_def)

lemma slab_inv_new: "slab_inv slab_new"
  using slab_wf_new unfolding slab_inv_def by blast

lemma slab_wf_unique:
  "slab_wf s q F T \<Longrightarrow> slab_wf s q' F' T' \<Longrightarrow> q = q' \<and> F = F'"
  unfolding slab_wf_def by (meson chain_unique)

lemma slab_wf_bounds:
  assumes "slab_wf s q F T"
  shows "i \<in> set q \<Longrightarrow> i < length (s_entries s)" and "i \<in> set F \<Longrightarrow> i < length (s_entries s)"
    and "i < length (s_entries s) \<Longrightarrow> i \<noteq> NIL" and "set q \<inter> set F = {}"
    and "s_head s = NIL \<longleftrightarrow> q = []" and "s_tail s = NIL \<longleftrightarrow> q = []"
proof -
  note q = wq_set [OF assms] and F = wf_set [OF assms]
  show "i \<in> set q \<Longrightarrow> i < length (s_entries s)" "i \<in> set F \<Longrightarrow> i < length (s_entries s)"
    unfolding q F by blast+
  show "set q \<inter> set F = {}" unfolding q F by (rule equals0I) (elim IntE DiffE CollectE conjE, simp)
  show "i < length (s_entries s) \<Longrightarrow> i \<noteq> NIL" using w_length [OF assms] by simp
  show "s_head s = NIL \<longleftrightarrow> q = []" using chain_head_iff [OF wq_chain [OF assms]] by simp
  have "NIL \<notin> set q" by (rule chain_no_NIL [OF wq_chain [OF assms]])
  then have "last q \<noteq> NIL" if "q \<noteq> []" using last_in_set [OF that] by metis
  then show "s_tail s = NIL \<longleftrightarrow> q = []" unfolding wq_tail [OF assms] by simp
qed

text \<open>Updates that leave the lists alone.\<close>

lemma slab_wf_frame:
  assumes wf: "slab_wf s q F T"
    and len: "length (s_entries s') = length (s_entries s)"
    and heads: "s_head s' = s_head s" "s_tail s' = s_tail s" "s_free s' = s_free s"
    and q: "\<And>j. j \<in> set q \<Longrightarrow> wnx s' j = wnx s j \<and> wpv s' j = wpv s j \<and> w_waker (s_entries s' ! j) \<noteq> None"
    and F: "\<And>j. j \<in> set F \<Longrightarrow> wnx s' j = wnx s j"
    and st: "in_state s' Waiting - T' = in_state s Waiting - T" "in_state s' Free - T' = in_state s Free - T"
  shows "slab_wf s' q F T'"
proof -
  have "chain (wnx s') (s_head s') q = chain (wnx s) (s_head s) q"
    unfolding heads using q by (intro lseg_cong) simp
  moreover have "prevs (wpv s') NIL q = prevs (wpv s) NIL q" using q by (intro prevs_cong) simp
  moreover have "chain (wnx s') (s_free s') F = chain (wnx s) (s_free s) F"
    unfolding heads using F by (intro lseg_cong) simp
  ultimately show ?thesis
    using wf len heads q st unfolding slab_wf_def by simp
qed

subsection \<open>Unlinking and freeing\<close>

lemma slab_unlink_simps [simp]:
  "length (s_entries (slab_unlink i s)) = length (s_entries s)" "s_free (slab_unlink i s) = s_free s"
  by (simp_all add: slab_unlink_def Let_def)

lemma slab_unlink_fields:
  assumes "j < length (s_entries s)"
  shows "wnx (slab_unlink i s) j = (if wpv s i \<noteq> NIL \<and> j = wpv s i then wnx s i else wnx s j)"
    and "wpv (slab_unlink i s) j = (if wnx s i \<noteq> NIL \<and> j = wnx s i then wpv s i else wpv s j)"
    and "wst (slab_unlink i s) j = wst s j"
    and "w_need (s_entries (slab_unlink i s) ! j) = w_need (s_entries s ! j)"
    and "w_waker (s_entries (slab_unlink i s) ! j) = w_waker (s_entries s ! j)"
    and "w_generation (s_entries (slab_unlink i s) ! j) = w_generation (s_entries s ! j)"
  using assms by (auto simp: slab_unlink_def Let_def nth_upd)

lemma slab_wf_unlink:
  assumes wf: "slab_wf s (xs @ i # ys) F {}"
  shows "slab_wf (slab_unlink i s) (xs @ ys) F {i}"
proof -
  let ?s = "slab_unlink i s"
  note c = wq_chain [OF wf] and p = wq_prevs [OF wf] and d = wq_distinct [OF wf] and tail = wq_tail [OF wf]
    and cF = wf_chain [OF wf]
  have q: "set (xs @ i # ys) = in_state s Waiting" and F: "set F = in_state s Free"
    using wq_set [OF wf] wf_set [OF wf] by blast+
  note bounds = slab_wf_bounds [OF wf]
  have pvi: "wpv s i = last (NIL # xs)" by (rule prevs_mid [OF p])
  have nxi: "wnx s i = (case ys of [] \<Rightarrow> NIL | y # _ \<Rightarrow> y)" by (rule chain_mid [OF c])
  have no: "NIL \<notin> set (xs @ i # ys)" by (rule chain_no_NIL [OF c])
  have prev_xs: "wpv s i = NIL \<longleftrightarrow> xs = []" "xs \<noteq> [] \<Longrightarrow> wpv s i = last xs"
  proof -
    have "last xs \<noteq> NIL" if "xs \<noteq> []" using no last_in_set [OF that] by auto
    then show "wpv s i = NIL \<longleftrightarrow> xs = []" "xs \<noteq> [] \<Longrightarrow> wpv s i = last xs"
      unfolding pvi by simp_all
  qed
  have next_ys: "wnx s i = NIL \<longleftrightarrow> ys = []" "ys \<noteq> [] \<Longrightarrow> wnx s i = hd ys"
    unfolding nxi using no by (cases ys; auto)+
  have fields: "wnx ?s j = (if xs \<noteq> [] \<and> j = last xs then wnx s i else wnx s j)"
    "wpv ?s j = (if ys \<noteq> [] \<and> j = hd ys then wpv s i else wpv s j)" if "j \<in> set (xs @ ys)" for j
    using slab_unlink_fields(1,2) [of j s i] bounds(1) [of j] that prev_xs next_ys by auto
  have head: "s_head ?s = (if xs = [] then wnx s i else s_head s)"
    using prev_xs(1) by (simp add: slab_unlink_def Let_def)
  have "chain (wnx ?s) (s_head ?s) (xs @ ys)" unfolding head
    by (rule chain_unlink [OF c d]) (rule fields(1))
  moreover have "prevs (wpv ?s) NIL (xs @ ys)"
    by (rule prevs_unlink [OF p d]) (rule fields(2))
  moreover have "s_tail ?s = last (NIL # xs @ ys)"
    using next_ys(1) tail pvi by (cases ys rule: rev_cases) (simp_all add: slab_unlink_def Let_def)
  moreover have "chain (wnx ?s) (s_free ?s) F"
  proof -
    have same: "wnx s j = wnx ?s j" if "j \<in> set F" for j
    proof -
      have "j \<notin> set xs" using bounds(4) that by auto
      then have "\<not> (wpv s i \<noteq> NIL \<and> j = wpv s i)" using prev_xs last_in_set [of xs] by auto
      then show ?thesis using slab_unlink_fields(1) [of j s i] bounds(2) [OF that] by auto
    qed
    show ?thesis using cF unfolding slab_unlink_simps
      by (rule lseg_cong [THEN iffD1, rotated]) (simp add: same)
  qed
  moreover have st: "in_state ?s st = in_state s st" for st
    using slab_unlink_fields(3) [of _ s i] by (intro Collect_cong conj_cong) simp_all
  moreover have "set (xs @ ys) = in_state s Waiting - {i}" using q d by auto
  moreover have "set F = in_state s Free - {i}"
  proof -
    have "i \<notin> set F" using bounds(4) by auto
    then show ?thesis using F by blast
  qed
  moreover have "w_waker (s_entries ?s ! j) \<noteq> None" if "j \<in> set (xs @ ys)" for j
  proof -
    have j: "j \<in> set (xs @ i # ys)" using that by auto
    show ?thesis using wq_waker [OF wf j] slab_unlink_fields(5) [OF bounds(1) [OF j]] by simp
  qed
  ultimately show ?thesis
    using d wf_distinct [OF wf] w_length [OF wf] by (intro slab_wfI) (simp_all add: st)
qed

lemma slab_wf_free:
  assumes wf: "slab_wf s q F T" and i: "i < length (s_entries s)" "i \<notin> set q" "i \<notin> set F"
  shows "slab_wf (slab_free_entry i s) q (i # F) (T - {i})"
proof -
  let ?s = "slab_free_entry i s"
  have other: "s_entries ?s ! j = s_entries s ! j" if "j \<noteq> i" for j
    using that by (simp add: slab_free_entry_def)
  have same: "wnx s j = wnx ?s j" if "j \<in> set q \<union> set F" for j
  proof -
    have "j \<noteq> i" using that i by auto
    then show ?thesis by (simp add: other)
  qed
  have q: "s_entries ?s ! j = s_entries s ! j" if "j \<in> set q" for j
    using other [of j] i(2) that by (cases "j = i") simp_all
  show ?thesis
  proof (rule slab_wfI)
    have "chain (wnx ?s) (s_head s) q"
      using wq_chain [OF wf] by (rule lseg_cong [THEN iffD1, rotated]) (simp add: same)
    then show "chain (wnx ?s) (s_head ?s) q" by (simp add: slab_free_entry_def)
    show "prevs (wpv ?s) NIL q"
      using wq_prevs [OF wf] by (rule prevs_cong [THEN iffD1, rotated]) (simp add: q)
    have "chain (wnx ?s) (s_free s) F"
      using wf_chain [OF wf] by (rule lseg_cong [THEN iffD1, rotated]) (simp add: same)
    then show "chain (wnx ?s) (s_free ?s) (i # F)"
      using i(1) slab_wf_bounds(3) [OF wf i(1)] by (simp add: slab_free_entry_def)
    show "set q = in_state ?s Waiting - (T - {i})"
      unfolding wq_set [OF wf] using i wq_set [OF wf]
      by (auto simp: slab_free_entry_def nth_list_update split: if_splits)
    show "set (i # F) = in_state ?s Free - (T - {i})"
      using i wf_set [OF wf]
      by (auto simp: slab_free_entry_def nth_list_update split: if_splits)
    show "s_tail ?s = last (NIL # q)" using wq_tail [OF wf] by (simp add: slab_free_entry_def)
    show "length (s_entries ?s) \<le> NIL" using w_length [OF wf] by (simp add: slab_free_entry_def)
    show "w_waker (s_entries ?s ! j) \<noteq> None" if "j \<in> set q" for j
      using wq_waker [OF wf that] q [OF that] by simp
  qed (use wf_distinct [OF wf] wq_distinct [OF wf] i in auto)
qed

subsection \<open>Pushing\<close>

text \<open>The entry a push takes: the head of the free list, or a new one.\<close>

definition push_index :: "'w slab \<Rightarrow> nat" where
  "push_index s = (if s_free s = NIL then length (s_entries s) else s_free s)"

definition push_gen :: "'w slab \<Rightarrow> u32" where
  "push_gen s = (if s_free s = NIL then 0 else w_generation (s_entries s ! s_free s))"

lemma slab_push_key:
  assumes "slab_wf s q F {}" and "length (s_entries s) < NIL"
  shows "push_index s \<notin> set q" and "push_index s < length (s_entries (snd (slab_push n w s)))"
    and "s_free s = NIL \<longleftrightarrow> F = []" and "F \<noteq> [] \<Longrightarrow> push_index s = hd F"
    and "push_index s \<noteq> NIL" and "s_tail s = NIL \<or> s_tail s < length (s_entries s) \<and> s_tail s \<noteq> push_index s"
proof -
  note b = slab_wf_bounds [OF assms(1)]
  show nil: "s_free s = NIL \<longleftrightarrow> F = []" using chain_head_iff [OF wf_chain [OF assms(1)]] by simp
  show hd: "F \<noteq> [] \<Longrightarrow> push_index s = hd F"
    using chain_head [OF wf_chain [OF assms(1)]] nil by (cases F) (simp_all add: push_index_def)
  show nq: "push_index s \<notin> set q"
  proof (cases "F = []")
    case True
    then show ?thesis using nil b(1) [of "push_index s"] by (auto simp: push_index_def)
  next
    case False
    then show ?thesis using hd b(4) hd_in_set [OF False] by auto
  qed
  have lt: "s_free s < length (s_entries s)" if "s_free s \<noteq> NIL"
  proof -
    have "F \<noteq> []" using nil that by simp
    then have "push_index s \<in> set F" using hd hd_in_set by metis
    then show ?thesis using b(2) that by (simp add: push_index_def)
  qed
  then show "push_index s < length (s_entries (snd (slab_push n w s)))"
    by (simp add: slab_push_def Let_def push_index_def)
  show "push_index s \<noteq> NIL" using assms(2) by (simp add: push_index_def)
  show "s_tail s = NIL \<or> s_tail s < length (s_entries s) \<and> s_tail s \<noteq> push_index s"
  proof (cases "q = []")
    case False
    then have "s_tail s \<in> set q" using wq_tail [OF assms(1)] by simp
    then show ?thesis using nq b(1) by metis
  qed (use b(6) in simp)
qed

lemma slab_push_fields:
  fixes n :: nat and w :: 'w
  assumes wf: "slab_wf s q F {}" and room: "length (s_entries s) < NIL"
  defines "i \<equiv> push_index s" and "s' \<equiv> snd (slab_push n w s)"
  shows "fst (slab_push n w s) = \<lparr>wk_index = i, wk_generation = push_gen s\<rparr>"
    and "s_entries s' ! i = \<lparr>w_waker = Some w, w_need = n, w_state = Waiting, w_prev = s_tail s,
           w_next = NIL, w_generation = push_gen s\<rparr>"
    and "\<And>j. j < length (s_entries s) \<Longrightarrow> j \<noteq> i \<Longrightarrow> s_entries s' ! j =
           (s_entries s ! j)\<lparr>w_next := (if q \<noteq> [] \<and> j = last q then i else wnx s j)\<rparr>"
    and "length (s_entries s') = (if F = [] then Suc (length (s_entries s)) else length (s_entries s))"
    and "s_head s' = (if q = [] then i else s_head s)" and "s_tail s' = i"
    and "s_free s' = (if F = [] then NIL else wnx s i)"
proof -
  note key = slab_push_key [OF wf room]
  have tail: "s_tail s = NIL \<longleftrightarrow> q = []" "q \<noteq> [] \<Longrightarrow> s_tail s = last q"
    using slab_wf_bounds(6) [OF wf] wq_tail [OF wf] by simp_all
  have lt: "F \<noteq> [] \<Longrightarrow> s_free s < length (s_entries s)"
    using slab_wf_bounds(2) [OF wf, of "hd F"] key(3,4) by (simp add: push_index_def)
  note defs = slab_push_def Let_def push_index_def push_gen_def i_def s'_def
  show "fst (slab_push n w s) = \<lparr>wk_index = i, wk_generation = push_gen s\<rparr>"
    "s_entries s' ! i = \<lparr>w_waker = Some w, w_need = n, w_state = Waiting, w_prev = s_tail s,
           w_next = NIL, w_generation = push_gen s\<rparr>"
    using key(3,6) lt by (auto simp: defs nth_append nth_list_update split: if_splits)
  show "s_entries s' ! j = (s_entries s ! j)\<lparr>w_next := (if q \<noteq> [] \<and> j = last q then i else wnx s j)\<rparr>"
    if "j < length (s_entries s)" "j \<noteq> i" for j
    using key(3,6) lt that tail by (auto simp: defs nth_append nth_list_update split: if_splits)
  show "length (s_entries s') = (if F = [] then Suc (length (s_entries s)) else length (s_entries s))"
    "s_head s' = (if q = [] then i else s_head s)" "s_tail s' = i"
    "s_free s' = (if F = [] then NIL else wnx s i)"
    using key(3) tail(1) by (simp_all add: defs)
qed

lemma slab_wf_push:
  assumes wf: "slab_wf s q F {}" and room: "length (s_entries s) < NIL"
  shows "slab_wf (snd (slab_push n w s)) (q @ [push_index s]) (tl F) {}"
proof -
  let ?i = "push_index s" and ?s = "snd (slab_push n w s)"
  note f = slab_push_fields [OF wf room, where n = n and w = w] and key = slab_push_key [OF wf room]
    and b = slab_wf_bounds [OF wf]
  have ilt: "?i < length (s_entries ?s)" by (rule key(2))
  have notq: "j \<noteq> ?i" if "j \<in> set q" for j using key(1) that by metis
  have nottl: "j < length (s_entries s) \<and> j \<noteq> ?i \<and> \<not> (q \<noteq> [] \<and> j = last q)" if "j \<in> set (tl F)" for j
  proof -
    have F: "F = ?i # tl F" using key(4) that by (cases F) auto
    then have "?i \<notin> set (tl F)" using wf_distinct [OF wf] by (metis distinct.simps(2))
    moreover have "j \<in> set F" using that by (cases F) simp_all
    ultimately show ?thesis using that b(2,4) last_in_set [of q] by blast
  qed
  have st: "in_state ?s st = (if st = Waiting then insert ?i (in_state s st) else in_state s st - {?i})" for st
  proof (rule set_eqI)
    fix j
    consider "j = ?i" | "j \<noteq> ?i" "j < length (s_entries s)" | "j \<noteq> ?i" "\<not> j < length (s_entries s)" by blast
    then show "j \<in> in_state ?s st \<longleftrightarrow>
        j \<in> (if st = Waiting then insert ?i (in_state s st) else in_state s st - {?i})"
    proof cases
      case 1
      then show ?thesis using ilt f(2) by auto
    next
      case 2
      then show ?thesis using f(3) [OF 2(2,1)] f(4) by simp
    next
      case 3
      then have "\<not> j < length (s_entries ?s)" using f(4) key(3) by (auto simp: push_index_def)
      then show ?thesis using 3 by simp
    qed
  qed
  show ?thesis
  proof (rule slab_wfI)
    have "chain (wnx ?s) (if q = [] then ?i else s_head s) (q @ [?i])"
      using f(3) b(1) notq f(2)
      by (intro lseg_push_back [OF wq_chain [OF wf] key(1,5) wq_distinct [OF wf]]) auto
    then show "chain (wnx ?s) (s_head ?s) (q @ [?i])" unfolding f(5) .
    have same: "wpv s j = wpv ?s j" if "j \<in> set q" for j using f(3) b(1) notq that by simp
    have "prevs (wpv ?s) NIL q"
      using wq_prevs [OF wf] by (rule prevs_cong [THEN iffD1, rotated]) (simp add: same)
    then show "prevs (wpv ?s) NIL (q @ [?i])"
      using f(2) wq_tail [OF wf] by (simp add: prevs_append)
    have "chain (wnx s) (if F = [] then NIL else wnx s ?i) (tl F)"
      using wf_chain [OF wf] key(4) by (cases F) simp_all
    then show "chain (wnx ?s) (s_free ?s) (tl F)" unfolding f(7)
      by (rule lseg_cong [THEN iffD1, rotated]) (use f(3) nottl in auto)
    show "set (q @ [?i]) = in_state ?s Waiting - {}" using st wq_set [OF wf] by simp
    show "set (tl F) = in_state ?s Free - {}"
    proof (cases F)
      case Nil
      then have "in_state s Free = {}" using wf_set [OF wf] by simp
      then show ?thesis using Nil st by simp
    next
      case (Cons x xs)
      then show ?thesis using st wf_set [OF wf] key(4) wf_distinct [OF wf] by auto
    qed
    show "length (s_entries ?s) \<le> NIL" using f(4) room w_length [OF wf] by simp
    show "w_waker (s_entries ?s ! j) \<noteq> None" if "j \<in> set (q @ [?i])" for j
      using that f(2,3) b(1) notq wq_waker [OF wf] by auto
  qed (use f(6) wf_distinct [OF wf] wq_distinct [OF wf] key(1) in \<open>auto simp: distinct_tl\<close>)
qed

end
