(* ===== verification/Waiters_Line.thy ===== *)
theory Waiters_Line
  imports Waiters "HOL-Library.Sublist"
begin

text \<open>
  What the slab of waiters stands for: the line of waiting keys in arrival order, each with its
  need and waker, and the state of every key.  Each step on the slab is shown to act on that view
  as the comment on it in \<open>waiters.rs\<close> says.
\<close>

subsection \<open>The view\<close>

fun follow :: "(nat \<Rightarrow> nat) \<Rightarrow> nat \<Rightarrow> nat \<Rightarrow> nat list" where
  "follow nx 0 h = []"
| "follow nx (Suc n) h = (if h = NIL then [] else h # follow nx n (nx h))"

lemma follow_chain: "chain nx h xs \<Longrightarrow> length xs \<le> n \<Longrightarrow> follow nx n h = xs"
proof (induction xs arbitrary: n h)
  case Nil
  then show ?case by (cases n) auto
next
  case (Cons x xs)
  then show ?case by (cases n) auto
qed

definition waiting :: "'w slab \<Rightarrow> nat list" where
  "waiting s = follow (wnx s) (length (s_entries s)) (s_head s)"

definition wview :: "'w slab \<Rightarrow> nat \<Rightarrow> wkey \<times> nat \<times> 'w option" where
  "wview s i = (\<lparr>wk_index = i, wk_generation = w_generation (s_entries s ! i)\<rparr>,
     w_need (s_entries s ! i), w_waker (s_entries s ! i))"

definition line :: "'w slab \<Rightarrow> (wkey \<times> nat \<times> 'w option) list" where
  "line s = map (wview s) (waiting s)"

definition status :: "'w slab \<Rightarrow> wkey \<Rightarrow> wstate" where
  "status s k = (case slab_live k s of None \<Rightarrow> Free | Some e \<Rightarrow> w_state e)"

definition need_at :: "'w slab \<Rightarrow> wkey \<Rightarrow> nat" where
  "need_at s k = (case slab_live k s of None \<Rightarrow> 0 | Some e \<Rightarrow> w_need e)"

text \<open>What the granted entries whose owner has not come back yet hold.\<close>

definition granted :: "'w slab \<Rightarrow> nat" where
  "granted s = sum_list (map (\<lambda>e. if w_state e = Granted then w_need e else 0) (s_entries s))"

lemma waiting_eq:
  assumes "slab_wf s q F T"
  shows "waiting s = q"
proof -
  have "set q \<subseteq> {..<length (s_entries s)}" using slab_wf_bounds(1) [OF assms] by auto
  then have "length q \<le> length (s_entries s)"
    using distinct_card [OF wq_distinct [OF assms]] card_mono [of "{..<length (s_entries s)}" "set q"] by simp
  then show ?thesis unfolding waiting_def by (rule follow_chain [OF wq_chain [OF assms]])
qed

lemma line_eq: "slab_wf s q F T \<Longrightarrow> line s = map (wview s) q"
  by (simp add: line_def waiting_eq)

lemma line_new: "line slab_new = []" "status slab_new k = Free" "granted slab_new = 0"
  by (simp_all add: line_def waiting_def slab_new_def status_def slab_live_def granted_def)

lemma fst_wview [simp]: "wk_index (fst (wview s i)) = i"
  by (simp add: wview_def)

text \<open>A key reads the entry at its index when the generations agree.\<close>

lemma status_at:
  "status s k = (if wk_index k < length (s_entries s) \<and> w_generation (s_entries s ! wk_index k) = wk_generation k
     then wst s (wk_index k) else Free)"
  by (auto simp: status_def slab_live_def Let_def)

lemma slab_live_eq:
  "slab_live k s = (if status s k = Free then None else Some (s_entries s ! wk_index k))"
  by (auto simp: status_def slab_live_def Let_def)

lemma need_at_eq: "status s k \<noteq> Free \<Longrightarrow> need_at s k = w_need (s_entries s ! wk_index k)"
  by (simp add: need_at_def slab_live_eq)

lemma status_bound: "status s k \<noteq> Free \<Longrightarrow> wk_index k < length (s_entries s)"
  by (simp add: status_at split: if_splits)

lemma status_same_index:
  "status s k \<noteq> Free \<Longrightarrow> k' \<noteq> k \<Longrightarrow> wk_index k' = wk_index k \<Longrightarrow> status s k' = Free"
  by (cases k; cases k') (auto simp: status_at split: if_splits)

lemma line_status:
  assumes "slab_inv s"
  shows "status s k = Waiting \<longleftrightarrow> k \<in> fst ` set (line s)" and "distinct (map fst (line s))"
    and "\<And>k n w. (k, n, w) \<in> set (line s) \<Longrightarrow> w \<noteq> None \<and> n = need_at s k"
proof -
  obtain q F where wf: "slab_wf s q F {}" using assms unfolding slab_inv_def by blast
  have q: "i \<in> set q \<longleftrightarrow> i < length (s_entries s) \<and> wst s i = Waiting" for i
    using wq_set [OF wf] by auto
  have line: "line s = map (wview s) q" by (rule line_eq [OF wf])
  show st: "status s k = Waiting \<longleftrightarrow> k \<in> fst ` set (line s)" for k
  proof
    assume "status s k = Waiting"
    then have "wk_index k \<in> set q" "k = fst (wview s (wk_index k))"
      by (cases k; simp add: q status_at wview_def split: if_splits)+
    then show "k \<in> fst ` set (line s)" unfolding line by force
  next
    assume "k \<in> fst ` set (line s)"
    then obtain i where "i \<in> set q" "k = fst (wview s i)" unfolding line by auto
    then show "status s k = Waiting" by (simp add: q status_at wview_def)
  qed
  have "inj (fst \<circ> wview s)" by (rule injI) (metis comp_apply fst_wview)
  then show "distinct (map fst (line s))"
    unfolding line using wq_distinct [OF wf] inj_on_subset [of "fst \<circ> wview s" UNIV "set q"]
    by (simp add: distinct_map)
  fix k n w assume mem: "(k, n, w) \<in> set (line s)"
  then obtain i where i: "i \<in> set q" "(k, n, w) = wview s i" unfolding line by auto
  moreover have "status s k = Waiting" unfolding st using mem by force
  ultimately show "w \<noteq> None \<and> n = need_at s k"
    using wq_waker [OF wf i(1)] by (auto simp: wview_def need_at_eq)
qed

subsection \<open>Updates of one entry\<close>

lemma granted_update:
  assumes "i < length es"
  shows "sum_list (map f (es[i := e])) + f (es ! i) = sum_list (map f es) + (f e :: nat)"
  using assms
proof (induction es arbitrary: i)
  case (Cons x xs)
  then show ?case by (cases i) auto
qed simp

lemma granted_cong:
  assumes "length (s_entries s') = length (s_entries s)"
    and "\<And>j. j < length (s_entries s) \<Longrightarrow> (wst s' j = Granted \<longleftrightarrow> wst s j = Granted)
      \<and> (wst s j = Granted \<longrightarrow> w_need (s_entries s' ! j) = w_need (s_entries s ! j))"
  shows "granted s' = granted s"
  unfolding granted_def using assms by (intro arg_cong [where f = sum_list] nth_equalityI) auto

lemma status_frame:
  assumes "length (s_entries s') = length (s_entries s)"
    and "wk_index k < length (s_entries s) \<Longrightarrow> wst s' (wk_index k) = wst s (wk_index k)
      \<and> w_generation (s_entries s' ! wk_index k) = w_generation (s_entries s ! wk_index k)"
  shows "status s' k = status s k"
  using assms by (auto simp: status_at)

lemma line_frame:
  assumes "slab_wf s q F T" and "slab_wf s' q F' T'"
    and "\<And>j. j \<in> set q \<Longrightarrow> w_generation (s_entries s' ! j) = w_generation (s_entries s ! j)
      \<and> w_need (s_entries s' ! j) = w_need (s_entries s ! j) \<and> w_waker (s_entries s' ! j) = w_waker (s_entries s ! j)"
  shows "line s' = line s"
  using assms by (simp add: line_eq [OF assms(1)] line_eq [OF assms(2)] wview_def)

subsection \<open>Pushing\<close>

lemma push_law:
  assumes inv: "slab_inv s" and room: "length (s_entries s) < NIL"
  obtains k where "fst (slab_push n w s) = k" and "slab_inv (snd (slab_push n w s))"
    and "line (snd (slab_push n w s)) = line s @ [(k, n, Some w)]"
    and "status (snd (slab_push n w s)) = (status s)(k := Waiting)" and "status s k = Free"
    and "granted (snd (slab_push n w s)) = granted s"
proof -
  obtain q F where wf: "slab_wf s q F {}" using inv unfolding slab_inv_def by blast
  define s' where "s' = snd (slab_push n w s)"
  define i where "i = push_index s"
  define k where "k = \<lparr>wk_index = i, wk_generation = push_gen s\<rparr>"
  note f = slab_push_fields [OF wf room, where n = n and w = w, folded s'_def i_def]
  note key = slab_push_key [OF wf room, folded i_def]
  have wf': "slab_wf s' (q @ [i]) (tl F) {}"
    unfolding s'_def i_def by (rule slab_wf_push [OF wf room])
  have ilt: "i < length (s_entries s')" unfolding s'_def by (rule key(2))
  have old: "i < length (s_entries s) \<Longrightarrow> wst s i = Free"
  proof -
    assume "i < length (s_entries s)"
    then have "F \<noteq> []" using key(3) by (auto simp: i_def push_index_def)
    then have "i \<in> set F" using key(4) by simp
    then show ?thesis using wf_set [OF wf] by simp
  qed
  have q: "j < length (s_entries s) \<and> j \<noteq> i" if "j \<in> set q" for j
    using that key(1) slab_wf_bounds(1) [OF wf that] by metis
  have view: "wview s' j = wview s j" if "j \<in> set q" for j
    using f(3) q [OF that] by (simp add: wview_def)
  have st: "status s' k' = ((status s)(k := Waiting)) k'" for k'
  proof (cases "wk_index k' = i")
    case True
    then show ?thesis using f(2) ilt old by (cases k') (auto simp: status_at k_def)
  next
    case False
    then have "wk_index k' < length (s_entries s') \<longleftrightarrow> wk_index k' < length (s_entries s)"
      using f(4) key(3) by (auto simp: i_def push_index_def)
    then show ?thesis using False f(3) by (auto simp: status_at k_def)
  qed
  have gr: "granted s' = granted s"
  proof (cases "F = []")
    case True
    then have s': "map (\<lambda>e. (w_state e, w_need e)) (s_entries s') =
        map (\<lambda>e. (w_state e, w_need e)) (s_entries s) @ [(Waiting, n)]"
      using f(2,3,4) key(3) by (intro nth_equalityI) (auto simp: nth_append i_def push_index_def less_Suc_eq)
    have g: "granted x = sum_list (map (\<lambda>(st, n). if st = Granted then n else 0)
        (map (\<lambda>e. (w_state e, w_need e)) (s_entries x)))" for x :: "'a slab"
      by (simp add: granted_def comp_def)
    show ?thesis unfolding g s' by simp
  next
    case False
    then have len: "length (s_entries s') = length (s_entries s)" using f(4) by simp
    show ?thesis
    proof (rule granted_cong [OF len])
      fix j assume j: "j < length (s_entries s)"
      show "(wst s' j = Granted \<longleftrightarrow> wst s j = Granted)
        \<and> (wst s j = Granted \<longrightarrow> w_need (s_entries s' ! j) = w_need (s_entries s ! j))"
        using f(2) f(3) [OF j] old j by (cases "j = i") simp_all
    qed
  qed
  show thesis
  proof (rule that [of k])
    show "fst (slab_push n w s) = k" unfolding k_def by (rule f(1))
    show "slab_inv (snd (slab_push n w s))" using wf' unfolding slab_inv_def s'_def by blast
    show "line (snd (slab_push n w s)) = line s @ [(k, n, Some w)]"
      unfolding s'_def [symmetric] line_eq [OF wf'] line_eq [OF wf]
      using view f(2) by (simp add: wview_def k_def)
    show "status (snd (slab_push n w s)) = (status s)(k := Waiting)"
      using st unfolding s'_def by blast
    show "status s k = Free" using old by (simp add: status_at k_def)
    show "granted (snd (slab_push n w s)) = granted s" using gr unfolding s'_def .
  qed
qed

subsection \<open>Taking the front\<close>

lemma slab_wf_settle:
  assumes wf: "slab_wf s q F {i}" and i: "i < length (s_entries s)" "i \<notin> set q" "i \<notin> set F"
    and st: "st \<noteq> Waiting" "st \<noteq> Free"
  shows "slab_wf (upd_wentry i (\<lambda>e. e\<lparr>w_state := st, w_waker := None\<rparr>) s) q F {}" (is "slab_wf ?s q F {}")
proof (rule slab_wf_frame [OF wf])
  have other: "s_entries ?s ! j = s_entries s ! j" if "j \<noteq> i" for j using that by simp
  show "wnx ?s j = wnx s j \<and> wpv ?s j = wpv s j \<and> w_waker (s_entries ?s ! j) \<noteq> None" if "j \<in> set q" for j
  proof -
    have "j \<noteq> i" using that i(2) by metis
    then show ?thesis using other wq_waker [OF wf that] by simp
  qed
  show "wnx ?s j = wnx s j" if "j \<in> set F" for j
    using that i(3) by (cases "j = i") auto
  show "in_state ?s Waiting - {} = in_state s Waiting - {i}" "in_state ?s Free - {} = in_state s Free - {i}"
    using st i(1) by (auto simp: nth_list_update split: if_splits)
qed simp_all

lemma pop_law:
  assumes inv: "slab_inv s" and front: "line s = (k, n, w) # Q" and st: "st \<noteq> Waiting" "st \<noteq> Free"
  obtains s' where "slab_pop_front st s = (Some (n, w), s')" and "slab_inv s'" and "line s' = Q"
    and "status s' = (status s)(k := st)"
    and "granted s' = granted s + (if st = Granted then n else 0)"
    and "length (s_entries s') = length (s_entries s)"
proof -
  obtain q F where wf: "slab_wf s q F {}" using inv unfolding slab_inv_def by blast
  obtain i ys where q: "q = i # ys" and view: "wview s i = (k, n, w)" and Q: "Q = map (wview s) ys"
    using front unfolding line_eq [OF wf] by (cases q) auto
  have wf0: "slab_wf s ([] @ i # ys) F {}" using wf q by simp
  note b = slab_wf_bounds [OF wf0]
  have i: "i < length (s_entries s)" "i \<notin> set ys" "i \<notin> set F"
    using b(1,4) wq_distinct [OF wf0] by auto
  have head: "s_head s = i" "s_head s \<noteq> NIL" using wq_chain [OF wf] q by auto
  define s1 where "s1 = slab_unlink i s"
  define s2 where "s2 = upd_wentry i (\<lambda>e. e\<lparr>w_state := st, w_waker := None\<rparr>) s1"
  note f = slab_unlink_fields [where i = i and s = s, folded s1_def]
  have len: "length (s_entries s1) = length (s_entries s)" by (simp add: s1_def)
  have len2: "length (s_entries s2) = length (s_entries s)" using len by (simp add: s2_def)
  have wf1: "slab_wf s1 ys F {i}" unfolding s1_def using slab_wf_unlink [OF wf0] by simp
  have wf2: "slab_wf s2 ys F {}"
    unfolding s2_def using i len by (intro slab_wf_settle [OF wf1 _ _ _ st]) auto
  have k: "k = \<lparr>wk_index = i, wk_generation = w_generation (s_entries s ! i)\<rparr>"
    "n = w_need (s_entries s ! i)" "w = w_waker (s_entries s ! i)"
    using view by (auto simp: wview_def)
  have ist: "wst s i = Waiting" using wq_set [OF wf0] by auto
  have at: "w_generation (s_entries s2 ! j) = w_generation (s_entries s ! j)
      \<and> w_need (s_entries s2 ! j) = w_need (s_entries s ! j)
      \<and> (j \<noteq> i \<longrightarrow> wst s2 j = wst s j \<and> w_waker (s_entries s2 ! j) = w_waker (s_entries s ! j))
      \<and> (j = i \<longrightarrow> wst s2 j = st)" if "j < length (s_entries s)" for j
    using f [OF that] that len i(1) by (simp add: s2_def nth_list_update)
  have "line s2 = Q"
    unfolding line_eq [OF wf2] Q using at b(1) i(2) by (intro map_cong) (auto simp: wview_def)
  moreover have "status s2 k' = ((status s)(k := st)) k'" for k'
  proof (cases "wk_index k' < length (s_entries s)")
    case True
    then show ?thesis
      using at [OF True] ist len2 by (cases k'; cases "wk_index k' = i") (auto simp: status_at k)
  next
    case False
    then show ?thesis using i(1) len2 by (auto simp: status_at k)
  qed
  then have "status s2 = (status s)(k := st)" by blast
  moreover have "granted s2 = granted s + (if st = Granted then n else 0)"
  proof -
    have "granted s1 = granted s" using f len by (intro granted_cong) auto
    moreover have "granted s2 + (if wst s1 i = Granted then w_need (s_entries s1 ! i) else 0) =
        granted s1 + (if st = Granted then w_need (s_entries s1 ! i) else 0)"
      unfolding granted_def s2_def using granted_update [of i "s_entries s1"
        "\<lambda>e. if w_state e = Granted then w_need e else 0"] i(1) len by simp
    ultimately show ?thesis using f(3,4) [OF i(1)] ist k(2) by simp
  qed
  moreover have "slab_pop_front st s = (Some (n, w), s2)"
    using head f(4,5) [OF i(1)] k by (simp add: slab_pop_front_def Let_def s1_def [symmetric] s2_def)
  moreover have "slab_inv s2" using wf2 unfolding slab_inv_def by blast
  ultimately show thesis using that len2 by blast
qed

lemma pop_empty: "slab_inv s \<Longrightarrow> line s = [] \<Longrightarrow> slab_pop_front st s = (None, s)"
proof -
  assume inv: "slab_inv s" and l: "line s = []"
  obtain q F where wf: "slab_wf s q F {}" using inv unfolding slab_inv_def by blast
  then have "s_head s = NIL" using l slab_wf_bounds(5) [OF wf] by (simp add: line_eq [OF wf])
  then show ?thesis by (simp add: slab_pop_front_def)
qed

lemma line_front:
  assumes "slab_inv s"
  shows "s_head s = NIL \<longleftrightarrow> line s = []"
    and "line s = (k, n, w) # Q \<Longrightarrow> s_head s = wk_index k \<and> w_need (s_entries s ! s_head s) = n"
proof -
  obtain q F where wf: "slab_wf s q F {}" using assms unfolding slab_inv_def by blast
  show "s_head s = NIL \<longleftrightarrow> line s = []"
    using slab_wf_bounds(5) [OF wf] by (simp add: line_eq [OF wf])
  show "line s = (k, n, w) # Q \<Longrightarrow> s_head s = wk_index k \<and> w_need (s_entries s ! s_head s) = n"
    using wq_chain [OF wf] unfolding line_eq [OF wf] by (cases q) (auto simp: wview_def)
qed

subsection \<open>Freeing an entry\<close>

text \<open>Freeing the entry of key \<open>k\<close> once it is out of the line.\<close>

lemma free_view:
  assumes wf: "slab_wf s q F T" and k: "status s k \<noteq> Free" and q: "wk_index k \<notin> set q" "wk_index k \<notin> set F"
    and T: "T \<subseteq> {wk_index k}"
  defines "s' \<equiv> slab_free_entry (wk_index k) s"
  shows "slab_inv s'" and "line s' = line s" and "status s' = (status s)(k := Free)"
    and "granted s' + (if status s k = Granted then need_at s k else 0) = granted s"
    and "length (s_entries s') = length (s_entries s)"
proof -
  have i: "wk_index k < length (s_entries s)" by (rule status_bound [OF k])
  have none: "T - {wk_index k} = {}" using T by auto
  have wf': "slab_wf s' q (wk_index k # F) {}"
    unfolding s'_def using slab_wf_free [OF wf i q] unfolding none .
  then show "slab_inv s'" unfolding slab_inv_def by blast
  show len: "length (s_entries s') = length (s_entries s)" by (simp add: s'_def slab_free_entry_def)
  have other: "s_entries s' ! j = s_entries s ! j" if "j \<noteq> wk_index k" for j
    using that by (simp add: s'_def slab_free_entry_def)
  have "s_entries s' ! j = s_entries s ! j" if "j \<in> set q" for j
    using other [of j] that q(1) by (cases "j = wk_index k") simp_all
  then show "line s' = line s" by (intro line_frame [OF wf wf']) simp
  have free: "wst s' (wk_index k) = Free" using i by (simp add: s'_def slab_free_entry_def)
  show "status s' = (status s)(k := Free)"
  proof
    fix k'
    show "status s' k' = ((status s)(k := Free)) k'"
    proof (cases "wk_index k' = wk_index k")
      case True
      then have "status s' k' = Free" using free len by (simp add: status_at)
      then show ?thesis using status_same_index [OF k _ True] by auto
    next
      case False
      then show ?thesis using other len by (auto simp: status_at)
    qed
  qed
  show "granted s' + (if status s k = Granted then need_at s k else 0) = granted s"
  proof -
    have "status s k = wst s (wk_index k)" using k by (simp add: status_at split: if_splits)
    then show ?thesis
      unfolding granted_def need_at_eq [OF k] s'_def slab_free_entry_def
      using granted_update [OF i, of "\<lambda>e. if w_state e = Granted then w_need e else 0"] by simp
  qed
qed

lemma settled_not_listed:
  assumes wf: "slab_wf s q F {}" and "status s k \<noteq> Free"
  shows "wk_index k \<notin> set F" and "status s k \<noteq> Waiting \<Longrightarrow> wk_index k \<notin> set q"
proof -
  have st: "wst s (wk_index k) = status s k" using assms(2) by (simp add: status_at split: if_splits)
  show "wk_index k \<notin> set F" using wf_set [OF wf] st assms(2) by auto
  show "status s k \<noteq> Waiting \<Longrightarrow> wk_index k \<notin> set q" using wq_set [OF wf] st by auto
qed

lemma take_law:
  assumes inv: "slab_inv s" and k: "status s k = Granted \<or> status s k = Closed"
  shows "slab_inv (waiters_take k s)" and "line (waiters_take k s) = line s"
    and "status (waiters_take k s) = (status s)(k := Free)"
    and "granted (waiters_take k s) + (if status s k = Granted then need_at s k else 0) = granted s"
    and "length (s_entries (waiters_take k s)) = length (s_entries s)"
proof -
  obtain q F where wf: "slab_wf s q F {}" using inv unfolding slab_inv_def by blast
  have st: "status s k \<noteq> Free" "status s k \<noteq> Waiting" "w_state (s_entries s ! wk_index k) = status s k"
    using k by (auto simp: status_at split: if_splits)
  have t: "waiters_take k s = slab_free_entry (wk_index k) s"
    using st by (simp add: waiters_take_def slab_live_eq)
  note v = free_view [OF wf st(1) settled_not_listed(2) [OF wf st(1,2)] settled_not_listed(1) [OF wf st(1)]]
  show "slab_inv (waiters_take k s)" "line (waiters_take k s) = line s"
    "status (waiters_take k s) = (status s)(k := Free)"
    "granted (waiters_take k s) + (if status s k = Granted then need_at s k else 0) = granted s"
    "length (s_entries (waiters_take k s)) = length (s_entries s)"
    unfolding t using v by simp_all
qed

lemma take_idle: "status s k = Free \<or> status s k = Waiting \<Longrightarrow> waiters_take k s = s"
  by (auto simp: waiters_take_def slab_live_eq status_at split: if_splits)

lemma cancel_stale: "status s k = Free \<Longrightarrow> waiters_cancel k s = ((Free, False, None), s)"
  by (simp add: waiters_cancel_def slab_live_eq)

lemma unlink_waker_commute:
  assumes "wpv s i \<noteq> i" and "wnx s i \<noteq> i" and i: "i < length (s_entries s)"
  shows "slab_free_entry i (slab_unlink i (upd_wentry i (\<lambda>e. e\<lparr>w_waker := None\<rparr>) s)) =
    slab_free_entry i (slab_unlink i s)" (is "?l = ?r")
proof -
  have "s_entries ?l ! j = s_entries ?r ! j" if "j < length (s_entries s)" for j
    using assms that by (auto simp: slab_free_entry_def slab_unlink_def Let_def nth_upd)
  then have "s_entries ?l = s_entries ?r"
    by (intro nth_equalityI) (auto simp: slab_free_entry_def)
  moreover have "s_head ?l = s_head ?r" "s_tail ?l = s_tail ?r" "s_free ?l = s_free ?r"
    using i by (auto simp: slab_free_entry_def slab_unlink_def Let_def)
  ultimately show ?thesis by simp
qed

lemma cancel_settled:
  assumes inv: "slab_inv s" and k: "status s k = Granted \<or> status s k = Closed"
  shows "snd (waiters_cancel k s) = waiters_take k s"
    and "fst (fst (waiters_cancel k s)) = status s k" and "fst (snd (fst (waiters_cancel k s))) = False"
proof -
  have st: "status s k \<noteq> Free" "status s k \<noteq> Waiting" "w_state (s_entries s ! wk_index k) = status s k"
    using k by (auto simp: status_at split: if_splits)
  have i: "wk_index k < length (s_entries s)" by (rule status_bound [OF st(1)])
  show "snd (waiters_cancel k s) = waiters_take k s"
    "fst (fst (waiters_cancel k s)) = status s k" "fst (snd (fst (waiters_cancel k s))) = False"
    using st i
    by (simp_all add: waiters_cancel_def waiters_take_def slab_live_eq Let_def slab_free_entry_def)
qed

lemma line_key_index:
  assumes "status s k \<noteq> Free"
  shows "fst (wview s x) = k \<longleftrightarrow> x = wk_index k"
  using assms by (cases k) (auto simp: wview_def status_at split: if_splits)

lemma cancel_waiting:
  assumes inv: "slab_inv s" and k: "status s k = Waiting"
  obtains w s' where "waiters_cancel k s = ((Waiting, fst (hd (line s)) = k, w), s')" and "slab_inv s'"
    and "line s' = filter (\<lambda>e. fst e \<noteq> k) (line s)" and "status s' = (status s)(k := Free)"
    and "granted s' = granted s" and "length (s_entries s') = length (s_entries s)"
proof -
  obtain q F where wf: "slab_wf s q F {}" using inv unfolding slab_inv_def by blast
  have nf: "status s k \<noteq> Free" using k by simp
  define i where "i = wk_index k"
  have i: "i < length (s_entries s)" "wst s i = Waiting"
    using status_bound [OF nf] k by (auto simp: i_def status_at split: if_splits)
  have "i \<in> set q" using i wq_set [OF wf] by simp
  then obtain xs ys where q: "q = xs @ i # ys" by (meson split_list)
  have wf0: "slab_wf s (xs @ i # ys) F {}" using wf q by simp
  have d: "distinct (xs @ i # ys)" by (rule wq_distinct [OF wf0])
  have no: "NIL \<notin> set (xs @ i # ys)" by (rule chain_no_NIL [OF wq_chain [OF wf0]])
  have pvi: "wpv s i \<noteq> i"
    using prevs_mid [OF wq_prevs [OF wf0]] d no last_in_set [of xs] by (auto split: if_splits)
  have nxi: "wnx s i \<noteq> i"
    using chain_mid [OF wq_chain [OF wf0]] d no by (auto split: list.splits)
  define s1 where "s1 = slab_unlink i s"
  note f = slab_unlink_fields [where i = i and s = s, folded s1_def]
  have len: "length (s_entries s1) = length (s_entries s)" by (simp add: s1_def)
  have wf1: "slab_wf s1 (xs @ ys) F {i}" unfolding s1_def by (rule slab_wf_unlink [OF wf0])
  have st1: "status s1 k' = status s k'" for k' using f len by (intro status_frame) auto
  have notin: "i \<notin> set (xs @ ys)" "i \<notin> set F" using d slab_wf_bounds(4) [OF wf0] by auto
  have gr1: "granted s1 = granted s" using f len by (intro granted_cong) auto
  define s' where "s' = slab_free_entry i s1"
  have nf1: "status s1 k \<noteq> Free" using st1 nf by simp
  note v = free_view [OF wf1 nf1, folded i_def, OF notin subset_refl, folded s'_def]
  have view: "wview s1 j = wview s j" if "j < length (s_entries s)" for j using f [OF that] by (simp add: wview_def)
  have "line s1 = map (wview s) (xs @ ys)"
    unfolding line_eq [OF wf1] using view slab_wf_bounds(1) [OF wf0] by auto
  also have "\<dots> = filter (\<lambda>e. fst e \<noteq> k) (line s)"
  proof -
    have "fst (wview s x) = k \<longleftrightarrow> x = i" for x
      unfolding i_def by (rule line_key_index [OF nf])
    moreover have "filter (\<lambda>x. x \<noteq> i) zs = zs" if "i \<notin> set zs" for zs
      using that by (auto intro!: filter_True)
    ultimately show ?thesis
      unfolding line_eq [OF wf0] using d by (simp add: filter_map comp_def)
  qed
  finally have line: "line s' = filter (\<lambda>e. fst e \<noteq> k) (line s)" using v(2) by simp
  have front: "s_head s = i \<longleftrightarrow> fst (hd (line s)) = k"
  proof -
    have "s_head s = hd q" using chain_head [OF wq_chain [OF wf]] q by (cases xs) simp_all
    moreover have "fst (hd (line s)) = fst (wview s (hd q))"
      unfolding line_eq [OF wf] using q by (subst hd_map) simp_all
    ultimately show ?thesis using line_key_index [OF nf, of "hd q"] by (simp add: i_def)
  qed
  have "waiters_cancel k s = ((Waiting, fst (hd (line s)) = k, w_waker (s_entries s ! i)), s')"
    using nf i unlink_waker_commute [OF pvi nxi i(1)] front
    by (simp add: waiters_cancel_def slab_live_eq Let_def i_def [symmetric] s'_def s1_def)
  moreover have "granted s' = granted s" using v(4) st1 k gr1 by simp
  ultimately show thesis using that v(1,3,5) line st1 len by (simp add: fun_eq_iff)
qed

subsection \<open>Replacing a waker\<close>

definition rewake :: "wkey \<Rightarrow> 'w \<Rightarrow> wkey \<times> nat \<times> 'w option \<Rightarrow> wkey \<times> nat \<times> 'w option" where
  "rewake k fresh e = (if fst e = k then (k, fst (snd e), Some fresh) else e)"

lemma refresh_idle:
  "status s k \<noteq> Waiting \<Longrightarrow> refresh_step k fresh s = (status s k, Some fresh, s)"
  by (auto simp: refresh_step_def slab_live_eq status_at split: if_splits)

lemma refresh_waiting:
  assumes inv: "slab_inv s" and k: "status s k = Waiting"
  obtains w s' where "refresh_step k fresh s = (Waiting, w, s')" and "slab_inv s'"
    and "line s' = map (rewake k fresh) (line s)" and "status s' = status s"
    and "granted s' = granted s" and "length (s_entries s') = length (s_entries s)"
proof -
  obtain q F where wf: "slab_wf s q F {}" using inv unfolding slab_inv_def by blast
  define i where "i = wk_index k"
  have nf: "status s k \<noteq> Free" using k by simp
  have i: "i < length (s_entries s)" "wst s i = Waiting"
    using status_bound [OF nf] k by (auto simp: i_def status_at split: if_splits)
  define s' where "s' = upd_wentry i (\<lambda>e. e\<lparr>w_waker := Some fresh\<rparr>) s"
  have at: "s_entries s' ! j = (if j = i then (s_entries s ! i)\<lparr>w_waker := Some fresh\<rparr> else s_entries s ! j)"
    for j using i(1) by (simp add: s'_def)
  have len: "length (s_entries s') = length (s_entries s)" by (simp add: s'_def)
  have wf': "slab_wf s' q F {}"
  proof (rule slab_wf_frame [OF wf len])
    show "wnx s' j = wnx s j \<and> wpv s' j = wpv s j \<and> w_waker (s_entries s' ! j) \<noteq> None" if "j \<in> set q" for j
      using wq_waker [OF wf that] by (simp add: at)
    show "in_state s' Waiting - {} = in_state s Waiting - {}" "in_state s' Free - {} = in_state s Free - {}"
      using len by (auto simp: at split: if_splits)
    show "wnx s' j = wnx s j" for j by (simp add: at)
  qed (simp_all add: s'_def)
  have "refresh_step k fresh s = (Waiting, w_waker (s_entries s ! i), s')"
    using k i by (simp add: refresh_step_def slab_live_eq s'_def i_def)
  moreover have "line s' = map (rewake k fresh) (line s)"
  proof -
    have "wview s' j = rewake k fresh (wview s j)" for j
      using line_key_index [OF nf, of j] i by (auto simp: wview_def rewake_def at i_def)
    then show ?thesis unfolding line_eq [OF wf] line_eq [OF wf'] by simp
  qed
  moreover have "status s' = status s"
    using len by (intro ext status_frame) (auto simp: at)
  moreover have "granted s' = granted s" using len by (intro granted_cong) (auto simp: at)
  ultimately show thesis using that wf' len unfolding slab_inv_def by blast
qed

subsection \<open>The interface of a line of waiters\<close>

locale wait_line =
  fixes inv :: "'s \<Rightarrow> bool" and line_of :: "'s \<Rightarrow> ('k \<times> nat \<times> 'w option) list"
    and state_of :: "'s \<Rightarrow> 'k \<Rightarrow> wstate" and used :: "'s \<Rightarrow> nat" and capacity :: nat
    and push :: "nat \<Rightarrow> 'w \<Rightarrow> 's \<Rightarrow> 'k \<times> 's"
    and pop :: "wstate \<Rightarrow> 's \<Rightarrow> (nat \<times> 'w option) option \<times> 's"
    and cancel :: "'k \<Rightarrow> 's \<Rightarrow> (wstate \<times> bool \<times> 'w option) \<times> 's"
  assumes waiting_law: "inv s \<Longrightarrow> state_of s k = Waiting \<longleftrightarrow> k \<in> fst ` set (line_of s)"
    and distinct_law: "inv s \<Longrightarrow> distinct (map fst (line_of s))"
    and push_line: "inv s \<Longrightarrow> used s < capacity \<Longrightarrow> inv (snd (push n v s))
      \<and> line_of (snd (push n v s)) = line_of s @ [(fst (push n v s), n, Some v)]
      \<and> state_of s (fst (push n v s)) = Free
      \<and> state_of (snd (push n v s)) = (state_of s)(fst (push n v s) := Waiting)
      \<and> used (snd (push n v s)) \<le> Suc (used s)"
    and pop_nil: "inv s \<Longrightarrow> line_of s = [] \<Longrightarrow> pop st s = (None, s)"
    and pop_cons: "inv s \<Longrightarrow> line_of s = (k, n, w) # Q \<Longrightarrow> st \<noteq> Waiting \<Longrightarrow> st \<noteq> Free \<Longrightarrow>
      fst (pop st s) = Some (n, w) \<and> inv (snd (pop st s)) \<and> line_of (snd (pop st s)) = Q
      \<and> state_of (snd (pop st s)) = (state_of s)(k := st) \<and> used (snd (pop st s)) = used s"
    and cancel_line: "inv s \<Longrightarrow> inv (snd (cancel k s))
      \<and> line_of (snd (cancel k s)) = filter (\<lambda>e. fst e \<noteq> k) (line_of s)
      \<and> state_of (snd (cancel k s)) = (state_of s)(k := Free) \<and> used (snd (cancel k s)) = used s
      \<and> fst (fst (cancel k s)) = state_of s k"
begin

lemma pop_keys:
  assumes "inv s" and "st \<noteq> Waiting" "st \<noteq> Free"
  shows "inv (snd (pop st s))" and "List.take 1 (map fst (line_of s)) @ map fst (line_of (snd (pop st s))) = map fst (line_of s)"
    and "used (snd (pop st s)) = used s"
proof -
  have "inv (snd (pop st s)) \<and> List.take 1 (map fst (line_of s)) @ map fst (line_of (snd (pop st s))) = map fst (line_of s)
    \<and> used (snd (pop st s)) = used s"
  proof (cases "line_of s")
    case Nil
    then show ?thesis using pop_nil [OF assms(1) Nil, of st] assms(1) by simp
  next
    case (Cons e Q)
    obtain k n w where "e = (k, n, w)" by (cases e)
    then show ?thesis using pop_cons [OF assms(1) _ assms(2,3), of k n w Q] Cons by simp
  qed
  then show "inv (snd (pop st s))" "used (snd (pop st s)) = used s"
    "List.take 1 (map fst (line_of s)) @ map fst (line_of (snd (pop st s))) = map fst (line_of s)" by auto
qed

lemma cancel_keys:
  assumes "inv s"
  shows "map fst (line_of (snd (cancel k s))) = filter (\<lambda>k'. k' \<noteq> k) (map fst (line_of s))"
    and "mset (map fst (line_of (snd (cancel k s)))) + mset (if state_of s k = Waiting then [k] else [])
      = mset (map fst (line_of s))"
proof -
  show f: "map fst (line_of (snd (cancel k s))) = filter (\<lambda>k'. k' \<noteq> k) (map fst (line_of s))"
    using cancel_line [OF assms, of k] by (simp add: filter_map comp_def)
  have "mset (filter (\<lambda>k'. k' \<noteq> k) xs) + mset (if k \<in> set xs then [k] else []) = mset xs"
    if "distinct xs" for xs :: "'k list"
    using that by (induction xs) (auto simp: filter_id_conv)
  from this [OF distinct_law [OF assms]]
  show "mset (map fst (line_of (snd (cancel k s)))) + mset (if state_of s k = Waiting then [k] else [])
      = mset (map fst (line_of s))"
    unfolding f using waiting_law [OF assms, of k] by (simp only: set_map)
qed

text \<open>No step lets a later waiter out before an earlier one: whoever leaves at the front was first.\<close>

lemma front_was_first:
  assumes "inv s" and "st \<noteq> Waiting" "st \<noteq> Free" and "state_of s k = Waiting" and "state_of (snd (pop st s)) k \<noteq> Waiting"
  shows "fst (hd (line_of s)) = k"
proof (cases "line_of s")
  case Nil
  then show ?thesis using waiting_law [OF assms(1), of k] assms(4) by simp
next
  case (Cons e Q)
  obtain k' n w where e: "e = (k', n, w)" by (cases e)
  then have "state_of (snd (pop st s)) = (state_of s)(k' := st)"
    using pop_cons [OF assms(1) _ assms(2,3), of k' n w Q] Cons by simp
  then show ?thesis using assms(4,5) Cons e by (auto split: if_splits)
qed

end

lemma push_used:
  "slab_inv s \<Longrightarrow> length (s_entries s) < NIL \<Longrightarrow>
     length (s_entries (snd (slab_push n v s))) \<le> Suc (length (s_entries s))"
proof -
  assume "slab_inv s" and room: "length (s_entries s) < NIL"
  then obtain q F where wf: "slab_wf s q F {}" unfolding slab_inv_def by blast
  show ?thesis using slab_push_fields(4) [OF wf room, of n v] by simp
qed

interpretation wl: wait_line slab_inv line status "\<lambda>s. length (s_entries s)" NIL slab_push slab_pop_front
  waiters_cancel
proof
  fix s :: "'w slab" and k
  assume "slab_inv s"
  then show "status s k = Waiting \<longleftrightarrow> k \<in> fst ` set (line s)" "distinct (map fst (line s))"
    by (rule line_status)+
next
  fix s :: "'w slab" and n v
  assume inv: "slab_inv s" "length (s_entries s) < NIL"
  show "slab_inv (snd (slab_push n v s))
      \<and> line (snd (slab_push n v s)) = line s @ [(fst (slab_push n v s), n, Some v)]
      \<and> status s (fst (slab_push n v s)) = Free
      \<and> status (snd (slab_push n v s)) = (status s)(fst (slab_push n v s) := Waiting)
      \<and> length (s_entries (snd (slab_push n v s))) \<le> Suc (length (s_entries s))"
    by (rule push_law [OF inv, of n v]) (simp add: push_used [OF inv])
next
  fix s :: "'w slab" and st
  assume "slab_inv s" "line s = []"
  then show "slab_pop_front st s = (None, s)" by (rule pop_empty)
next
  fix s :: "'w slab" and k n w Q st
  assume a: "slab_inv s" "line s = (k, n, w) # Q" "st \<noteq> Waiting" "st \<noteq> Free"
  show "fst (slab_pop_front st s) = Some (n, w) \<and> slab_inv (snd (slab_pop_front st s))
      \<and> line (snd (slab_pop_front st s)) = Q
      \<and> status (snd (slab_pop_front st s)) = (status s)(k := st)
      \<and> length (s_entries (snd (slab_pop_front st s))) = length (s_entries s)"
    by (rule pop_law [OF a]) simp
next
  fix s :: "'w slab" and k
  assume inv: "slab_inv s"
  have notin: "filter (\<lambda>e. fst e \<noteq> k) (line s) = line s" if "status s k \<noteq> Waiting"
    using line_status(1) [OF inv, of k] that by (auto intro!: filter_True)
  consider "status s k = Free" | "status s k = Waiting" | "status s k = Granted \<or> status s k = Closed"
    by (cases "status s k") auto
  then show "slab_inv (snd (waiters_cancel k s))
      \<and> line (snd (waiters_cancel k s)) = filter (\<lambda>e. fst e \<noteq> k) (line s)
      \<and> status (snd (waiters_cancel k s)) = (status s)(k := Free)
      \<and> length (s_entries (snd (waiters_cancel k s))) = length (s_entries s)
      \<and> fst (fst (waiters_cancel k s)) = status s k"
  proof cases
    case 1
    then show ?thesis using cancel_stale [OF 1] notin inv by (simp add: fun_upd_idem)
  next
    case 2
    show ?thesis by (rule cancel_waiting [OF inv 2]) (simp add: 2)
  next
    case 3
    then show ?thesis
      using cancel_settled [OF inv 3] take_law [OF inv 3] notin by auto
  qed
qed

subsection \<open>Runs of the line\<close>

datatype 'w line_op = Join nat 'w | Serve_front | Close_front | Give_up wkey | Collect wkey | Rewake wkey 'w

text \<open>One operation: the key that left at the front, the key that arrived, the key that gave up its
  place, and the slab after.\<close>

fun line_step :: "'w line_op \<Rightarrow> 'w slab \<Rightarrow> (wkey list \<times> wkey list \<times> wkey list) \<times> 'w slab" where
  "line_step (Join n w) s = (([], [fst (slab_push n w s)], []), snd (slab_push n w s))"
| "line_step Serve_front s = ((List.take 1 (map fst (line s)), [], []), snd (slab_pop_front Granted s))"
| "line_step Close_front s = ((List.take 1 (map fst (line s)), [], []), snd (close_front s))"
| "line_step (Give_up k) s = (([], [], if status s k = Waiting then [k] else []), snd (waiters_cancel k s))"
| "line_step (Collect k) s = (([], [], []), waiters_take k s)"
| "line_step (Rewake k w) s = (([], [], []), snd (snd (refresh_step k w s)))"

fun line_run :: "'w line_op list \<Rightarrow> 'w slab \<Rightarrow> (wkey list \<times> wkey list \<times> wkey list) \<times> 'w slab" where
  "line_run [] s = (([], [], []), s)"
| "line_run (op # ops) s =
     (let ((p, a, g), s1) = line_step op s; ((p', a', g'), s2) = line_run ops s1
      in ((p @ p', a @ a', g @ g'), s2))"

abbreviation joins :: "'w line_op list \<Rightarrow> nat" where
  "joins ops \<equiv> length (filter (\<lambda>op. case op of Join _ _ \<Rightarrow> True | _ \<Rightarrow> False) ops)"

lemma close_front_pop: "snd (close_front s) = snd (slab_pop_front Closed s)"
  by (simp add: close_front_def split: prod.split)

lemma take_keys:
  assumes "slab_inv s"
  shows "slab_inv (waiters_take k s)" and "line (waiters_take k s) = line s"
    and "length (s_entries (waiters_take k s)) = length (s_entries s)"
proof -
  consider "status s k = Free \<or> status s k = Waiting" | "status s k = Granted \<or> status s k = Closed"
    by (cases "status s k") auto
  then have "slab_inv (waiters_take k s) \<and> line (waiters_take k s) = line s
    \<and> length (s_entries (waiters_take k s)) = length (s_entries s)"
    using take_idle [of s k] take_law [OF assms, of k] assms by cases simp_all
  then show "slab_inv (waiters_take k s)" "line (waiters_take k s) = line s"
    "length (s_entries (waiters_take k s)) = length (s_entries s)" by auto
qed

lemma refresh_keys:
  assumes "slab_inv s"
  shows "slab_inv (snd (snd (refresh_step k w s)))"
    and "map fst (line (snd (snd (refresh_step k w s)))) = map fst (line s)"
    and "status (snd (snd (refresh_step k w s))) = status s"
    and "granted (snd (snd (refresh_step k w s))) = granted s"
    and "length (s_entries (snd (snd (refresh_step k w s)))) = length (s_entries s)"
    and "fst (refresh_step k w s) = status s k"
    and "map (\<lambda>e. (fst e, fst (snd e))) (line (snd (snd (refresh_step k w s)))) = map (\<lambda>e. (fst e, fst (snd e))) (line s)"
proof -
  let ?s = "snd (snd (refresh_step k w s))"
  have "slab_inv ?s \<and> status ?s = status s \<and> granted ?s = granted s
    \<and> length (s_entries ?s) = length (s_entries s) \<and> fst (refresh_step k w s) = status s k
    \<and> map (\<lambda>e. (fst e, fst (snd e))) (line ?s) = map (\<lambda>e. (fst e, fst (snd e))) (line s)"
  proof (cases "status s k = Waiting")
    case True
    show ?thesis
      by (rule refresh_waiting [OF assms True, of w]) (auto simp: True rewake_def)
  next
    case False
    then show ?thesis using refresh_idle [OF False, of w] assms by simp
  qed
  then show "slab_inv ?s" "status ?s = status s" "granted ?s = granted s"
    "length (s_entries ?s) = length (s_entries s)" "fst (refresh_step k w s) = status s k"
    and m: "map (\<lambda>e. (fst e, fst (snd e))) (line ?s) = map (\<lambda>e. (fst e, fst (snd e))) (line s)" by auto
  show "map fst (line ?s) = map fst (line s)" using arg_cong [OF m, of "map fst"] by (simp add: comp_def)
qed

lemma line_step_order:
  assumes "slab_inv s" and "length (s_entries s) + joins [op] \<le> NIL" and r: "line_step op s = ((p, a, g), s')"
  shows "slab_inv s'" and "length (s_entries s') \<le> length (s_entries s) + joins [op]"
    and "subseq (p @ map fst (line s')) (map fst (line s) @ a)"
    and "mset (p @ map fst (line s')) + mset g = mset (map fst (line s) @ a)"
proof -
  have "slab_inv s' \<and> length (s_entries s') \<le> length (s_entries s) + joins [op]
    \<and> subseq (p @ map fst (line s')) (map fst (line s) @ a)
    \<and> mset (p @ map fst (line s')) + mset g = mset (map fst (line s) @ a)"
  proof (cases op)
    case (Join n w)
    then have "length (s_entries s) < NIL" using assms(2) by simp
    then show ?thesis using wl.push_line [OF assms(1), of n w] Join r by auto
  next
    case Serve_front
    note pk = wl.pop_keys [OF assms(1), of Granted]
    show ?thesis using pk Serve_front r by (auto simp flip: mset_append mset_map)
  next
    case Close_front
    note pk = wl.pop_keys [OF assms(1), of Closed]
    show ?thesis using pk Close_front r by (auto simp: close_front_pop simp flip: mset_append mset_map)
  next
    case (Give_up k)
    note ck = wl.cancel_keys [OF assms(1), of k]
    have g: "p = []" "a = []" "g = (if status s k = Waiting then [k] else [])" "s' = snd (waiters_cancel k s)"
      using Give_up r by auto
    have "subseq (map fst (line s')) (map fst (line s))" unfolding g ck(1) by (rule subseq_filter_left)
    then show ?thesis using wl.cancel_line [OF assms(1), of k] ck(2) Give_up unfolding g by simp
  next
    case (Collect k)
    then show ?thesis using take_keys [OF assms(1), of k] r by auto
  next
    case (Rewake k w)
    then show ?thesis using refresh_keys [OF assms(1), of k w] r by (auto simp flip: mset_map)
  qed
  then show "slab_inv s'" "length (s_entries s') \<le> length (s_entries s) + joins [op]"
    "subseq (p @ map fst (line s')) (map fst (line s) @ a)"
    "mset (p @ map fst (line s')) + mset g = mset (map fst (line s) @ a)" by blast+
qed

lemma line_run_order:
  assumes "slab_inv s" and "length (s_entries s) + joins ops \<le> NIL" and "line_run ops s = ((p, a, g), s')"
  shows "slab_inv s' \<and> subseq (p @ map fst (line s')) (map fst (line s) @ a)
    \<and> mset (p @ map fst (line s')) + mset g = mset (map fst (line s) @ a)"
  using assms
proof (induction ops arbitrary: s p a g)
  case (Cons op ops)
  obtain p1 a1 g1 s1 where r1: "line_step op s = ((p1, a1, g1), s1)" by (cases "line_step op s") auto
  obtain p2 a2 g2 s2 where r2: "line_run ops s1 = ((p2, a2, g2), s2)" by (cases "line_run ops s1") auto
  have eq: "p = p1 @ p2" "a = a1 @ a2" "g = g1 @ g2" "s' = s2" using Cons.prems(3) r1 r2 by auto
  have "joins (op # ops) = joins [op] + joins ops" by simp
  then have room: "length (s_entries s) + joins [op] \<le> NIL"
    "length (s_entries s) + joins [op] + joins ops \<le> NIL" using Cons.prems(2) by linarith+
  note one = line_step_order [OF Cons.prems(1) room(1) r1]
  have IH: "slab_inv s2" "subseq (p2 @ map fst (line s2)) (map fst (line s1) @ a2)"
    "mset (p2 @ map fst (line s2)) + mset g2 = mset (map fst (line s1) @ a2)"
    using Cons.IH [OF one(1) _ r2 [folded eq(4)]] one(2) room(2) eq(4) by auto
  have "subseq (p1 @ p2 @ map fst (line s2)) (p1 @ map fst (line s1) @ a2)"
    using IH(2) by (simp only: subseq_append')
  moreover have "subseq ((p1 @ map fst (line s1)) @ a2) ((map fst (line s) @ a1) @ a2)"
    using one(3) by (simp only: subseq_append)
  ultimately have "subseq (p1 @ p2 @ map fst (line s2)) (map fst (line s) @ a1 @ a2)"
    unfolding append_assoc by (rule subseq_order.trans)
  then have "subseq (p @ map fst (line s')) (map fst (line s) @ a)" unfolding eq append_assoc .
  moreover have "mset (p @ map fst (line s')) + mset g = mset (map fst (line s) @ a)"
  proof -
    have "mset (p @ map fst (line s')) + mset g = mset p1 + (mset (p2 @ map fst (line s2)) + mset g2) + mset g1"
      unfolding eq by simp
    also have "\<dots> = (mset (p1 @ map fst (line s1)) + mset g1) + mset a2" unfolding IH(3) by simp
    finally show ?thesis unfolding one(4) eq by simp
  qed
  ultimately show ?case using IH(1) eq by blast
qed simp

text \<open>
  C8: The line is first come, first served.  After any run of joins, services, closings, refreshes and
  cancelled waits, the keys that left at the front, in that order, followed by the keys still
  waiting are the keys that were waiting and then those that joined, in their order, except exactly the keys
  that gave up their place while they waited; and the slab is well formed.
\<close>

theorem line_is_fifo:
  assumes "slab_inv s" and "length (s_entries s) + joins ops \<le> NIL" and "line_run ops s = ((p, a, g), s')"
  shows "slab_inv s' \<and> subseq (p @ map fst (line s')) (map fst (line s) @ a)
    \<and> mset (p @ map fst (line s')) + mset g = mset (map fst (line s) @ a)"
  by (rule line_run_order [OF assms])

definition demo_ops :: "nat line_op list" where
  "demo_ops = [Join 2 5, Join 1 6, Give_up \<lparr>wk_index = 0, wk_generation = 0\<rparr>, Serve_front]"

theorem line_is_fifo_witness:
  "slab_inv (slab_new :: nat slab)
   \<and> (\<exists>p a g s'. line_run demo_ops slab_new = ((p, a, g), s') \<and> subseq (p @ map fst (line s')) a
       \<and> mset (p @ map fst (line s')) + mset g = mset a \<and> length a = 2)"
proof -
  obtain p a g s' where r: "line_run demo_ops slab_new = ((p, a, g), s')"
    by (cases "line_run demo_ops slab_new") auto
  have room: "length (s_entries (slab_new :: nat slab)) + joins demo_ops \<le> NIL"
    by (simp add: demo_ops_def slab_new_def NIL_def usize_max_def)
  have "length a = 2" using r by (auto simp: demo_ops_def split: prod.splits)
  then show ?thesis
    using line_is_fifo [OF slab_inv_new room r] r slab_inv_new by (auto simp: line_new)
qed

end
