(* ===== verification/Local_Semaphore.thy ===== *)
theory Local_Semaphore
  imports Waiters_Line
begin

text \<open>
  The first-come, first-served counting semaphore of one shard,
  \<open>src/src/sync/local/semaphore.rs\<close>, and the mutex built on it, \<open>src/src/sync/local/mutex.rs\<close>.
  The semaphore's cells extend the context record, so that code of the user (the parameter \<open>u\<close>)
  may act on all of it.  An operation that may run code of the user in a loop answers \<open>None\<close> when it
  does not return.  Panics of the source are the left injection of a sum; the unwinding guard
  \<open>ServeRest\<close> is not modelled.
\<close>

subsection \<open>The state\<close>

record ('w, 'e) sem = "'e ctx" +
  permits :: int
  sem_closed :: bool
  sem_waiters :: "'w slab"

abbreviation put_waiters :: "'w slab \<Rightarrow> ('w, 'e, 'x) sem_scheme \<Rightarrow> ('w, 'e, 'x) sem_scheme" where
  "put_waiters w s \<equiv> s\<lparr>sem_waiters := w\<rparr>"

datatype panic = Too_many_permits | Too_large_request | Different_semaphores | Completed_twice | Unreachable | Empty_buffer

datatype try_acquire_error = Acquire_Closed | NoPermits

definition MAX_PERMITS :: nat where
  "MAX_PERMITS = usize_max div 8"

definition sem_init :: "nat \<Rightarrow> ('w, 'e, 'x) sem_scheme \<Rightarrow> panic + ('w, 'e, 'x) sem_scheme" where
  "sem_init n s =
     (if n \<le> MAX_PERMITS
      then Inr (s\<lparr>permits := as_isize n, sem_closed := False, sem_waiters := slab_new\<rparr>)
      else Inl Too_many_permits)"

definition available_permits :: "('w, 'e, 'x) sem_scheme \<Rightarrow> nat" where
  "available_permits s = nat (max (permits s) 0)"

subsection \<open>Serving the line\<close>

partial_function (option) serve_waiters :: "('w ucall \<Rightarrow> ('w, 'e, 'x) sem_scheme \<Rightarrow> ('w, 'e, 'x) sem_scheme)
    \<Rightarrow> ('w, 'e, 'x) sem_scheme \<Rightarrow> ('w, 'e, 'x) sem_scheme option" where
  "serve_waiters u s =
     (if permits s < 0 then Some s
      else
        (case grant_front_if (nat (permits s)) (sem_waiters s) of
           (None, _) \<Rightarrow> Some s
         | (Some (need, waker), slab) \<Rightarrow>
             serve_waiters u
               (wake_waker u waker (s\<lparr>sem_waiters := slab, permits := permits s - as_isize need\<rparr>))))"

declare serve_waiters.simps [code]

definition serve :: "('w ucall \<Rightarrow> ('w, 'e, 'x) sem_scheme \<Rightarrow> ('w, 'e, 'x) sem_scheme)
    \<Rightarrow> ('w, 'e, 'x) sem_scheme \<Rightarrow> ('w, 'e, 'x) sem_scheme option" where
  "serve u s =
     (if sem_closed s then Some s
      else if 0 \<le> permits s \<and> front_fits (nat (permits s)) (sem_waiters s) then serve_waiters u s
      else Some s)"

definition add_permits :: "('w ucall \<Rightarrow> ('w, 'e, 'x) sem_scheme \<Rightarrow> ('w, 'e, 'x) sem_scheme) \<Rightarrow> nat
    \<Rightarrow> ('w, 'e, 'x) sem_scheme \<Rightarrow> (panic + ('w, 'e, 'x) sem_scheme) option" where
  "add_permits u n s =
     (let total = isize_saturating_add (permits s) (as_isize (min n (MAX_PERMITS + 1)))
      in if total \<le> as_isize MAX_PERMITS then map_option Inr (serve u (s\<lparr>permits := total\<rparr>))
         else Some (Inl Too_many_permits))"

definition forget_permits :: "nat \<Rightarrow> ('w, 'e, 'x) sem_scheme \<Rightarrow> nat \<times> ('w, 'e, 'x) sem_scheme" where
  "forget_permits n s =
     (let removed = min n (available_permits s) in (removed, s\<lparr>permits := permits s - as_isize removed\<rparr>))"

definition sem_release :: "('w ucall \<Rightarrow> ('w, 'e, 'x) sem_scheme \<Rightarrow> ('w, 'e, 'x) sem_scheme) \<Rightarrow> nat
    \<Rightarrow> ('w, 'e, 'x) sem_scheme \<Rightarrow> ('w, 'e, 'x) sem_scheme option" where
  "sem_release u n s = serve u (s\<lparr>permits := isize_saturating_add (permits s) (as_isize n)\<rparr>)"

definition sem_debit :: "nat \<Rightarrow> ('w, 'e, 'x) sem_scheme \<Rightarrow> ('w, 'e, 'x) sem_scheme" where
  "sem_debit n s = s\<lparr>permits := permits s - as_isize n\<rparr>"

definition sem_holds :: "nat \<Rightarrow> ('w, 'e, 'x) sem_scheme \<Rightarrow> bool" where
  "sem_holds n s \<longleftrightarrow> permits s = as_isize n"

definition sem_close :: "('w ucall \<Rightarrow> ('w, 'e, 'x) sem_scheme \<Rightarrow> ('w, 'e, 'x) sem_scheme)
    \<Rightarrow> ('w, 'e, 'x) sem_scheme \<Rightarrow> ('w, 'e, 'x) sem_scheme option" where
  "sem_close u s =
     (if sem_closed s then Some s else wake_closed sem_waiters put_waiters u (s\<lparr>sem_closed := True\<rparr>))"

subsection \<open>Permits\<close>

text \<open>A permit names the semaphore it is of, so that merging can compare them.\<close>

record permit =
  p_sem :: nat
  p_permits :: nat

definition checked_permits :: "u32 \<Rightarrow> panic + nat" where
  "checked_permits n = (if unat n \<le> MAX_PERMITS then Inr (unat n) else Inl Too_large_request)"

definition permit_forget :: "permit \<Rightarrow> permit" where
  "permit_forget p = p\<lparr>p_permits := 0\<rparr>"

definition permit_merge :: "permit \<Rightarrow> permit \<Rightarrow> panic + permit \<times> permit" where
  "permit_merge p q =
     (if p_sem p = p_sem q
      then Inr (p\<lparr>p_permits := p_permits p + p_permits q\<rparr>, q\<lparr>p_permits := 0\<rparr>)
      else Inl Different_semaphores)"

definition permit_drop :: "('w ucall \<Rightarrow> ('w, 'e, 'x) sem_scheme \<Rightarrow> ('w, 'e, 'x) sem_scheme) \<Rightarrow> permit
    \<Rightarrow> ('w, 'e, 'x) sem_scheme \<Rightarrow> ('w, 'e, 'x) sem_scheme option" where
  "permit_drop u p s = (if p_permits p > 0 then sem_release u (p_permits p) s else Some s)"

text \<open>Taking permits without waiting.  The result is the number of permits taken.\<close>

definition try_acquire_many :: "u32 \<Rightarrow> ('w, 'e, 'x) sem_scheme
    \<Rightarrow> panic + (try_acquire_error + nat) \<times> ('w, 'e, 'x) sem_scheme" where
  "try_acquire_many n s =
     (case checked_permits n of
        Inl p \<Rightarrow> Inl p
      | Inr k \<Rightarrow>
          Inr (if sem_closed s then (Inl Acquire_Closed, s)
               else if \<not> waiters_is_empty (sem_waiters s) \<or> permits s < as_isize k then (Inl NoPermits, s)
               else (Inr k, s\<lparr>permits := permits s - as_isize k\<rparr>)))"

subsection \<open>Waiting for permits\<close>

record acquire =
  a_n :: nat
  a_key :: "wkey option"

definition acquire_many :: "u32 \<Rightarrow> panic + acquire" where
  "acquire_many n = (case checked_permits n of Inl p \<Rightarrow> Inl p | Inr k \<Rightarrow> Inr \<lparr>a_n = k, a_key = None\<rparr>)"

text \<open>An acquire completes with the number of permits it holds, or fails because the semaphore closed.\<close>

type_synonym acquired = "(unit + nat) poll"

definition acquire_queue :: "('w ucall \<Rightarrow> ('w, 'e, 'x) sem_scheme \<Rightarrow> ('w, 'e, 'x) sem_scheme) \<Rightarrow> 'w \<Rightarrow> acquire
    \<Rightarrow> ('w, 'e, 'x) sem_scheme \<Rightarrow> acquired \<times> acquire \<times> ('w, 'e, 'x) sem_scheme" where
  "acquire_queue u waker a s =
     (let s1 = u (Clone waker) s
      in if sem_closed s1 then (Ready (Inl ()), a, u (Drop waker) (spent_one s1))
         else if waiters_is_empty (sem_waiters s1) \<and> permits s1 \<ge> as_isize (a_n a) then
           (Ready (Inr (a_n a)), a, u (Drop waker) (spent_one (s1\<lparr>permits := permits s1 - as_isize (a_n a)\<rparr>)))
         else
           (case slab_push (a_n a) waker (sem_waiters s1) of
              (key, slab) \<Rightarrow> (Pending, a\<lparr>a_key := Some key\<rparr>, s1\<lparr>sem_waiters := slab\<rparr>)))"

text \<open>The part of the poll after a look at a key: the budget, then the permits, then the line.\<close>

definition acquire_fresh :: "('w ucall \<Rightarrow> ('w, 'e, 'x) sem_scheme \<Rightarrow> ('w, 'e, 'x) sem_scheme) \<Rightarrow> 'w \<Rightarrow> acquire
    \<Rightarrow> ('w, 'e, 'x) sem_scheme \<Rightarrow> acquired \<times> acquire \<times> ('w, 'e, 'x) sem_scheme" where
  "acquire_fresh u waker a s =
     (case exhausted u waker s of
        (True, s1) \<Rightarrow> (Pending, a, s1)
      | (False, s1) \<Rightarrow>
          if sem_closed s1 then (Ready (Inl ()), a, spent_one s1)
          else if waiters_is_empty (sem_waiters s1) \<and> permits s1 \<ge> as_isize (a_n a) then
            (Ready (Inr (a_n a)), a, spent_one (s1\<lparr>permits := permits s1 - as_isize (a_n a)\<rparr>))
          else acquire_queue u waker a s1)"

definition acquire_poll :: "('w ucall \<Rightarrow> ('w, 'e, 'x) sem_scheme \<Rightarrow> ('w, 'e, 'x) sem_scheme) \<Rightarrow> 'w \<Rightarrow> acquire
    \<Rightarrow> ('w, 'e, 'x) sem_scheme \<Rightarrow> acquired \<times> acquire \<times> ('w, 'e, 'x) sem_scheme" where
  "acquire_poll u waker a s =
     (case a_key a of
        None \<Rightarrow> acquire_fresh u waker a s
      | Some key \<Rightarrow>
          (case refresh sem_waiters put_waiters u key waker s of
             (state, s1) \<Rightarrow>
               (case state of
                  Waiting \<Rightarrow> (Pending, a, s1)
                | Granted \<Rightarrow> (Ready (Inr (a_n a)), a\<lparr>a_key := None\<rparr>,
                               s1\<lparr>sem_waiters := waiters_take key (sem_waiters s1)\<rparr>)
                | Closed \<Rightarrow> (Ready (Inl ()), a\<lparr>a_key := None\<rparr>,
                               s1\<lparr>sem_waiters := waiters_take key (sem_waiters s1)\<rparr>)
                | Free \<Rightarrow> acquire_fresh u waker (a\<lparr>a_key := None\<rparr>) s1)))"

definition leave_line :: "('w ucall \<Rightarrow> ('w, 'e, 'x) sem_scheme \<Rightarrow> ('w, 'e, 'x) sem_scheme) \<Rightarrow> acquire
    \<Rightarrow> ('w, 'e, 'x) sem_scheme \<Rightarrow> (acquire \<times> ('w, 'e, 'x) sem_scheme) option" where
  "leave_line u a s =
     (case a_key a of
        None \<Rightarrow> Some (a, s)
      | Some key \<Rightarrow>
          (case waiters_cancel key (sem_waiters s) of
             ((state, was_front, waker), slab) \<Rightarrow>
               (let s1 = drop_waker u waker (s\<lparr>sem_waiters := slab\<rparr>); a1 = a\<lparr>a_key := None\<rparr>
                in map_option (Pair a1)
                     (if state = Waiting \<and> was_front then serve u s1
                      else if state = Granted then sem_release u (a_n a) s1
                      else Some s1))))"

definition acquire_cancel :: "('w ucall \<Rightarrow> ('w, 'e, 'x) sem_scheme \<Rightarrow> ('w, 'e, 'x) sem_scheme) \<Rightarrow> acquire
    \<Rightarrow> ('w, 'e, 'x) sem_scheme \<Rightarrow> (acquire \<times> ('w, 'e, 'x) sem_scheme) option" where
  "acquire_cancel u a s = (if a_key a \<noteq> None then leave_line u a s else Some (a, s))"

subsection \<open>The mutex\<close>

text \<open>A one-permit semaphore around a value.\<close>

record ('w, 'e, 'v) mutex = "('w, 'e) sem" +
  mvalue :: 'v

definition mutex_init :: "'v \<Rightarrow> ('w, 'e, 'v, 'x) mutex_scheme \<Rightarrow> panic + ('w, 'e, 'v, 'x) mutex_scheme" where
  "mutex_init v s = (case sem_init 1 s of Inl p \<Rightarrow> Inl p | Inr s1 \<Rightarrow> Inr (s1\<lparr>mvalue := v\<rparr>))"

definition mutex_try_lock :: "('w, 'e, 'x) sem_scheme \<Rightarrow> panic + bool \<times> ('w, 'e, 'x) sem_scheme" where
  "mutex_try_lock s =
     (case try_acquire_many 1 s of
        Inl p \<Rightarrow> Inl p
      | Inr (Inr _, s1) \<Rightarrow> Inr (True, s1)
      | Inr (Inl _, s1) \<Rightarrow> Inr (False, s1))"

definition mutex_lock_poll :: "('w ucall \<Rightarrow> ('w, 'e, 'x) sem_scheme \<Rightarrow> ('w, 'e, 'x) sem_scheme) \<Rightarrow> 'w \<Rightarrow> acquire
    \<Rightarrow> ('w, 'e, 'x) sem_scheme \<Rightarrow> panic + unit poll \<times> acquire \<times> ('w, 'e, 'x) sem_scheme" where
  "mutex_lock_poll u waker a s =
     (case acquire_poll u waker a s of
        (Ready (Inr _), a1, s1) \<Rightarrow> Inr (Ready (), a1, s1)
      | (Ready (Inl _), _, _) \<Rightarrow> Inl Unreachable
      | (Pending, a1, s1) \<Rightarrow> Inr (Pending, a1, s1))"

definition mutex_guard_drop :: "('w ucall \<Rightarrow> ('w, 'e, 'x) sem_scheme \<Rightarrow> ('w, 'e, 'x) sem_scheme)
    \<Rightarrow> ('w, 'e, 'x) sem_scheme \<Rightarrow> ('w, 'e, 'x) sem_scheme option" where
  "mutex_guard_drop u s = sem_release u 1 s"

end
