(* ===== verification/Local_Sem_Spec.thy ===== *)
theory Local_Sem_Spec
  imports Local_Semaphore
begin

text \<open>
  What the semaphore of one shard promises.  Two views: for wakers that leave the semaphore alone,
  serving is the abstract operation on the line that grants the longest prefix of requests that
  fits; for wakers that run any code that keeps to the semaphore's own operations, no operation ever
  leaves a front request that would fit unserved.
\<close>

subsection \<open>The front of the line\<close>

abbreviation sline :: "('w, 'e, 'x) sem_scheme \<Rightarrow> (wkey \<times> nat \<times> 'w option) list" where
  "sline s \<equiv> line (sem_waiters s)"

lemma front_fits_line:
  assumes "slab_inv S"
  shows "front_fits a S \<longleftrightarrow> (case line S of [] \<Rightarrow> False | (k, n, w) # Q \<Rightarrow> n \<le> a)"
proof (cases "line S")
  case Nil
  then show ?thesis using line_front(1) [OF assms] by (simp add: front_fits_def)
next
  case (Cons e Q)
  obtain k n w where e: "e = (k, n, w)" by (cases e)
  have "s_head S \<noteq> NIL" using line_front(1) [OF assms] Cons by simp
  then show ?thesis using line_front(2) [OF assms, of k n w Q] Cons e by (auto simp: front_fits_def)
qed

lemma is_empty_line: "slab_inv S \<Longrightarrow> waiters_is_empty S \<longleftrightarrow> line S = []"
  by (simp add: waiters_is_empty_def line_front)

lemma grant_none:
  assumes "slab_inv S" and "\<not> front_fits a S"
  shows "grant_front_if a S = (None, S)"
  using assms(2) unfolding front_fits_def grant_front_if_def by (simp only: if_False)

lemma grant_some:
  assumes inv: "slab_inv S" and fits: "front_fits a S"
  obtains k n w Q S' where "line S = (k, n, w) # Q" and "n \<le> a" and "grant_front_if a S = (Some (n, w), S')"
    and "slab_inv S'" and "line S' = Q" and "status S' = (status S)(k := Granted)"
    and "granted S' = granted S + n" and "length (s_entries S') = length (s_entries S)"
proof -
  obtain k n w Q where l: "line S = (k, n, w) # Q" "n \<le> a"
    using fits unfolding front_fits_line [OF inv] by (auto split: list.splits)
  have "grant_front_if a S = slab_pop_front Granted S"
    using fits unfolding front_fits_def grant_front_if_def by simp
  then show thesis
    using pop_law [OF inv l(1), of Granted] that [OF l] by auto
qed

subsection \<open>Wakers that leave the semaphore alone\<close>

definition quiet :: "('w ucall \<Rightarrow> ('w, 'e, 'x) sem_scheme \<Rightarrow> ('w, 'e, 'x) sem_scheme) \<Rightarrow> bool" where
  "quiet u \<longleftrightarrow> (\<forall>c s. permits (u c s) = permits s \<and> sem_closed (u c s) = sem_closed s
     \<and> sem_waiters (u c s) = sem_waiters s)"

lemma quiet_wake:
  assumes "quiet u"
  shows "permits (wake_waker u w s) = permits s" "sem_closed (wake_waker u w s) = sem_closed s"
    "sem_waiters (wake_waker u w s) = sem_waiters s"
  using assms by (auto simp: quiet_def wake_waker_def split: option.split)

text \<open>The abstract service: how many requests at the front fit, one after the other.\<close>

fun fitting :: "int \<Rightarrow> (wkey \<times> nat \<times> 'w option) list \<Rightarrow> nat" where
  "fitting p [] = 0"
| "fitting p ((k, n, w) # Q) = (if int n \<le> p then Suc (fitting (p - int n) Q) else 0)"

abbreviation needs :: "(wkey \<times> nat \<times> 'w option) list \<Rightarrow> int" where
  "needs Q \<equiv> (\<Sum>e\<leftarrow>Q. int (fst (snd e)))"

definition waker_log :: "'w ucall \<Rightarrow> ('w, 'w list, 'x) sem_scheme \<Rightarrow> ('w, 'w list, 'x) sem_scheme" where
  "waker_log c s = s\<lparr>world := world s @ called c\<rparr>"

lemma quiet_log: "quiet waker_log"
  by (simp add: quiet_def waker_log_def)

lemma fitting_negative: "p < 0 \<Longrightarrow> fitting p Q = 0"
  by (cases Q) auto

text \<open>What \<open>serve_waiters\<close> does to the line, in terms of \<open>fitting\<close>.\<close>

definition served :: "nat \<Rightarrow> ('w, 'e, 'x) sem_scheme \<Rightarrow> ('w, 'e, 'x) sem_scheme \<Rightarrow> bool" where
  "served j s s' \<longleftrightarrow> slab_inv (sem_waiters s') \<and> sline s' = drop j (sline s)
     \<and> permits s' = permits s - needs (take j (sline s))
     \<and> sem_closed s' = sem_closed s
     \<and> status (sem_waiters s') = (\<lambda>k. if k \<in> fst ` set (take j (sline s)) then Granted else status (sem_waiters s) k)
     \<and> permits s' + int (granted (sem_waiters s')) = permits s + int (granted (sem_waiters s))
     \<and> length (s_entries (sem_waiters s')) = length (s_entries (sem_waiters s))"

lemma served_0: "slab_inv (sem_waiters s) \<Longrightarrow> served 0 s s"
  by (simp add: served_def)

lemma served_Suc:
  assumes "sline s = (k, n, w) # Q" and "sline s1 = Q" and "permits s1 = permits s - int n"
    and "sem_closed s1 = sem_closed s" and "status (sem_waiters s1) = (status (sem_waiters s))(k := Granted)"
    and "granted (sem_waiters s1) = granted (sem_waiters s) + n"
    and "length (s_entries (sem_waiters s1)) = length (s_entries (sem_waiters s))" and "served j s1 s'"
  shows "served (Suc j) s s'"
  using assms unfolding served_def by (auto simp: fun_eq_iff)

lemma serve_waiters_quiet:
  assumes "quiet u" and "slab_inv (sem_waiters s)" and "permits s \<le> isize_max"
  shows "\<exists>s'. serve_waiters u s = Some s' \<and> served (fitting (permits s) (sline s)) s s'"
  using assms(2,3)
proof (induction "length (sline s)" arbitrary: s)
  case 0
  then have "\<not> front_fits (nat (permits s)) (sem_waiters s)" by (simp add: front_fits_line)
  then have "serve_waiters u s = Some s"
    using grant_none [OF 0(2)] by (subst serve_waiters.simps) simp
  then show ?case using 0 served_0 by simp
next
  case (Suc m)
  show ?case
  proof (cases "0 \<le> permits s \<and> front_fits (nat (permits s)) (sem_waiters s)")
    case False
    have "serve_waiters u s = Some s"
      using grant_none [OF Suc.prems(1)] False by (subst serve_waiters.simps) auto
    moreover have "fitting (permits s) (sline s) = 0"
    proof (cases "sline s")
      case (Cons e Q)
      obtain k n w where "e = (k, n, w)" by (cases e)
      then show ?thesis using False Cons by (auto simp: front_fits_line [OF Suc.prems(1)])
    qed simp
    ultimately show ?thesis using served_0 [OF Suc.prems(1)] by simp
  next
    case True
    then have p: "0 \<le> permits s" and fits: "front_fits (nat (permits s)) (sem_waiters s)" by auto
    obtain k n w Q S where l: "sline s = (k, n, w) # Q" and n: "n \<le> nat (permits s)"
      and g: "grant_front_if (nat (permits s)) (sem_waiters s) = (Some (n, w), S)"
      and S: "slab_inv S" "line S = Q" "status S = (status (sem_waiters s))(k := Granted)"
        "granted S = granted (sem_waiters s) + n" "length (s_entries S) = length (s_entries (sem_waiters s))"
      by (rule grant_some [OF Suc.prems(1) fits])
    have small: "as_isize n = int n" using n p Suc.prems(2) by (intro as_isize_small) linarith
    define s1 where "s1 = wake_waker u w (s\<lparr>sem_waiters := S, permits := permits s - int n\<rparr>)"
    have s1: "permits s1 = permits s - int n" "sem_closed s1 = sem_closed s" "sem_waiters s1 = S"
      using quiet_wake [OF assms(1)] by (auto simp: s1_def)
    have step: "serve_waiters u s = serve_waiters u s1"
      using p g small by (subst serve_waiters.simps) (simp add: s1_def)
    have "m = length (sline s1)" using Suc.hyps(2) l S(2) s1(3) by simp
    moreover have "slab_inv (sem_waiters s1)" "permits s1 \<le> isize_max"
      using S(1) s1 Suc.prems(2) by auto
    ultimately obtain s' where r: "serve_waiters u s1 = Some s'" "served (fitting (permits s1) (sline s1)) s1 s'"
      using Suc.hyps(1) by blast
    have fit: "fitting (permits s) (sline s) = Suc (fitting (permits s1) (sline s1))"
      using l n p s1 S(2) by auto
    have "served (fitting (permits s) (sline s)) s s'"
      unfolding fit using served_Suc [OF l _ s1(1,2) _ _ _ r(2)] S s1(3) by simp
    then show ?thesis using step r(1) by auto
  qed
qed

lemma serve_quiet:
  assumes "quiet u" and "slab_inv (sem_waiters s)" and "permits s \<le> isize_max" and "\<not> sem_closed s"
  shows "\<exists>s'. serve u s = Some s' \<and> served (fitting (permits s) (sline s)) s s'"
proof (cases "0 \<le> permits s \<and> front_fits (nat (permits s)) (sem_waiters s)")
  case True
  then show ?thesis using serve_waiters_quiet [OF assms(1-3)] assms(4) by (simp add: serve_def)
next
  case False
  have "fitting (permits s) (sline s) = 0"
  proof (cases "sline s")
    case (Cons e Q)
    obtain k n w where "e = (k, n, w)" by (cases e)
    then show ?thesis using False Cons by (auto simp: front_fits_line [OF assms(2)])
  qed simp
  then show ?thesis using False assms(4) served_0 [OF assms(2)] by (auto simp: serve_def)
qed

subsection \<open>Wakers that run any code\<close>

text \<open>The semaphore is sound, a closed one has nobody waiting, and an open one has no front request
  that would fit.\<close>

definition sem_ok :: "('w, 'e, 'x) sem_scheme \<Rightarrow> bool" where
  "sem_ok s \<longleftrightarrow> slab_inv (sem_waiters s) \<and> length (s_entries (sem_waiters s)) < NIL \<and> permits s \<le> isize_max"

definition closed_ok :: "('w, 'e, 'x) sem_scheme \<Rightarrow> bool" where
  "closed_ok s \<longleftrightarrow> (sem_closed s \<longrightarrow> sline s = [])"

definition fits_ok :: "('w, 'e, 'x) sem_scheme \<Rightarrow> bool" where
  "fits_ok s \<longleftrightarrow> (sem_closed s \<or> sline s = [] \<or> permits s < int (fst (snd (hd (sline s)))))"

definition sem_idle :: "('w, 'e, 'x) sem_scheme \<Rightarrow> bool" where
  "sem_idle s \<longleftrightarrow> sem_ok s \<and> closed_ok s \<and> fits_ok s"

text \<open>What is asked of code of the user: called in a sound state it leaves a sound state, and it
  breaks neither of the other two conditions.\<close>

definition hooks_ok :: "('w ucall \<Rightarrow> ('w, 'e, 'x) sem_scheme \<Rightarrow> ('w, 'e, 'x) sem_scheme) \<Rightarrow> bool" where
  "hooks_ok u \<longleftrightarrow> (\<forall>c s. sem_ok s \<longrightarrow> sem_ok (u c s) \<and> (closed_ok s \<longrightarrow> closed_ok (u c s))
     \<and> (closed_ok s \<and> fits_ok s \<longrightarrow> fits_ok (u c s)))"

lemma hooks_okD:
  assumes "hooks_ok u" and "sem_ok s"
  shows "sem_ok (u c s)" and "closed_ok s \<Longrightarrow> closed_ok (u c s)"
    and "closed_ok s \<Longrightarrow> fits_ok s \<Longrightarrow> fits_ok (u c s)"
  using assms by (auto simp: hooks_ok_def)

lemma hooks_wake:
  assumes "hooks_ok u" and "sem_ok s"
  shows "sem_ok (wake_waker u w s)" and "closed_ok s \<Longrightarrow> closed_ok (wake_waker u w s)"
  using assms by (auto simp: wake_waker_def hooks_okD split: option.split)

lemma hooks_drop:
  assumes "hooks_ok u" and "sem_ok s"
  shows "sem_ok (drop_waker u w s)" and "closed_ok s \<Longrightarrow> closed_ok (drop_waker u w s)"
    and "closed_ok s \<Longrightarrow> fits_ok s \<Longrightarrow> fits_ok (drop_waker u w s)"
  using assms by (auto simp: drop_waker_def hooks_okD split: option.split)

lemma hooks_idle: "hooks_ok u \<Longrightarrow> sem_idle s \<Longrightarrow> sem_idle (u c s)"
  by (simp add: sem_idle_def hooks_okD)

lemma not_fits_ok:
  assumes "slab_inv (sem_waiters s)" and "\<not> (0 \<le> permits s \<and> front_fits (nat (permits s)) (sem_waiters s))"
  shows "fits_ok s"
  using assms by (auto simp: fits_ok_def front_fits_line split: list.splits)

lemmas serve_waiters_induct = serve_waiters.raw_induct [rotated, consumes 1, case_names step]

lemma serve_waiters_settles:
  assumes "serve_waiters u s = Some s'" and "hooks_ok u" and "sem_ok s" and "closed_ok s"
  shows "sem_idle s'"
  using assms
proof (induction u s s' rule: serve_waiters_induct)
  case (step rec u s s')
  note u = step.prems(1) and ok = step.prems(2) and cl = step.prems(3)
  have inv: "slab_inv (sem_waiters s)" using ok by (simp add: sem_ok_def)
  show "sem_idle s'"
  proof (cases "0 \<le> permits s \<and> front_fits (nat (permits s)) (sem_waiters s)")
    case False
    then have "s' = s" using step.hyps grant_none [OF inv] by (auto split: if_splits)
    then show ?thesis using ok cl not_fits_ok [OF inv False] by (simp add: sem_idle_def)
  next
    case True
    then have p: "0 \<le> permits s" and fits: "front_fits (nat (permits s)) (sem_waiters s)" by auto
    obtain k n w Q S where l: "sline s = (k, n, w) # Q"
      and g: "grant_front_if (nat (permits s)) (sem_waiters s) = (Some (n, w), S)"
      and S: "slab_inv S" "line S = Q" "length (s_entries S) = length (s_entries (sem_waiters s))"
      and n: "n \<le> nat (permits s)"
      by (rule grant_some [OF inv fits])
    define s1 where "s1 = s\<lparr>sem_waiters := S, permits := permits s - as_isize n\<rparr>"
    have "as_isize n = int n" using n p ok unfolding sem_ok_def by (intro as_isize_small) linarith
    then have ok1: "sem_ok s1" using ok S by (simp add: s1_def sem_ok_def)
    have "\<not> sem_closed s" using cl l by (auto simp: closed_ok_def)
    then have cl1: "closed_ok s1" by (simp add: s1_def closed_ok_def)
    have "rec u (wake_waker u w s1) = Some s'" using step.hyps p g by (simp add: s1_def)
    then show ?thesis
      using step.IH u hooks_wake [OF u ok1] cl1 by blast
  qed
qed

lemma serve_settles:
  assumes "hooks_ok u" and "sem_ok s" and "closed_ok s" and "serve u s = Some s'"
  shows "sem_idle s'"
proof (cases "\<not> sem_closed s \<and> 0 \<le> permits s \<and> front_fits (nat (permits s)) (sem_waiters s)")
  case True
  then show ?thesis using serve_waiters_settles [OF _ assms(1-3)] assms(4) by (simp add: serve_def)
next
  case False
  then have "s' = s" using assms(4) by (auto simp: serve_def split: if_splits)
  moreover have "fits_ok s"
  proof (cases "sem_closed s")
    case True
    then show ?thesis by (simp add: fits_ok_def)
  next
    case opened: False
    then show ?thesis using False assms(2) by (intro not_fits_ok) (auto simp: sem_ok_def)
  qed
  ultimately show ?thesis using assms(2,3) by (simp add: sem_idle_def)
qed

subsection \<open>Every operation leaves the semaphore idle\<close>

lemma budget_irrelevant [simp]:
  "sem_ok (s\<lparr>budget := b\<rparr>) = sem_ok s" "closed_ok (s\<lparr>budget := b\<rparr>) = closed_ok s"
  "fits_ok (s\<lparr>budget := b\<rparr>) = fits_ok s" "sem_idle (s\<lparr>budget := b\<rparr>) = sem_idle s"
  "sem_ok (s\<lparr>budget_yields := y\<rparr>) = sem_ok s" "closed_ok (s\<lparr>budget_yields := y\<rparr>) = closed_ok s"
  "fits_ok (s\<lparr>budget_yields := y\<rparr>) = fits_ok s" "sem_idle (s\<lparr>budget_yields := y\<rparr>) = sem_idle s"
  by (simp_all add: sem_idle_def sem_ok_def closed_ok_def fits_ok_def)

lemma spent_one_idle [simp]: "sem_idle (spent_one s) = sem_idle s"
  by (simp add: spent_one_def)

lemma exhausted_idle:
  assumes "hooks_ok u" and "sem_idle s"
  shows "sem_idle (snd (exhausted u w s))"
  using assms hooks_idle [OF assms(1)] by (simp add: exhausted_def refused_def budget_yield_def)

lemma fewer_permits_idle:
  assumes "sem_idle s" and "p \<le> permits s"
  shows "sem_idle (s\<lparr>permits := p\<rparr>)"
  using assms by (auto simp: sem_idle_def sem_ok_def closed_ok_def fits_ok_def)

lemma max_permits_small: "n \<le> MAX_PERMITS \<Longrightarrow> as_isize n = int n"
proof -
  assume "n \<le> MAX_PERMITS"
  moreover have "int MAX_PERMITS \<le> isize_max" by (simp add: MAX_PERMITS_def usize_max_def isize_max_def)
  ultimately show ?thesis by (intro as_isize_small) linarith
qed

lemma add_permits_idle:
  assumes "hooks_ok u" and "sem_idle s" and "add_permits u n s = Some (Inr s')"
  shows "sem_idle s'"
proof -
  define total where "total = isize_saturating_add (permits s) (as_isize (min n (MAX_PERMITS + 1)))"
  have "serve u (s\<lparr>permits := total\<rparr>) = Some s'"
    using assms(3) by (auto simp: add_permits_def total_def Let_def split: if_splits)
  moreover have "total \<le> isize_max" unfolding total_def by (rule isize_saturating_add_le)
  then have "sem_ok (s\<lparr>permits := total\<rparr>)" "closed_ok (s\<lparr>permits := total\<rparr>)"
    using assms(2) by (auto simp: sem_idle_def sem_ok_def closed_ok_def)
  ultimately show ?thesis using serve_settles [OF assms(1)] by blast
qed

lemma release_settles:
  assumes "hooks_ok u" and "sem_ok s" and "closed_ok s" and "sem_release u n s = Some s'"
  shows "sem_idle s'"
proof -
  define p where "p = isize_saturating_add (permits s) (as_isize n)"
  have "serve u (s\<lparr>permits := p\<rparr>) = Some s'" using assms(4) by (simp add: sem_release_def p_def)
  moreover have "p \<le> isize_max" unfolding p_def by (rule isize_saturating_add_le)
  then have "sem_ok (s\<lparr>permits := p\<rparr>)" "closed_ok (s\<lparr>permits := p\<rparr>)"
    using assms(2,3) by (auto simp: sem_ok_def closed_ok_def)
  ultimately show ?thesis using serve_settles [OF assms(1)] by blast
qed

lemma forget_permits_idle:
  assumes "sem_idle s"
  shows "sem_idle (snd (forget_permits n s))"
proof -
  have "int (min n (available_permits s)) \<le> isize_max"
    using assms by (auto simp: available_permits_def sem_idle_def sem_ok_def isize_max_def)
  then have "as_isize (min n (available_permits s)) = int (min n (available_permits s))"
    by (rule as_isize_small)
  then show ?thesis
    unfolding forget_permits_def Let_def snd_conv by (intro fewer_permits_idle [OF assms]) simp
qed

lemma try_acquire_idle:
  assumes "sem_idle s" and "try_acquire_many n s = Inr (r, s')"
  shows "sem_idle s'"
  using assms fewer_permits_idle [OF assms(1)] max_permits_small
  by (auto simp: try_acquire_many_def checked_permits_def split: sum.splits if_splits)

lemma refresh_idle_sem:
  assumes "hooks_ok u" and "sem_idle s" and "refresh sem_waiters put_waiters u key waker s = (st, s')"
  shows "sem_idle s'"
proof (cases "snd (refresh_look key waker (sem_waiters s))")
  case True
  then show ?thesis using assms(2,3) by (auto simp: refresh_def split: prod.splits)
next
  case False
  define s1 where "s1 = u (Clone waker) s"
  have idle1: "sem_idle s1" unfolding s1_def by (rule hooks_idle [OF assms(1,2)])
  obtain st' old S where r: "refresh_step key waker (sem_waiters s1) = (st', old, S)"
    by (cases "refresh_step key waker (sem_waiters s1)") auto
  have inv: "slab_inv (sem_waiters s1)" using idle1 by (simp add: sem_idle_def sem_ok_def)
  note k = refresh_keys [OF inv, of key waker, unfolded r, simplified]
  have hd: "map (\<lambda>e. (fst e, fst (snd e))) (line S) = map (\<lambda>e. (fst e, fst (snd e))) (sline s1)" by (rule k(7))
  have "sem_idle (s1\<lparr>sem_waiters := S\<rparr>)"
    using idle1 k(1,5) hd
    by (cases "sline s1"; cases "line S") (auto simp: sem_idle_def sem_ok_def closed_ok_def fits_ok_def)
  then have "sem_idle (drop_waker u old (s1\<lparr>sem_waiters := S\<rparr>))"
    using hooks_drop [OF assms(1)] by (simp add: sem_idle_def)
  moreover have "s' = drop_waker u old (s1\<lparr>sem_waiters := S\<rparr>)"
    using False assms(3) r by (auto simp: refresh_def refresh_clone_def Let_def s1_def split: prod.splits)
  ultimately show ?thesis by simp
qed

lemma waiters_same_line_idle:
  assumes "sem_idle s" and "slab_inv S" and "line S = sline s"
    and "length (s_entries S) = length (s_entries (sem_waiters s))"
  shows "sem_idle (s\<lparr>sem_waiters := S\<rparr>)"
  using assms by (simp add: sem_idle_def sem_ok_def closed_ok_def fits_ok_def)

lemma acquire_take_idle:
  assumes "sem_idle s"
  shows "sem_idle (s\<lparr>sem_waiters := waiters_take key (sem_waiters s)\<rparr>)"
proof -
  have inv: "slab_inv (sem_waiters s)" using assms by (simp add: sem_idle_def sem_ok_def)
  show ?thesis by (rule waiters_same_line_idle [OF assms take_keys [OF inv]])
qed

lemma acquire_queue_idle:
  assumes "hooks_ok u" and "sem_idle s" and n: "a_n a \<le> MAX_PERMITS"
    and r: "acquire_queue u waker a s = (r, a', s')" and room: "length (s_entries (sem_waiters s')) < NIL"
  shows "sem_idle s'"
proof -
  define s1 where "s1 = u (Clone waker) s"
  have idle1: "sem_idle s1" unfolding s1_def by (rule hooks_idle [OF assms(1,2)])
  have inv: "slab_inv (sem_waiters s1)" and len: "length (s_entries (sem_waiters s1)) < NIL"
    using idle1 by (auto simp: sem_idle_def sem_ok_def)
  note small = max_permits_small [OF n]
  consider "sem_closed s1" | "\<not> sem_closed s1" "waiters_is_empty (sem_waiters s1) \<and> permits s1 \<ge> as_isize (a_n a)"
    | "\<not> sem_closed s1" "\<not> (waiters_is_empty (sem_waiters s1) \<and> permits s1 \<ge> as_isize (a_n a))" by blast
  then show ?thesis
  proof cases
    case 1
    then have "s' = u (Drop waker) (spent_one s1)" using r by (simp add: acquire_queue_def Let_def s1_def)
    then show ?thesis using idle1 by (simp add: hooks_idle [OF assms(1)])
  next
    case 2
    then have "s' = u (Drop waker) (spent_one (s1\<lparr>permits := permits s1 - as_isize (a_n a)\<rparr>))"
      using r by (auto simp: acquire_queue_def Let_def s1_def)
    then show ?thesis
      using fewer_permits_idle [OF idle1] small by (simp add: hooks_idle [OF assms(1)])
  next
    case 3
    then have s': "s' = s1\<lparr>sem_waiters := snd (slab_push (a_n a) waker (sem_waiters s1))\<rparr>"
      using r by (auto simp: acquire_queue_def Let_def s1_def split: prod.splits)
    note pl = wl.push_line [OF inv len, of "a_n a" waker]
    have "fits_ok s'"
    proof (cases "sline s1 = []")
      case True
      then have "permits s1 < int (a_n a)" using 3 small by (simp add: is_empty_line [OF inv])
      then show ?thesis using pl True by (simp add: s' fits_ok_def)
    next
      case False
      then show ?thesis using pl idle1 by (auto simp: s' fits_ok_def sem_idle_def)
    qed
    then show ?thesis
      using 3 pl idle1 room by (auto simp: s' sem_idle_def sem_ok_def closed_ok_def)
  qed
qed

lemma acquire_fresh_idle:
  assumes "hooks_ok u" and "sem_idle s" and n: "a_n a \<le> MAX_PERMITS"
    and r: "acquire_fresh u waker a s = (r, a', s')" and room: "length (s_entries (sem_waiters s')) < NIL"
  shows "sem_idle s'"
proof -
  define e s1 where "e = fst (exhausted u waker s)" and "s1 = snd (exhausted u waker s)"
  have ex: "exhausted u waker s = (e, s1)" by (simp add: e_def s1_def)
  have idle1: "sem_idle s1" unfolding s1_def by (rule exhausted_idle [OF assms(1,2)])
  have q: "acquire_queue u waker a s1 = (r, a', s') \<Longrightarrow> sem_idle s'"
    using acquire_queue_idle [OF assms(1) idle1 n _ room] .
  show ?thesis
    using r idle1 q fewer_permits_idle [OF idle1] max_permits_small [OF n]
    by (auto simp: acquire_fresh_def ex split: bool.splits if_splits)
qed

lemma acquire_poll_idle:
  assumes "hooks_ok u" and "sem_idle s" and n: "a_n a \<le> MAX_PERMITS"
    and r: "acquire_poll u waker a s = (r, a', s')" and room: "length (s_entries (sem_waiters s')) < NIL"
  shows "sem_idle s'"
proof (cases "a_key a")
  case None
  then show ?thesis using acquire_fresh_idle [OF assms(1-3) _ room] r by (simp add: acquire_poll_def)
next
  case (Some key)
  obtain st s1 where ref: "refresh sem_waiters put_waiters u key waker s = (st, s1)" by fastforce
  have idle1: "sem_idle s1" by (rule refresh_idle_sem [OF assms(1,2) ref])
  show ?thesis
  proof (cases st)
    case Free
    then have "acquire_fresh u waker (a\<lparr>a_key := None\<rparr>) s1 = (r, a', s')"
      using r Some ref by (simp add: acquire_poll_def)
    from acquire_fresh_idle [OF assms(1) idle1 _ this room] show ?thesis using n by simp
  qed (use r Some ref idle1 acquire_take_idle [OF idle1] in \<open>auto simp: acquire_poll_def\<close>)
qed

lemma leave_line_idle:
  assumes "hooks_ok u" and idle: "sem_idle s" and r: "leave_line u a s = Some (a', s')"
  shows "sem_idle s'"
proof (cases "a_key a")
  case None
  then show ?thesis using r idle by (simp add: leave_line_def)
next
  case (Some key)
  obtain st front w S where c: "waiters_cancel key (sem_waiters s) = ((st, front, w), S)"
    by (cases "waiters_cancel key (sem_waiters s)") auto
  define s1 where "s1 = drop_waker u w (s\<lparr>sem_waiters := S\<rparr>)"
  have inv: "slab_inv (sem_waiters s)" using idle by (simp add: sem_idle_def sem_ok_def)
  note law = wl.cancel_line [OF inv, of key, unfolded c, simplified]
  have ok0: "sem_ok (s\<lparr>sem_waiters := S\<rparr>)" "closed_ok (s\<lparr>sem_waiters := S\<rparr>)"
    using idle law by (auto simp: sem_idle_def sem_ok_def closed_ok_def)
  have ok1: "sem_ok s1" "closed_ok s1" unfolding s1_def using hooks_drop [OF assms(1) ok0(1)] ok0 by auto
  have res: "map_option (Pair (a\<lparr>a_key := None\<rparr>)) (if st = Waiting \<and> front then serve u s1
      else if st = Granted then sem_release u (a_n a) s1 else Some s1) = Some (a', s')"
    using r unfolding leave_line_def s1_def by (simp only: Some c Let_def option.case prod.case)
  consider "st = Waiting \<and> front" | "st = Granted" | "\<not> (st = Waiting \<and> front)" "st \<noteq> Granted" by blast
  then show ?thesis
  proof cases
    case 1
    then show ?thesis using res serve_settles [OF assms(1) ok1] by auto
  next
    case 2
    then show ?thesis using res release_settles [OF assms(1) ok1] by auto
  next
    case 3
    have st: "st = status (sem_waiters s) key" using law by simp
    have "line S = [] \<or> sline s \<noteq> [] \<and> hd (line S) = hd (sline s)"
    proof (cases "st = Waiting")
      case True
      have k: "status (sem_waiters s) key = Waiting" using True st by simp
      have "front = (fst (hd (sline s)) = key)"
        by (rule cancel_waiting [OF inv k]) (use c in simp)
      then have "fst (hd (sline s)) \<noteq> key" using 3 True by simp
      then show ?thesis using law by (cases "sline s") auto
    next
      case False
      then have "key \<notin> fst ` set (sline s)" using wl.waiting_law [OF inv, of key] st by simp
      then have "line S = sline s" using law by (auto intro!: filter_True)
      then show ?thesis by auto
    qed
    then have "fits_ok (s\<lparr>sem_waiters := S\<rparr>)" using idle by (auto simp: sem_idle_def fits_ok_def)
    then have "sem_idle s1" unfolding s1_def sem_idle_def using hooks_drop [OF assms(1) ok0(1)] ok0(2) by blast
    then show ?thesis using res 3 by (auto split: if_splits)
  qed
qed

lemmas wake_closed_induct = wake_closed.raw_induct [rotated, consumes 1, case_names step]

lemma wake_closed_settles:
  assumes "wake_closed g p u s = Some s'" and "g = sem_waiters" and "p = put_waiters" and "hooks_ok u" and "sem_ok s"
  shows "sem_ok s' \<and> sline s' = []"
  using assms
proof (induction g p u s s' rule: wake_closed_induct)
  case (step rec g p u s s')
  have inv: "slab_inv (sem_waiters s)" using step.prems(4) by (simp add: sem_ok_def)
  show ?case
  proof (cases "sline s")
    case Nil
    then have "close_front (sem_waiters s) = (None, sem_waiters s)"
      using pop_empty [OF inv Nil] by (simp add: close_front_def)
    then show ?thesis using step.hyps step.prems Nil by simp
  next
    case (Cons e Q)
    obtain k n w where "e = (k, n, w)" by (cases e)
    then have l: "sline s = (k, n, w) # Q" using Cons by simp
    obtain S where S: "slab_pop_front Closed (sem_waiters s) = (Some (n, w), S)" "slab_inv S"
      "length (s_entries S) = length (s_entries (sem_waiters s))"
      by (rule pop_law [OF inv l, of Closed]) auto
    have "sem_ok (s\<lparr>sem_waiters := S\<rparr>)" using step.prems(4) S by (simp add: sem_ok_def)
    then have "sem_ok (wake_waker u w (s\<lparr>sem_waiters := S\<rparr>))" by (rule hooks_wake [OF step.prems(3)])
    moreover have "rec sem_waiters put_waiters u (wake_waker u w (s\<lparr>sem_waiters := S\<rparr>)) = Some s'"
      using step.hyps step.prems(1,2) S(1) by (simp add: close_front_def)
    ultimately show ?thesis using step.IH step.prems(3) by blast
  qed
qed

lemma close_idle:
  assumes "hooks_ok u" and "sem_idle s" and "sem_close u s = Some s'"
  shows "sem_idle s'"
proof (cases "sem_closed s")
  case True
  then show ?thesis using assms(2,3) by (simp add: sem_close_def)
next
  case False
  have "sem_ok (s\<lparr>sem_closed := True\<rparr>)" using assms(2) by (simp add: sem_idle_def sem_ok_def)
  then have "sem_ok s' \<and> sline s' = []"
    using wake_closed_settles [OF _ refl refl assms(1)] assms(3) False by (simp add: sem_close_def)
  then show ?thesis by (simp add: sem_idle_def closed_ok_def fits_ok_def)
qed

lemma debit_idle: "sem_idle s \<Longrightarrow> n \<le> MAX_PERMITS \<Longrightarrow> sem_idle (sem_debit n s)"
  unfolding sem_debit_def by (rule fewer_permits_idle) (simp_all add: max_permits_small)

lemma room_new: "length (s_entries slab_new) < NIL"
  by (simp add: slab_new_def NIL_def usize_max_def)

lemma init_idle:
  assumes "sem_init n s0 = Inr s"
  shows "sem_idle s"
proof -
  have s: "permits s = int n" "sem_closed s = False" "sem_waiters s = slab_new" and n: "n \<le> MAX_PERMITS"
    using assms max_permits_small [of n] by (auto simp: sem_init_def split: if_splits)
  have "int n \<le> isize_max" using n by (simp add: MAX_PERMITS_def usize_max_def isize_max_def)
  then show ?thesis
    unfolding sem_idle_def sem_ok_def closed_ok_def fits_ok_def s by (simp add: slab_inv_new line_new room_new)
qed

lemma quiet_hooks: "quiet u \<Longrightarrow> hooks_ok u"
  by (simp add: quiet_def hooks_ok_def sem_ok_def closed_ok_def fits_ok_def)

subsection \<open>Runs of the semaphore\<close>

text \<open>One call on the semaphore, or one piece of user code between two of them, with the key of the request the
  call is made on, if it has one.  A poll that queues takes a slot of the slab, of which there are fewer than
  \<open>NIL\<close>.\<close>

inductive sem_call :: "('w ucall \<Rightarrow> ('w, 'e, 'x) sem_scheme \<Rightarrow> ('w, 'e, 'x) sem_scheme)
    \<Rightarrow> wkey option \<Rightarrow> ('w, 'e, 'x) sem_scheme \<Rightarrow> ('w, 'e, 'x) sem_scheme \<Rightarrow> bool" for u where
  add: "add_permits u n s = Some (Inr s') \<Longrightarrow> sem_call u None s s'"
| forget: "forget_permits n s = (r, s') \<Longrightarrow> sem_call u None s s'"
| release: "sem_release u n s = Some s' \<Longrightarrow> sem_call u None s s'"
| debit: "n \<le> MAX_PERMITS \<Longrightarrow> sem_call u None s (sem_debit n s)"
| attempt: "try_acquire_many n s = Inr (r, s') \<Longrightarrow> sem_call u None s s'"
| poll: "acquire_poll u waker a s = (r', a', s') \<Longrightarrow> a_n a \<le> MAX_PERMITS \<Longrightarrow>
    length (s_entries (sem_waiters s')) < NIL \<Longrightarrow> sem_call u (a_key a) s s'"
| cancel: "acquire_cancel u a s = Some (a', s') \<Longrightarrow> sem_call u (a_key a) s s'"
| close: "sem_close u s = Some s' \<Longrightarrow> sem_call u None s s'"
| user: "sem_call u None s (u c s)"

abbreviation sem_step :: "('w ucall \<Rightarrow> ('w, 'e, 'x) sem_scheme \<Rightarrow> ('w, 'e, 'x) sem_scheme)
    \<Rightarrow> ('w, 'e, 'x) sem_scheme \<Rightarrow> ('w, 'e, 'x) sem_scheme \<Rightarrow> bool" where
  "sem_step u s s' \<equiv> \<exists>key. sem_call u key s s'"

lemma sem_step_idle:
  assumes "sem_call u key s s'" and "hooks_ok u" and "sem_idle s"
  shows "sem_idle s'"
  using assms(1)
proof cases
  case (add n)
  from add(2) show ?thesis by (rule add_permits_idle [OF assms(2,3)])
next
  case (forget n r)
  then show ?thesis using forget_permits_idle [OF assms(3), of n] by simp
next
  case (release n)
  from release_settles [OF assms(2) _ _ release(2)] show ?thesis using assms(3) by (simp add: sem_idle_def)
next
  case (cancel a a')
  then show ?thesis
    using leave_line_idle [OF assms(2,3)] assms(3) by (auto simp: acquire_cancel_def split: if_splits)
next
  case close
  from close(2) show ?thesis by (rule close_idle [OF assms(2,3)])
qed (use assms(2,3) in \<open>auto intro: debit_idle try_acquire_idle acquire_poll_idle hooks_idle\<close>)

lemma sem_run_idle:
  assumes "(\<lambda>s s'. sem_step u s s')\<^sup>*\<^sup>* s s'" and "hooks_ok u" and "sem_idle s"
  shows "sem_idle s'"
  using assms(1) by (induction rule: rtranclp_induct) (auto intro: sem_step_idle assms(2,3))

subsection \<open>Properties\<close>

text \<open>A concrete run: a semaphore of no permits, and a request for one that has to wait.\<close>

definition sem_start :: "(nat, nat list) sem" where
  "sem_start = \<lparr>budget = 128, cur_task = Some 0, on_shard = True, budget_yields = 0, world = [], permits = 0,
     sem_closed = False, sem_waiters = slab_new\<rparr>"

definition sem_run1 :: "(nat, nat list) sem" where
  "sem_run1 = sem_start\<lparr>sem_waiters := \<lparr>s_entries = [\<lparr>w_waker = Some 7, w_need = 1, w_state = Waiting, w_prev = NIL,
       w_next = NIL, w_generation = 0\<rparr>], s_free = NIL, s_head = 0, s_tail = 0\<rparr>\<rparr>"

lemma sem_run1_is:
  "acquire_poll waker_log 7 \<lparr>a_n = 1, a_key = None\<rparr> sem_start
     = (Pending, \<lparr>a_n = 1, a_key = Some \<lparr>wk_index = 0, wk_generation = 0\<rparr>\<rparr>, sem_run1)"
  by (simp add: acquire_poll_def acquire_fresh_def exhausted_def refused_def acquire_queue_def waker_log_def sem_start_def
      sem_run1_def slab_new_def slab_push_def waiters_is_empty_def as_isize_def NIL_def usize_max_def isize_max_def)

lemma sem_run1_line: "sline sem_run1 = [(\<lparr>wk_index = 0, wk_generation = 0\<rparr>, 1, Some 7)]" "permits sem_run1 = 0"
    "sem_closed sem_run1 = False" "granted (sem_waiters sem_run1) = 0"
  by (simp_all add: sem_run1_def sem_start_def line_def waiting_def wview_def NIL_def usize_max_def granted_def)

text \<open>C16: Serving is first come, first served.  With wakers that leave the semaphore alone, serving an
  open semaphore ends; it grants the longest prefix of the line whose requests fit one after the
  other, and nothing else; what it takes from the free permits is what the granted entries then hold.\<close>

theorem serve_grants_prefix:
  assumes "quiet u" and "slab_inv (sem_waiters s)" and "permits s \<le> isize_max" and "\<not> sem_closed s"
  shows "\<exists>s'. serve u s = Some s' \<and> (let j = fitting (permits s) (sline s) in
     sline s' = drop j (sline s) \<and> permits s' = permits s - needs (take j (sline s))
     \<and> status (sem_waiters s') = (\<lambda>k. if k \<in> fst ` set (take j (sline s)) then Granted else status (sem_waiters s) k)
     \<and> permits s' + int (granted (sem_waiters s')) = permits s + int (granted (sem_waiters s)))"
  using serve_quiet [OF assms] by (auto simp: served_def Let_def)

theorem serve_grants_prefix_witness:
  "\<exists>s'. serve waker_log (sem_run1\<lparr>permits := 1\<rparr>) = Some s' \<and> sline s' = [] \<and> permits s' = 0
     \<and> granted (sem_waiters s') = 1"
proof -
  have inv: "slab_inv (sem_waiters (sem_run1\<lparr>permits := 1\<rparr>))"
    using acquire_poll_idle [OF quiet_hooks [OF quiet_log] init_idle [of 0 sem_start sem_start] _ sem_run1_is]
    by (simp add: sem_idle_def sem_ok_def MAX_PERMITS_def usize_max_def NIL_def sem_run1_def sem_init_def sem_start_def
        as_isize_def isize_max_def)
  show ?thesis
    using serve_grants_prefix [OF quiet_log inv] sem_run1_line by (auto simp: Let_def isize_max_def)
qed

text \<open>C35: On a semaphore that holds between 0 and its maximum of permits, adding permits fails exactly when it
  would then hold more than the maximum, for every number that a caller can pass; the arithmetic never wraps around.\<close>

theorem add_permits_panics:
  assumes "0 \<le> permits s" and "permits s \<le> int MAX_PERMITS"
  shows "add_permits u n s = Some (Inl p) \<longleftrightarrow> p = Too_many_permits \<and> permits s + int n > int MAX_PERMITS"
proof -
  define m where "m = min n (MAX_PERMITS + 1)"
  have mx: "2 * int MAX_PERMITS + 2 \<le> isize_max" by (simp add: MAX_PERMITS_def usize_max_def isize_max_def)
  have m: "int m \<le> int MAX_PERMITS + 1" by (simp add: m_def)
  have sm: "as_isize m = int m" by (rule as_isize_small) (use m mx in linarith)
  have "isize_saturating_add (permits s) (int m) = permits s + int m"
    using assms m mx by (intro isize_saturating_add_exact) (auto simp: isize_min_def)
  then have "add_permits u n s = (if permits s + int m \<le> int MAX_PERMITS
      then map_option Inr (serve u (s\<lparr>permits := permits s + int m\<rparr>)) else Some (Inl Too_many_permits))"
    unfolding add_permits_def Let_def m_def [symmetric] sm by (simp add: max_permits_small)
  moreover have "permits s + int m \<le> int MAX_PERMITS \<longleftrightarrow> permits s + int n \<le> int MAX_PERMITS"
    using assms by (auto simp: m_def min_def)
  ultimately show ?thesis by auto
qed

theorem add_permits_panics_witness:
  "add_permits waker_log usize_max sem_start = Some (Inl Too_many_permits)"
  using add_permits_panics [of sem_start waker_log usize_max Too_many_permits]
  by (simp add: sem_start_def MAX_PERMITS_def usize_max_def)

end
