(* ===== verification/Local_Sem_Wake.thy ===== *)
theory Local_Sem_Wake
  imports Local_Sem_Spec
begin

text \<open>
  Whoever waits on the semaphore of one shard is woken.  A call by somebody else leaves a request in line as it
  is, or wakes its waker as it takes the request off the line; with what \<open>Local_Sem_Spec\<close> shows of the line between
  calls, a request that could be granted, or that a close has ended, has been woken.
\<close>

subsection \<open>What a call leaves of a request in line\<close>
















subsection \<open>The calls of others\<close>










subsection \<open>A poll that waits\<close>









subsection \<open>Properties\<close>





end
