(* ===== verification/Local_Slots.thy ===== *)
theory Local_Slots
  imports Local_Sem_Spec
begin

text \<open>
  Where the permits of a semaphore are, when every request is for one.  A ledger adds up the permits
  that are free, those kept for waiters that have been granted one, and those somewhere else, which
  the client counts: the guards of a mutex, the reserved slots and the queued values of a channel.
  Every operation of the semaphore keeps the ledger's total, whatever the wakers do that keep it too.
\<close>

subsection \<open>Requests for one permit\<close>

definition ones :: "'w wentry list \<Rightarrow> bool" where
  "ones es \<longleftrightarrow> (\<forall>i < length es. w_need (es ! i) = 1)"

abbreviation units :: "'w slab \<Rightarrow> bool" where
  "units S \<equiv> ones (s_entries S)"

lemma ones_update: "ones es \<Longrightarrow> w_need x = w_need (es ! i) \<or> w_need x = 1 \<Longrightarrow> ones (es[i := x])"
  by (metis length_list_update list_update_beyond not_le nth_list_update ones_def)

lemma ones_snoc: "ones es \<Longrightarrow> w_need x = 1 \<Longrightarrow> ones (es @ [x])"
  by (simp add: ones_def nth_append less_Suc_eq)

lemma units_unlink: "units S \<Longrightarrow> units (slab_unlink i S)"
  by (auto simp: slab_unlink_def Let_def intro!: ones_update)

lemma units_free: "units S \<Longrightarrow> units (slab_free_entry i S)"
  by (auto simp: slab_free_entry_def intro!: ones_update)

lemma units_pop: "units S \<Longrightarrow> units (snd (slab_pop_front st S))"
  by (auto simp: slab_pop_front_def Let_def intro!: ones_update units_unlink)

lemma units_take: "units S \<Longrightarrow> units (waiters_take k S)"
  by (auto simp: waiters_take_def units_free split: option.split)

lemma units_cancel: "units S \<Longrightarrow> units (snd (waiters_cancel k S))"
  by (auto simp: waiters_cancel_def Let_def intro!: ones_update units_unlink units_free split: option.split)

lemma units_refresh: "units S \<Longrightarrow> units (snd (snd (refresh_step k w S)))"
  by (auto simp: refresh_step_def intro!: ones_update split: option.split)

lemma units_push: "units S \<Longrightarrow> units (snd (slab_push 1 w S))"
  by (auto simp: slab_push_def Let_def intro!: ones_update ones_snoc)

lemma units_grant: "units S \<Longrightarrow> units (snd (grant_front_if a S))"
  by (simp add: grant_front_if_def units_pop)

lemma units_need: "units S \<Longrightarrow> status S k \<noteq> Free \<Longrightarrow> need_at S k = 1"
  using need_at_eq [of S k] status_bound [of S k] by (simp add: ones_def)

subsection \<open>The ledger\<close>

definition ledger_ok :: "(('w, 'e, 'x) sem_scheme \<Rightarrow> int) \<Rightarrow> (('w, 'e, 'x) sem_scheme \<Rightarrow> bool) \<Rightarrow> int
    \<Rightarrow> ('w, 'e, 'x) sem_scheme \<Rightarrow> bool" where
  "ledger_ok out keep t s \<longleftrightarrow> sem_ok s \<and> units (sem_waiters s) \<and> 0 \<le> permits s \<and> 0 \<le> out s \<and> t \<le> int MAX_PERMITS
     \<and> keep s \<and> permits s + int (granted (sem_waiters s)) + out s = t"

text \<open>No code of the user makes up a permit.\<close>

definition ledger_hooks :: "(('w, 'e, 'x) sem_scheme \<Rightarrow> int) \<Rightarrow> (('w, 'e, 'x) sem_scheme \<Rightarrow> bool)
    \<Rightarrow> ('w ucall \<Rightarrow> ('w, 'e, 'x) sem_scheme \<Rightarrow> ('w, 'e, 'x) sem_scheme) \<Rightarrow> bool" where
  "ledger_hooks out keep u \<longleftrightarrow> (\<forall>t c s. ledger_ok out keep t s \<longrightarrow> ledger_ok out keep t (u c s))"

text \<open>Only the future itself takes its settled key: code of the user leaves it alone.\<close>

definition key_kept :: "('w ucall \<Rightarrow> ('w, 'e, 'x) sem_scheme \<Rightarrow> ('w, 'e, 'x) sem_scheme) \<Rightarrow> acquire \<Rightarrow> bool" where
  "key_kept u a \<longleftrightarrow> (\<forall>c s key. a_key a = Some key \<longrightarrow> status (sem_waiters s) key \<in> {Granted, Closed}
     \<longrightarrow> status (sem_waiters (u c s)) key = status (sem_waiters s) key)"

text \<open>What an acquire that asks for one permit does: when it completes, one permit is on its way to
  its owner.  It fails only on a key that was closed, or on a closed semaphore.\<close>

definition ledger_result :: "(('w, 'e, 'x) sem_scheme \<Rightarrow> int) \<Rightarrow> (('w, 'e, 'x) sem_scheme \<Rightarrow> bool) \<Rightarrow> int
    \<Rightarrow> acquired \<times> acquire \<times> ('w, 'e, 'x) sem_scheme \<Rightarrow> bool" where
  "ledger_result out keep t p = (case p of (r, a, s) \<Rightarrow>
     (case r of Ready (Inr n) \<Rightarrow> ledger_ok out keep (t - 1) s | _ \<Rightarrow> ledger_ok out keep t s))"

lemma one_isize [simp]: "as_isize (Suc 0) = 1"
  by (simp add: as_isize_def isize_max_def)

locale ledger =
  fixes out :: "('w, 'e, 'x) sem_scheme \<Rightarrow> int" and keep :: "('w, 'e, 'x) sem_scheme \<Rightarrow> bool"
  assumes out_permits: "out (s\<lparr>permits := p\<rparr>) = out s"
    and out_waiters: "out (s\<lparr>sem_waiters := S\<rparr>) = out s"
    and out_budget: "out (s\<lparr>budget := b\<rparr>) = out s"
    and out_yields: "out (s\<lparr>budget_yields := y\<rparr>) = out s"
    and keep_permits: "keep (s\<lparr>permits := p\<rparr>) = keep s"
    and keep_budget: "keep (s\<lparr>budget := b\<rparr>) = keep s"
    and keep_yields: "keep (s\<lparr>budget_yields := y\<rparr>) = keep s"
    and keep_waiters: "keep s \<Longrightarrow> (\<And>k. status S k = Closed \<Longrightarrow> status (sem_waiters s) k = Closed)
      \<Longrightarrow> keep (s\<lparr>sem_waiters := S\<rparr>)"
begin

lemmas fields = out_permits out_waiters out_budget out_yields keep_permits keep_budget keep_yields

lemma okD:
  assumes "ledger_ok out keep t s"
  shows "slab_inv (sem_waiters s)" and "0 \<le> permits s" and "units (sem_waiters s)"
    and "length (s_entries (sem_waiters s)) < NIL" and "permits s \<le> t" and "t \<le> int MAX_PERMITS"
  using assms by (auto simp: ledger_ok_def sem_ok_def)

lemma ok_budget [simp]:
  "ledger_ok out keep t (s\<lparr>budget := b\<rparr>) = ledger_ok out keep t s"
  "ledger_ok out keep t (s\<lparr>budget_yields := y\<rparr>) = ledger_ok out keep t s"
  "ledger_ok out keep t (spent_one s) = ledger_ok out keep t s"
  by (simp_all add: ledger_ok_def spent_one_def fields)

lemma user: "ledger_hooks out keep u \<Longrightarrow> ledger_ok out keep t s \<Longrightarrow> ledger_ok out keep t (u c s)"
  by (simp add: ledger_hooks_def)

lemma wake: "ledger_hooks out keep u \<Longrightarrow> ledger_ok out keep t s \<Longrightarrow> ledger_ok out keep t (wake_waker u w s)"
  by (simp add: user wake_waker_def split: option.split)

lemma drop: "ledger_hooks out keep u \<Longrightarrow> ledger_ok out keep t s \<Longrightarrow> ledger_ok out keep t (drop_waker u w s)"
  by (simp add: user drop_waker_def split: option.split)

lemma refused_ok:
  "ledger_hooks out keep u \<Longrightarrow> ledger_ok out keep t s \<Longrightarrow> ledger_ok out keep t (snd (exhausted u w s))"
  by (simp add: exhausted_def refused_def budget_yield_def user)

text \<open>A new slab in which no key is newly closed, and as many permits are granted as the free ones
  went down and the total up.\<close>

lemma new_slab:
  assumes ok: "ledger_ok out keep t s" and "slab_inv S" and "units S" and "length (s_entries S) < NIL"
    and "\<And>k. status S k = Closed \<Longrightarrow> status (sem_waiters s) k = Closed" and "0 \<le> p"
    and "p + int (granted S) = permits s + int (granted (sem_waiters s)) + d" and "t + d \<le> int MAX_PERMITS"
  shows "ledger_ok out keep (t + d) (s\<lparr>sem_waiters := S, permits := p\<rparr>)"
proof -
  have "p \<le> t + d" using assms(1,7) by (auto simp: ledger_ok_def)
  then have "p \<le> isize_max" using assms(8) by (simp add: MAX_PERMITS_def usize_max_def isize_max_def)
  moreover have "keep (s\<lparr>sem_waiters := S\<rparr>)" using ok assms(5) by (auto simp: ledger_ok_def intro: keep_waiters)
  ultimately show ?thesis using assms by (simp add: ledger_ok_def sem_ok_def fields)
qed

lemmas new_slab_same = new_slab [where p = "permits s" for s, simplified]

lemma serve_waiters_ok:
  assumes "serve_waiters u s = Some s'" and "ledger_hooks out keep u" and "ledger_ok out keep t s"
  shows "ledger_ok out keep t s'"
  using assms
proof (induction u s s' rule: serve_waiters_induct)
  case (step rec u s s')
  note ok = step.prems(2)
  note inv = okD(1) [OF ok] and p = okD(2) [OF ok]
  show ?case
  proof (cases "front_fits (nat (permits s)) (sem_waiters s)")
    case False
    then have "s' = s" using step.hyps grant_none [OF inv] by (auto split: if_splits)
    then show ?thesis using ok by simp
  next
    case True
    obtain k n w Q S where n: "n \<le> nat (permits s)"
      and g: "grant_front_if (nat (permits s)) (sem_waiters s) = (Some (n, w), S)"
      and S: "slab_inv S" "granted S = granted (sem_waiters s) + n" "status S = (status (sem_waiters s))(k := Granted)"
        "length (s_entries S) = length (s_entries (sem_waiters s))"
      by (rule grant_some [OF inv True])
    have small: "as_isize n = int n" using n p ok unfolding ledger_ok_def sem_ok_def by (intro as_isize_small) linarith
    have "units S" using units_grant [OF okD(3) [OF ok], of "nat (permits s)"] g by simp
    then have "ledger_ok out keep (t + 0) (s\<lparr>sem_waiters := S, permits := permits s - int n\<rparr>)"
      using S n p okD(4,6) [OF ok] by (intro new_slab [OF ok]) (auto split: if_splits)
    then have "ledger_ok out keep t (wake_waker u w (s\<lparr>sem_waiters := S, permits := permits s - int n\<rparr>))"
      by (simp add: wake [OF step.prems(1)])
    moreover have "rec u (wake_waker u w (s\<lparr>sem_waiters := S, permits := permits s - int n\<rparr>)) = Some s'"
      using step.hyps p g small by simp
    ultimately show ?thesis using step.IH step.prems(1) by blast
  qed
qed

lemma serve_ok:
  "ledger_hooks out keep u \<Longrightarrow> ledger_ok out keep t s \<Longrightarrow> serve u s = Some s' \<Longrightarrow> ledger_ok out keep t s'"
  using serve_waiters_ok [of u s s'] by (auto simp: serve_def split: if_splits)

text \<open>Permits come back.\<close>

lemma release_ok:
  assumes "ledger_hooks out keep u" and ok: "ledger_ok out keep t s" and "sem_release u n s = Some s'"
    and "t + int n \<le> int MAX_PERMITS"
  shows "ledger_ok out keep (t + int n) s'"
proof -
  note p = okD(2,5) [OF ok]
  have mx: "int MAX_PERMITS \<le> isize_max" by (simp add: MAX_PERMITS_def usize_max_def isize_max_def)
  have small: "as_isize n = int n" using p assms(4) mx by (intro as_isize_small) linarith
  then have "isize_saturating_add (permits s) (as_isize n) = permits s + int n"
    using p assms(4) mx by (simp only: small, intro isize_saturating_add_exact) (auto simp: isize_min_def)
  moreover have "ledger_ok out keep (t + int n) (s\<lparr>sem_waiters := sem_waiters s, permits := permits s + int n\<rparr>)"
    using p assms(4) okD [OF ok] by (intro new_slab [OF ok]) auto
  ultimately show ?thesis using serve_ok [OF assms(1)] assms(3) by (simp add: sem_release_def)
qed

lemma taken_ok:
  "ledger_ok out keep t s \<Longrightarrow> 1 \<le> permits s \<Longrightarrow> ledger_ok out keep (t - 1) (s\<lparr>permits := permits s - 1\<rparr>)"
  by (simp add: ledger_ok_def sem_ok_def fields)

lemma queue_ok:
  assumes u: "ledger_hooks out keep u" and ok: "ledger_ok out keep t s" and n: "a_n a = 1"
    and room: "length (s_entries (sem_waiters (snd (snd (acquire_queue u waker a s))))) < NIL"
  shows "ledger_result out keep t (acquire_queue u waker a s)"
proof -
  define s1 where "s1 = u (Clone waker) s"
  have ok1: "ledger_ok out keep t s1" unfolding s1_def by (rule user [OF u ok])
  consider "sem_closed s1" | "\<not> sem_closed s1" "waiters_is_empty (sem_waiters s1) \<and> permits s1 \<ge> 1"
    | "\<not> sem_closed s1" "\<not> (waiters_is_empty (sem_waiters s1) \<and> permits s1 \<ge> 1)" by blast
  then show ?thesis
  proof cases
    case 1
    then show ?thesis by (simp add: acquire_queue_def Let_def s1_def [symmetric] ledger_result_def user [OF u] ok1)
  next
    case 2
    then have "ledger_ok out keep (t - 1) (u (Drop waker) (spent_one (s1\<lparr>permits := permits s1 - 1\<rparr>)))"
      by (simp add: user [OF u] taken_ok [OF ok1])
    then show ?thesis using 2 n by (simp add: acquire_queue_def Let_def s1_def ledger_result_def)
  next
    case 3
    obtain k S where p: "slab_push 1 waker (sem_waiters s1) = (k, S)" by fastforce
    note inv = okD(1,4) [OF ok1]
    have S: "slab_inv S" "granted S = granted (sem_waiters s1)" "\<exists>k. status S = (status (sem_waiters s1))(k := Waiting)"
      by (rule push_law [OF inv, of 1 waker]; use p in auto)+
    have q: "acquire_queue u waker a s = (Pending, a\<lparr>a_key := Some k\<rparr>, s1\<lparr>sem_waiters := S\<rparr>)"
      using 3 n p by (auto simp: acquire_queue_def Let_def s1_def)
    have "units S" using units_push [OF okD(3) [OF ok1], of waker] p by simp
    then have "ledger_ok out keep (t + 0) (s1\<lparr>sem_waiters := S, permits := permits s1\<rparr>)"
      using S room q okD(2,6) [OF ok1] by (intro new_slab [OF ok1]) (auto split: if_splits)
    then show ?thesis by (simp add: q ledger_result_def)
  qed
qed

lemma fresh_ok:
  assumes u: "ledger_hooks out keep u" and ok: "ledger_ok out keep t s" and n: "a_n a = 1"
    and room: "length (s_entries (sem_waiters (snd (snd (acquire_fresh u waker a s))))) < NIL"
  shows "ledger_result out keep t (acquire_fresh u waker a s)"
proof -
  define e s1 where "e = fst (exhausted u waker s)" and "s1 = snd (exhausted u waker s)"
  have ex: "exhausted u waker s = (e, s1)" by (simp add: e_def s1_def)
  have ok1: "ledger_ok out keep t s1" unfolding s1_def by (rule refused_ok [OF u ok])
  moreover have "ledger_ok out keep (t - 1) (spent_one (s1\<lparr>permits := permits s1 - 1\<rparr>))" if "1 \<le> permits s1"
    using taken_ok [OF ok1 that] by simp
  ultimately show ?thesis
    using n queue_ok [OF u ok1 n, of waker] room
    by (cases e) (auto simp: acquire_fresh_def ex ledger_result_def split: if_splits)
qed

lemma refresh_ok:
  assumes u: "ledger_hooks out keep u" and ok: "ledger_ok out keep t s"
    and r: "refresh sem_waiters put_waiters u key waker s = (st, s')"
  shows "ledger_ok out keep t s'" and "\<exists>s1. ledger_ok out keep t s1 \<and> st = status (sem_waiters s1) key"
    and "key_kept u a \<Longrightarrow> a_key a = Some key \<Longrightarrow> st \<in> {Granted, Closed} \<Longrightarrow> status (sem_waiters s') key = st"
proof -
  have look: "fst (refresh_look key waker (sem_waiters s)) = status (sem_waiters s) key"
    by (simp add: refresh_look_def status_def split: option.split)
  define s1 where "s1 = u (Clone waker) s"
  have ok1: "ledger_ok out keep t s1" unfolding s1_def by (rule user [OF u ok])
  obtain st' old S where p: "refresh_step key waker (sem_waiters s1) = (st', old, S)"
    by (cases "refresh_step key waker (sem_waiters s1)") auto
  note law = refresh_keys [OF okD(1) [OF ok1], of key waker, unfolded p, simplified]
  have st': "st' = status (sem_waiters s1) key" "status S = status (sem_waiters s1)" using law by auto
  define s2 where "s2 = drop_waker u old (s1\<lparr>sem_waiters := S\<rparr>)"
  have two: "(st, s') = (status (sem_waiters s) key, s) \<or> (st, s') = (st', s2)"
    using r look p by (auto simp: refresh_def refresh_clone_def Let_def s1_def s2_def split: prod.splits if_splits)
  have "units S" using units_refresh [OF okD(3) [OF ok1], of key waker] p by simp
  then have "ledger_ok out keep (t + 0) (s1\<lparr>sem_waiters := S, permits := permits s1\<rparr>)"
    using law okD(2,4,6) [OF ok1] by (intro new_slab [OF ok1]) auto
  then have "ledger_ok out keep t s2" unfolding s2_def by (simp add: drop [OF u])
  then show "ledger_ok out keep t s'" using two ok by auto
  show "\<exists>s1. ledger_ok out keep t s1 \<and> st = status (sem_waiters s1) key" using two ok ok1 st' by auto
  assume "key_kept u a" "a_key a = Some key" "st \<in> {Granted, Closed}"
  then show "status (sem_waiters s') key = st"
    using two st' by (auto simp: key_kept_def drop_waker_def s2_def split: option.splits)
qed

lemma settle_ok:
  assumes ok: "ledger_ok out keep t s" and st: "status (sem_waiters s) key \<in> {Granted, Closed}"
  shows "ledger_ok out keep (t - (if status (sem_waiters s) key = Granted then 1 else 0))
    (s\<lparr>sem_waiters := waiters_take key (sem_waiters s)\<rparr>)"
proof -
  note inv = okD(1) [OF ok] and un = okD(3) [OF ok]
  define g :: nat where "g = (if status (sem_waiters s) key = Granted then 1 else 0)"
  have "granted (waiters_take key (sem_waiters s)) + g = granted (sem_waiters s)"
    using take_law(4) [OF inv, of key] units_need [OF un, of key] st by (auto simp: g_def)
  then have "ledger_ok out keep (t + - int g) (s\<lparr>sem_waiters := waiters_take key (sem_waiters s), permits := permits s\<rparr>)"
    using take_law(1,3,5) [OF inv, of key] units_take [OF un, of key] okD(2,4,6) [OF ok] st
    by (intro new_slab [OF ok]) (auto split: if_splits)
  then show ?thesis by (simp add: g_def split: if_splits)
qed

lemma poll_ok:
  assumes u: "ledger_hooks out keep u" "key_kept u a" and ok: "ledger_ok out keep t s" and n: "a_n a = 1"
    and room: "length (s_entries (sem_waiters (snd (snd (acquire_poll u waker a s))))) < NIL"
  shows "ledger_result out keep t (acquire_poll u waker a s)"
proof (cases "a_key a")
  case None
  then show ?thesis using fresh_ok [OF u(1) ok n, of waker] room by (simp add: acquire_poll_def)
next
  case (Some key)
  obtain st s1 where r: "refresh sem_waiters put_waiters u key waker s = (st, s1)" by fastforce
  note ok1 = refresh_ok(1) [OF u(1) ok r] and kept = refresh_ok(3) [OF u(1) ok r u(2) Some]
  show ?thesis
  proof (cases st)
    case Free
    then show ?thesis
      using fresh_ok [OF u(1) ok1, of "a\<lparr>a_key := None\<rparr>" waker] n room Some r by (simp add: acquire_poll_def)
  next
    case Waiting
    then show ?thesis using Some r ok1 by (simp add: acquire_poll_def ledger_result_def)
  next
    case Granted
    then show ?thesis using settle_ok [OF ok1, of key] kept Some r by (simp add: acquire_poll_def ledger_result_def)
  next
    case Closed
    then show ?thesis using settle_ok [OF ok1, of key] kept Some r by (simp add: acquire_poll_def ledger_result_def)
  qed
qed

text \<open>A poll fails only after it saw its key or the semaphore closed.\<close>

lemma fresh_fails:
  assumes u: "ledger_hooks out keep u" and ok: "ledger_ok out keep t s"
    and r: "acquire_fresh u waker a s = (Ready (Inl ()), a', s')"
  shows "\<exists>s1. ledger_ok out keep t s1 \<and> sem_closed s1"
proof -
  define e s1 where "e = fst (exhausted u waker s)" and "s1 = snd (exhausted u waker s)"
  have ex: "exhausted u waker s = (e, s1)" by (simp add: e_def s1_def)
  have ok1: "ledger_ok out keep t s1" unfolding s1_def by (rule refused_ok [OF u ok])
  have "sem_closed s1 \<or> sem_closed (u (Clone waker) s1)"
    using r by (cases e) (auto simp: acquire_fresh_def acquire_queue_def Let_def ex split: if_splits prod.splits)
  then show ?thesis using ok1 user [OF u ok1] by blast
qed

lemma poll_fails:
  assumes u: "ledger_hooks out keep u" and ok: "ledger_ok out keep t s"
    and r: "acquire_poll u waker a s = (Ready (Inl ()), a', s')"
  shows "\<exists>s1. ledger_ok out keep t s1 \<and> (sem_closed s1 \<or> (\<exists>k. status (sem_waiters s1) k = Closed))"
proof (cases "a_key a")
  case None
  then show ?thesis using fresh_fails [OF u ok, of waker a] r by (auto simp: acquire_poll_def)
next
  case (Some key)
  obtain st s1 where f: "refresh sem_waiters put_waiters u key waker s = (st, s1)" by fastforce
  show ?thesis
  proof (cases st)
    case Free
    then have "acquire_fresh u waker (a\<lparr>a_key := None\<rparr>) s1 = (Ready (Inl ()), a', s')"
      using r f Some by (simp add: acquire_poll_def)
    from fresh_fails [OF u refresh_ok(1) [OF u ok f] this] show ?thesis by blast
  next
    case Closed
    then show ?thesis using refresh_ok(2) [OF u ok f] by metis
  qed (use r f Some in \<open>simp_all add: acquire_poll_def\<close>)
qed

lemma cancel_ok:
  assumes u: "ledger_hooks out keep u" and ok: "ledger_ok out keep t s" and n: "a_n a = 1"
    and r: "acquire_cancel u a s = Some (a', s')"
  shows "ledger_ok out keep t s'"
proof (cases "a_key a")
  case None
  then show ?thesis using r ok by (simp add: acquire_cancel_def)
next
  case (Some key)
  obtain st front w S where c: "waiters_cancel key (sem_waiters s) = ((st, front, w), S)"
    by (cases "waiters_cancel key (sem_waiters s)") auto
  define s1 where "s1 = drop_waker u w (s\<lparr>sem_waiters := S\<rparr>)"
  define g :: nat where "g = (if st = Granted then 1 else 0)"
  note inv = okD(1) [OF ok] and un = okD(3) [OF ok]
  have law: "slab_inv S" "status S = (status (sem_waiters s))(key := Free)" "st = status (sem_waiters s) key"
    "length (s_entries S) = length (s_entries (sem_waiters s))"
    using wl.cancel_line [OF inv, of key, unfolded c] by auto
  have units: "units S" using units_cancel [OF un, of key] c by simp
  have "granted S + g = granted (sem_waiters s)"
  proof (cases st)
    case Waiting
    show ?thesis by (rule cancel_waiting [OF inv, of key]) (use Waiting law(3) c in \<open>auto simp: g_def\<close>)
  next
    case Free
    then show ?thesis using law(3) c cancel_stale [of "sem_waiters s" key] by (simp add: g_def)
  qed (use take_law(4) [OF inv, of key] cancel_settled(1) [OF inv, of key] c law(3) units_need [OF un, of key]
    in \<open>simp_all add: g_def\<close>)
  then have "ledger_ok out keep (t + - int g) (s\<lparr>sem_waiters := S, permits := permits s\<rparr>)"
    using law units okD(2,4,6) [OF ok] by (intro new_slab [OF ok]) (auto split: if_splits)
  then have ok1: "ledger_ok out keep (t - int g) s1" unfolding s1_def by (simp add: drop [OF u])
  have res: "map_option (Pair (a\<lparr>a_key := None\<rparr>)) (if st = Waiting \<and> front then serve u s1
      else if st = Granted then sem_release u (a_n a) s1 else Some s1) = Some (a', s')"
    using r unfolding acquire_cancel_def leave_line_def s1_def by (simp add: Some c Let_def)
  show ?thesis
  proof (cases "st = Granted")
    case True
    then show ?thesis using release_ok [OF u ok1, of 1 s'] res n okD(6) [OF ok] by (auto simp: g_def)
  next
    case False
    then show ?thesis using res ok1 serve_ok [OF u ok1] by (auto simp: g_def split: if_splits)
  qed
qed

lemma try_ok:
  assumes ok: "ledger_ok out keep t s" and r: "try_acquire_many 1 s = Inr (Inr k, s')"
  shows "ledger_ok out keep (t - 1) s'"
  using r taken_ok [OF ok] by (auto simp: try_acquire_many_def checked_permits_def split: if_splits)

end

text \<open>A client whose condition says nothing about closing may close.\<close>

locale closable_ledger = ledger +
  assumes keep_any_waiters: "keep (s\<lparr>sem_waiters := S\<rparr>) = keep s" and keep_closed: "keep (s\<lparr>sem_closed := c\<rparr>) = keep s"
    and out_closed: "out (s\<lparr>sem_closed := c\<rparr>) = out s"
begin

lemma wake_closed_ok:
  assumes "wake_closed g p u s = Some s'" and "g = sem_waiters" and "p = put_waiters"
    and "ledger_hooks out keep u" and "ledger_ok out keep t s"
  shows "ledger_ok out keep t s'"
  using assms
proof (induction g p u s s' rule: wake_closed_induct)
  case (step rec g p u s s')
  note ok = step.prems(4)
  note inv = okD(1) [OF ok]
  show ?case
  proof (cases "sline s")
    case Nil
    then have "close_front (sem_waiters s) = (None, sem_waiters s)"
      using pop_empty [OF inv Nil] by (simp add: close_front_def)
    then show ?thesis using step.hyps step.prems by simp
  next
    case (Cons e Q)
    obtain k n w where "e = (k, n, w)" by (cases e)
    then have l: "sline s = (k, n, w) # Q" using Cons by simp
    obtain S where S: "slab_pop_front Closed (sem_waiters s) = (Some (n, w), S)" "slab_inv S"
      "granted S = granted (sem_waiters s)" "length (s_entries S) = length (s_entries (sem_waiters s))"
      by (rule pop_law [OF inv l, of Closed]) auto
    have "units S" using units_pop [OF okD(3) [OF ok], of Closed] S(1) by simp
    then have "ledger_ok out keep t (s\<lparr>sem_waiters := S\<rparr>)"
      using ok S by (simp add: ledger_ok_def sem_ok_def out_waiters keep_any_waiters)
    then have "ledger_ok out keep t (wake_waker u w (s\<lparr>sem_waiters := S\<rparr>))" by (rule wake [OF step.prems(3)])
    moreover have "rec sem_waiters put_waiters u (wake_waker u w (s\<lparr>sem_waiters := S\<rparr>)) = Some s'"
      using step.hyps step.prems(1,2) S(1) by (simp add: close_front_def)
    ultimately show ?thesis using step.IH step.prems(3) by blast
  qed
qed

lemma close_ok:
  assumes "ledger_hooks out keep u" and ok: "ledger_ok out keep t s" and "sem_close u s = Some s'"
  shows "ledger_ok out keep t s'"
proof -
  have "ledger_ok out keep t (s\<lparr>sem_closed := True\<rparr>)"
    using ok by (simp add: ledger_ok_def sem_ok_def out_closed keep_closed)
  then show ?thesis
    using wake_closed_ok [OF _ refl refl assms(1)] assms(3) ok by (auto simp: sem_close_def split: if_splits)
qed

end

end
