(* ===== verification/Local_Mutex.thy ===== *)
theory Local_Mutex
  imports Local_Slots
begin

text \<open>
  What the mutex of one shard, \<open>src/src/sync/local/mutex.rs\<close>, promises.  The \<open>world\<close> of the
  context counts the guards that are out, so that code of the user may take and drop guards too.
  The permit of the semaphore under the mutex is at any moment in one of three places: free, kept
  for a waiter that has been granted it, or with a guard.
\<close>

subsection \<open>One permit\<close>

abbreviation guards :: "('w, nat, 'x) sem_scheme \<Rightarrow> int" where
  "guards s \<equiv> int (world s)"

text \<open>Nobody closes the semaphore of a mutex.\<close>

definition lock_open :: "('w, 'e, 'x) sem_scheme \<Rightarrow> bool" where
  "lock_open s \<longleftrightarrow> \<not> sem_closed s \<and> (\<forall>k. status (sem_waiters s) k \<noteq> Closed)"

abbreviation lock_ok :: "int \<Rightarrow> ('w, nat, 'x) sem_scheme \<Rightarrow> bool" where
  "lock_ok \<equiv> ledger_ok guards lock_open"

abbreviation lock_hooks :: "('w ucall \<Rightarrow> ('w, nat, 'x) sem_scheme \<Rightarrow> ('w, nat, 'x) sem_scheme) \<Rightarrow> bool" where
  "lock_hooks \<equiv> ledger_hooks guards lock_open"

interpretation lock: ledger guards lock_open
  by unfold_locales (auto simp: lock_open_def)

text \<open>Handing a permit to a new guard.\<close>

abbreviation guarded :: "('w, nat, 'x) sem_scheme \<Rightarrow> ('w, nat, 'x) sem_scheme" where
  "guarded s \<equiv> s\<lparr>world := Suc (world s)\<rparr>"

lemma lock_guarded: "lock_ok 0 s \<Longrightarrow> lock_ok 1 (guarded s)"
  by (simp add: ledger_ok_def sem_ok_def lock_open_def MAX_PERMITS_def usize_max_def)

lemma lock_poll:
  assumes u: "lock_hooks u" "key_kept u a" and ok: "lock_ok 1 s" and n: "a_n a = 1"
    and room: "length (s_entries (sem_waiters (snd (snd (acquire_poll u waker a s))))) < NIL"
    and r: "acquire_poll u waker a s = (r, a', s')"
  shows "r = Pending \<and> lock_ok 1 s' \<or> (\<exists>k. r = Ready (Inr k)) \<and> lock_ok 0 s'"
proof -
  have "r \<noteq> Ready (Inl ())"
  proof
    assume "r = Ready (Inl ())"
    from lock.poll_fails [OF u(1) ok r [unfolded this]] show False by (auto simp: ledger_ok_def lock_open_def)
  qed
  then show ?thesis
    using lock.poll_ok [OF u ok n room] unfolding r
    by (cases r) (auto simp: ledger_result_def split: sum.splits)
qed

subsection \<open>Runs of the mutex\<close>

inductive lock_step :: "('w ucall \<Rightarrow> ('w, nat, 'x) sem_scheme \<Rightarrow> ('w, nat, 'x) sem_scheme)
    \<Rightarrow> ('w, nat, 'x) sem_scheme \<Rightarrow> ('w, nat, 'x) sem_scheme \<Rightarrow> bool" for u where
  try_locked: "mutex_try_lock s = Inr (True, s') \<Longrightarrow> lock_step u s (guarded s')"
| try_failed: "mutex_try_lock s = Inr (False, s') \<Longrightarrow> lock_step u s s'"
| locked: "mutex_lock_poll u waker a s = Inr (Ready (), a', s') \<Longrightarrow> a_n a = 1 \<Longrightarrow> key_kept u a \<Longrightarrow>
    length (s_entries (sem_waiters s')) < NIL \<Longrightarrow> lock_step u s (guarded s')"
| waits: "mutex_lock_poll u waker a s = Inr (Pending, a', s') \<Longrightarrow> a_n a = 1 \<Longrightarrow> key_kept u a \<Longrightarrow>
    length (s_entries (sem_waiters s')) < NIL \<Longrightarrow> lock_step u s s'"
| cancelled: "acquire_cancel u a s = Some (a', s') \<Longrightarrow> a_n a = 1 \<Longrightarrow> lock_step u s s'"
| unlocked: "0 < world s \<Longrightarrow> mutex_guard_drop u (s\<lparr>world := world s - 1\<rparr>) = Some s' \<Longrightarrow> lock_step u s s'"
| ran: "lock_step u s (u c s)"

lemma mutex_try_lock_cases:
  assumes "lock_ok t s"
  shows "mutex_try_lock s = (if waiters_is_empty (sem_waiters s) \<and> 1 \<le> permits s
    then Inr (True, s\<lparr>permits := permits s - 1\<rparr>) else Inr (False, s))"
  using assms by (auto simp: mutex_try_lock_def try_acquire_many_def checked_permits_def ledger_ok_def lock_open_def
      MAX_PERMITS_def usize_max_def)

lemma lock_step_ok:
  assumes "lock_step u s s'" and u: "lock_hooks u" and ok: "lock_ok 1 s"
  shows "lock_ok 1 s'"
  using assms(1)
proof cases
  case (try_locked s1)
  then show ?thesis
    using lock_guarded lock.taken_ok [OF ok] by (auto simp: mutex_try_lock_cases [OF ok] split: if_splits)
next
  case (try_failed)
  then show ?thesis using ok by (auto simp: mutex_try_lock_cases [OF ok] split: if_splits)
next
  case (locked waker a a' s1)
  obtain n where p: "acquire_poll u waker a s = (Ready (Inr n), a', s1)"
    using locked(2) by (auto simp: mutex_lock_poll_def split: prod.splits poll.splits sum.splits)
  have "lock_ok 0 s1" using lock_poll [OF u locked(4) ok locked(3) _ p] locked(5) p by simp
  then show ?thesis using locked(1) lock_guarded [of s1] by simp
next
  case (waits waker a a')
  have p: "acquire_poll u waker a s = (Pending, a', s')"
    using waits(1) by (auto simp: mutex_lock_poll_def split: prod.splits poll.splits sum.splits)
  show ?thesis using lock_poll [OF u waits(3) ok waits(2) _ p] waits(4) p by simp
next
  case (cancelled a a')
  then show ?thesis using lock.cancel_ok [OF u ok] by blast
next
  case (unlocked)
  have "lock_ok 0 (s\<lparr>world := world s - 1\<rparr>)"
    using ok unlocked(1) by (auto simp: ledger_ok_def sem_ok_def lock_open_def)
  from lock.release_ok [OF u this, of 1 s'] show ?thesis
    using unlocked(2) by (simp add: mutex_guard_drop_def MAX_PERMITS_def usize_max_def)
next
  case (ran c)
  then show ?thesis using lock.user [OF u ok] by simp
qed

lemma lock_run_ok:
  assumes "(lock_step u)\<^sup>*\<^sup>* s s'" and "lock_hooks u" and "lock_ok 1 s"
  shows "lock_ok 1 s'"
  using assms(1) by (induction rule: rtranclp_induct) (auto intro: lock_step_ok assms(2,3))

lemma mutex_init_ok:
  assumes "mutex_init v s0 = Inr s" and "world s0 = 0"
  shows "lock_ok 1 s"
proof -
  obtain s1 where s1: "sem_init 1 s0 = Inr s1" "s = s1\<lparr>mvalue := v\<rparr>"
    using assms(1) by (auto simp: mutex_init_def split: sum.splits)
  have "permits s = 1" "sem_waiters s = slab_new" "\<not> sem_closed s" "world s = 0"
    using s1 assms(2) by (auto simp: sem_init_def split: if_splits)
  then show ?thesis
    by (simp add: ledger_ok_def lock_open_def sem_ok_def slab_inv_new room_new line_new isize_max_def)
      (simp add: ones_def slab_new_def MAX_PERMITS_def usize_max_def)
qed

subsection \<open>Properties\<close>

text \<open>C9: Mutual exclusion.  Whatever sequence of lock attempts, polls, cancellations and drops of guards a
  new mutex has seen, and whatever the wakers did in between, at most one guard is out; and while one
  is, no waiter has been granted the lock and an attempt to take it fails and changes nothing.\<close>

theorem mutex_exclusive:
  assumes "lock_hooks u" and "mutex_init v s0 = Inr s" and "world s0 = 0" and "(lock_step u)\<^sup>*\<^sup>* s s'"
  shows "world s' \<le> 1 \<and> (world s' = 1 \<longrightarrow> granted (sem_waiters s') = 0 \<and> mutex_try_lock s' = Inr (False, s'))"
proof -
  have "lock_ok 1 s'" by (rule lock_run_ok [OF assms(4,1) mutex_init_ok [OF assms(2,3)]])
  then show ?thesis using mutex_try_lock_cases [of 1 s'] by (auto simp: ledger_ok_def)
qed

definition mutex_start :: "(nat, nat, string) mutex" where
  "mutex_start = \<lparr>budget = 128, cur_task = Some 0, on_shard = True, budget_yields = 0, world = 0, permits = 1,
     sem_closed = False, sem_waiters = slab_new, mvalue = ''v''\<rparr>"

lemma mutex_start_is:
  "mutex_init ''v'' mutex_start = Inr mutex_start" "world mutex_start = 0"
  "mutex_try_lock mutex_start = Inr (True, mutex_start\<lparr>permits := 0\<rparr>)"
  by (simp_all add: mutex_init_def sem_init_def MAX_PERMITS_def usize_max_def mutex_start_def mutex_try_lock_def
      try_acquire_many_def checked_permits_def waiters_is_empty_def slab_new_def)

lemma idle_hooks: "lock_hooks (\<lambda>c s. s)"
  by (simp add: ledger_hooks_def)

theorem mutex_exclusive_witness:
  "(lock_step (\<lambda>c s. s))\<^sup>*\<^sup>* mutex_start (guarded (mutex_start\<lparr>permits := 0\<rparr>))
   \<and> world (guarded (mutex_start\<lparr>permits := 0\<rparr>)) = 1
   \<and> mutex_try_lock (guarded (mutex_start\<lparr>permits := 0\<rparr>)) = Inr (False, guarded (mutex_start\<lparr>permits := 0\<rparr>))"
proof -
  have "lock_step (\<lambda>c s. s) mutex_start (guarded (mutex_start\<lparr>permits := 0\<rparr>))"
    by (rule lock_step.try_locked [OF mutex_start_is(3)])
  then have r: "(lock_step (\<lambda>c s. s))\<^sup>*\<^sup>* mutex_start (guarded (mutex_start\<lparr>permits := 0\<rparr>))" by blast
  show ?thesis using mutex_exclusive [OF idle_hooks mutex_start_is(1,2) r] r by (simp add: mutex_start_def)
qed

text \<open>C36: A lock future never fails: the branch the source marks unreachable, a closed semaphore, is never
  taken on a mutex.\<close>

theorem mutex_lock_never_fails:
  assumes "lock_hooks u" and "mutex_init v s0 = Inr s" and "world s0 = 0" and "(lock_step u)\<^sup>*\<^sup>* s s'"
    and "key_kept u a" and "a_n a = 1"
    and "length (s_entries (sem_waiters (snd (snd (acquire_poll u waker a s'))))) < NIL"
  shows "\<exists>r a' s''. mutex_lock_poll u waker a s' = Inr (r, a', s'')"
proof -
  have "lock_ok 1 s'" by (rule lock_run_ok [OF assms(4,1) mutex_init_ok [OF assms(2,3)]])
  moreover obtain r a' s1 where p: "acquire_poll u waker a s' = (r, a', s1)" by (cases "acquire_poll u waker a s'") auto
  ultimately show ?thesis
    using lock_poll [OF assms(1,5) _ assms(6,7) p] p by (auto simp: mutex_lock_poll_def split: poll.splits sum.splits)
qed

theorem mutex_lock_never_fails_witness:
  "\<exists>r a' s''. mutex_lock_poll (\<lambda>c s. s) 7 \<lparr>a_n = 1, a_key = None\<rparr> mutex_start = Inr (r, a', s'')"
proof -
  have "length (s_entries (sem_waiters (snd (snd (acquire_poll (\<lambda>c s. s) (7::nat) \<lparr>a_n = 1, a_key = None\<rparr> mutex_start))))) < NIL"
    by (simp add: acquire_poll_def acquire_fresh_def exhausted_def mutex_start_def waiters_is_empty_def slab_new_def
        spent_one_def NIL_def usize_max_def)
  from mutex_lock_never_fails [OF idle_hooks mutex_start_is(1,2) rtranclp.rtrancl_refl _ _ this]
  show ?thesis by (simp add: key_kept_def)
qed

end
