(* ===== verification/Local_Oneshot.thy ===== *)
theory Local_Oneshot
  imports Coop
begin

text \<open>
  The one-value channel of one shard, \<open>src/src/sync/local/oneshot.rs\<close>.  The two halves are options of
  the shared block; that the user still has the half and its block is a flag each, \<open>tx_inner\<close> and
  \<open>rx_inner\<close>, which a call that consumes the half clears first.  Calls of wakers (\<open>u\<close>) and the
  destructor of a value (\<open>d\<close>) are code of the user that may act on the whole state.
  The release of the block itself with its last half is not modelled.
\<close>

unbundle bit_operations_syntax

subsection \<open>The channel\<close>

definition VALUE_SENT :: "8 word" where "VALUE_SENT = 1"
definition RX_CLOSED :: "8 word" where "RX_CLOSED = 2"
definition TX_DROPPED :: "8 word" where "TX_DROPPED = 4"

record ('w, 'e, 'v) oneshot = "'e ctx" +
  os_state :: "8 word"
  os_value :: "'v option"
  os_rx_waker :: "'w option"
  os_tx_waker :: "'w option"
  tx_inner :: bool
  rx_inner :: bool

definition os_has :: "8 word \<Rightarrow> ('w, 'e, 'v, 'x) oneshot_scheme \<Rightarrow> bool" where
  "os_has flag s \<longleftrightarrow> os_state s AND flag \<noteq> 0"

definition os_set :: "8 word \<Rightarrow> ('w, 'e, 'v, 'x) oneshot_scheme \<Rightarrow> ('w, 'e, 'v, 'x) oneshot_scheme" where
  "os_set flag s = s\<lparr>os_state := os_state s OR flag\<rparr>"

definition os_put :: "'v \<Rightarrow> ('w, 'e, 'v, 'x) oneshot_scheme \<Rightarrow> ('w, 'e, 'v, 'x) oneshot_scheme" where
  "os_put v s = s\<lparr>os_value := Some v\<rparr>"

definition os_take :: "('w, 'e, 'v, 'x) oneshot_scheme \<Rightarrow> 'v option \<times> ('w, 'e, 'v, 'x) oneshot_scheme" where
  "os_take s = (os_value s, s\<lparr>os_value := None\<rparr>)"

text \<open>The cell of a waker is given by its getter and its setter.\<close>

definition register_slot :: "('s \<Rightarrow> 'w option) \<Rightarrow> ('w option \<Rightarrow> 's \<Rightarrow> 's) \<Rightarrow> ('w ucall \<Rightarrow> 's \<Rightarrow> 's) \<Rightarrow> 'w \<Rightarrow> 's \<Rightarrow> bool \<times> 's" where
  "register_slot slot put u waker s =
     (if slot s = Some waker then (False, s)
      else (let s1 = u (Clone waker) s in (True, drop_waker u (slot s1) (put (Some waker) s1))))"

definition wake_slot :: "('s \<Rightarrow> 'w option) \<Rightarrow> ('w option \<Rightarrow> 's \<Rightarrow> 's) \<Rightarrow> ('w ucall \<Rightarrow> 's \<Rightarrow> 's) \<Rightarrow> 's \<Rightarrow> 's" where
  "wake_slot slot put u s = wake_waker u (slot s) (put None s)"

abbreviation put_rx :: "'w option \<Rightarrow> ('w, 'e, 'v, 'x) oneshot_scheme \<Rightarrow> ('w, 'e, 'v, 'x) oneshot_scheme" where
  "put_rx w s \<equiv> s\<lparr>os_rx_waker := w\<rparr>"

abbreviation put_tx :: "'w option \<Rightarrow> ('w, 'e, 'v, 'x) oneshot_scheme \<Rightarrow> ('w, 'e, 'v, 'x) oneshot_scheme" where
  "put_tx w s \<equiv> s\<lparr>os_tx_waker := w\<rparr>"

definition oneshot_channel :: "('w, 'e, 'v, 'x) oneshot_scheme \<Rightarrow> ('w, 'e, 'v, 'x) oneshot_scheme" where
  "oneshot_channel s = s\<lparr>os_state := 0, os_value := None, os_rx_waker := None, os_tx_waker := None,
     tx_inner := True, rx_inner := True\<rparr>"

subsection \<open>The sender\<close>

definition os_send :: "('w ucall \<Rightarrow> ('w, 'e, 'v, 'x) oneshot_scheme \<Rightarrow> ('w, 'e, 'v, 'x) oneshot_scheme) \<Rightarrow> 'v
    \<Rightarrow> ('w, 'e, 'v, 'x) oneshot_scheme \<Rightarrow> ('v + unit) \<times> ('w, 'e, 'v, 'x) oneshot_scheme" where
  "os_send u v s =
     (if \<not> tx_inner s then (Inl v, s)
      else
        (let s1 = s\<lparr>tx_inner := False\<rparr>
         in if os_has RX_CLOSED s1 then (Inl v, os_set TX_DROPPED s1)
            else (Inr (), wake_slot os_rx_waker put_rx u (os_set (VALUE_SENT OR TX_DROPPED) (os_put v s1)))))"

definition tx_is_closed :: "('w, 'e, 'v, 'x) oneshot_scheme \<Rightarrow> bool" where
  "tx_is_closed s \<longleftrightarrow> \<not> tx_inner s \<or> os_has RX_CLOSED s"

definition poll_closed :: "('w ucall \<Rightarrow> ('w, 'e, 'v, 'x) oneshot_scheme \<Rightarrow> ('w, 'e, 'v, 'x) oneshot_scheme) \<Rightarrow> 'w
    \<Rightarrow> ('w, 'e, 'v, 'x) oneshot_scheme \<Rightarrow> unit poll \<times> ('w, 'e, 'v, 'x) oneshot_scheme" where
  "poll_closed u waker s =
     (if \<not> tx_inner s then (Ready (), s)
      else if os_has RX_CLOSED s then (Ready (), s)
      else
        (case register_slot os_tx_waker put_tx u waker s of
           (cloned, s1) \<Rightarrow> (if cloned \<and> os_has RX_CLOSED s1 then Ready () else Pending, s1)))"

definition sender_drop :: "('w ucall \<Rightarrow> ('w, 'e, 'v, 'x) oneshot_scheme \<Rightarrow> ('w, 'e, 'v, 'x) oneshot_scheme)
    \<Rightarrow> ('w, 'e, 'v, 'x) oneshot_scheme \<Rightarrow> ('w, 'e, 'v, 'x) oneshot_scheme" where
  "sender_drop u s =
     (if \<not> tx_inner s then s
      else
        (let s1 = wake_slot os_rx_waker put_rx u (os_set TX_DROPPED (s\<lparr>tx_inner := False\<rparr>))
         in drop_waker u (os_tx_waker s1) (put_tx None s1)))"

subsection \<open>The receiver\<close>

datatype try_recv_error = Empty | Recv_Closed

datatype recv_panic = After_complete

definition os_close :: "('w ucall \<Rightarrow> ('w, 'e, 'v, 'x) oneshot_scheme \<Rightarrow> ('w, 'e, 'v, 'x) oneshot_scheme)
    \<Rightarrow> ('w, 'e, 'v, 'x) oneshot_scheme \<Rightarrow> ('w, 'e, 'v, 'x) oneshot_scheme" where
  "os_close u s = (if \<not> rx_inner s then s else wake_slot os_tx_waker put_tx u (os_set RX_CLOSED s))"

definition is_terminated :: "('w, 'e, 'v, 'x) oneshot_scheme \<Rightarrow> bool" where
  "is_terminated s \<longleftrightarrow> \<not> rx_inner s"

definition os_is_empty :: "('w, 'e, 'v, 'x) oneshot_scheme \<Rightarrow> bool" where
  "os_is_empty s \<longleftrightarrow> \<not> rx_inner s \<or> \<not> os_has VALUE_SENT s"

definition os_try_recv :: "('w, 'e, 'v, 'x) oneshot_scheme
    \<Rightarrow> (try_recv_error + 'v) \<times> ('w, 'e, 'v, 'x) oneshot_scheme" where
  "os_try_recv s =
     (if \<not> rx_inner s then (Inl Recv_Closed, s)
      else
        (case os_take s of
           (Some v, s1) \<Rightarrow> (Inr v, s1\<lparr>rx_inner := False\<rparr>)
         | (None, s1) \<Rightarrow>
             if os_has (RX_CLOSED OR TX_DROPPED) s1 then (Inl Recv_Closed, s1\<lparr>rx_inner := False\<rparr>)
             else (Inl Empty, s1)))"

definition receiver_drop :: "('w ucall \<Rightarrow> ('w, 'e, 'v, 'x) oneshot_scheme \<Rightarrow> ('w, 'e, 'v, 'x) oneshot_scheme)
    \<Rightarrow> ('v \<Rightarrow> ('w, 'e, 'v, 'x) oneshot_scheme \<Rightarrow> ('w, 'e, 'v, 'x) oneshot_scheme)
    \<Rightarrow> ('w, 'e, 'v, 'x) oneshot_scheme \<Rightarrow> ('w, 'e, 'v, 'x) oneshot_scheme" where
  "receiver_drop u d s =
     (if \<not> rx_inner s then s
      else
        (let s1 = wake_slot os_tx_waker put_tx u (os_set RX_CLOSED (s\<lparr>rx_inner := False\<rparr>));
             s2 = drop_waker u (os_rx_waker s1) (put_rx None s1)
         in case os_take s2 of (None, s3) \<Rightarrow> s3 | (Some v, s3) \<Rightarrow> d v s3))"

definition DONE :: "8 word" where
  "DONE = VALUE_SENT OR RX_CLOSED OR TX_DROPPED"

text \<open>A receive that fails, because no value came, answers \<open>Inl ()\<close>.\<close>

definition receiver_poll :: "('w ucall \<Rightarrow> ('w, 'e, 'v, 'x) oneshot_scheme \<Rightarrow> ('w, 'e, 'v, 'x) oneshot_scheme) \<Rightarrow> 'w
    \<Rightarrow> ('w, 'e, 'v, 'x) oneshot_scheme
    \<Rightarrow> recv_panic + (unit + 'v) poll \<times> ('w, 'e, 'v, 'x) oneshot_scheme" where
  "receiver_poll u waker s =
     (if \<not> rx_inner s then Inl After_complete
      else
        (let (ready, s1) =
           (if os_has DONE s then (True, s)
            else (case register_slot os_rx_waker put_rx u waker s of (cloned, s1) \<Rightarrow> (cloned \<and> os_has DONE s1, s1)))
         in if \<not> ready then Inr (Pending, s1)
            else
              (case exhausted u waker s1 of
                 (True, s2) \<Rightarrow> Inr (Pending, s2)
               | (False, s2) \<Rightarrow>
                   (case os_take s2 of
                      (v, s3) \<Rightarrow>
                        Inr (Ready (case v of None \<Rightarrow> Inl () | Some v \<Rightarrow> Inr v),
                          spent_one (s3\<lparr>rx_inner := False\<rparr>))))))"

subsection \<open>The flags\<close>

lemma os_has_or: "os_has (a OR b) s \<longleftrightarrow> os_has a s \<or> os_has b s"
  by (simp add: os_has_def bit.conj_disj_distrib or_eq_0_iff)

lemma os_has_set: "os_has a (os_set b s) \<longleftrightarrow> os_has a s \<or> b AND a \<noteq> 0"
  by (simp add: os_has_def os_set_def bit.conj_disj_distrib2 or_eq_0_iff)

lemma os_set_fields [simp]:
  "os_value (os_set b s) = os_value s" "tx_inner (os_set b s) = tx_inner s" "rx_inner (os_set b s) = rx_inner s"
  "os_rx_waker (os_set b s) = os_rx_waker s" "os_tx_waker (os_set b s) = os_tx_waker s" "budget (os_set b s) = budget s"
  by (simp_all add: os_set_def)

lemma os_has_fields [simp]:
  "os_has a (s\<lparr>os_value := v\<rparr>) = os_has a s" "os_has a (s\<lparr>tx_inner := t\<rparr>) = os_has a s"
  "os_has a (s\<lparr>rx_inner := t\<rparr>) = os_has a s" "os_has a (s\<lparr>os_rx_waker := w\<rparr>) = os_has a s"
  "os_has a (s\<lparr>os_tx_waker := w\<rparr>) = os_has a s" "os_has a (s\<lparr>budget := b\<rparr>) = os_has a s"
  "os_has a (s\<lparr>budget_yields := y\<rparr>) = os_has a s"
  by (simp_all add: os_has_def)

lemmas os_flags = VALUE_SENT_def RX_CLOSED_def TX_DROPPED_def DONE_def

subsection \<open>Every operation keeps a sent value until it is received\<close>

definition os_ok :: "('w, 'e, 'v, 'x) oneshot_scheme \<Rightarrow> bool" where
  "os_ok s \<longleftrightarrow> (os_value s \<noteq> None \<longrightarrow> os_has VALUE_SENT s) \<and> (os_has VALUE_SENT s \<longrightarrow> os_has TX_DROPPED s)
     \<and> (tx_inner s \<longleftrightarrow> \<not> os_has TX_DROPPED s) \<and> (rx_inner s \<and> os_has VALUE_SENT s \<longrightarrow> os_value s \<noteq> None)"

text \<open>What is asked of code of the user: it keeps this, and a receiver that is gone stays gone.\<close>

definition os_hooks :: "('w ucall \<Rightarrow> ('w, 'e, 'v, 'x) oneshot_scheme \<Rightarrow> ('w, 'e, 'v, 'x) oneshot_scheme)
    \<Rightarrow> ('v \<Rightarrow> ('w, 'e, 'v, 'x) oneshot_scheme \<Rightarrow> ('w, 'e, 'v, 'x) oneshot_scheme) \<Rightarrow> bool" where
  "os_hooks u d \<longleftrightarrow> (\<forall>c v s. os_ok s \<longrightarrow> os_ok (u c s) \<and> os_ok (d v s) \<and> (rx_inner (u c s) \<longrightarrow> rx_inner s))"

lemma os_user: "os_hooks u d \<Longrightarrow> os_ok s \<Longrightarrow> os_ok (u c s)" "os_hooks u d \<Longrightarrow> os_ok s \<Longrightarrow> os_ok (d v s)"
  by (simp_all add: os_hooks_def)

lemma os_wake: "os_hooks u d \<Longrightarrow> os_ok s \<Longrightarrow> os_ok (wake_waker u w s)"
  by (simp add: wake_waker_def os_user split: option.split)

lemma os_drop: "os_hooks u d \<Longrightarrow> os_ok s \<Longrightarrow> os_ok (drop_waker u w s)"
  by (simp add: drop_waker_def os_user split: option.split)

lemma os_ok_wakers [simp]:
  "os_ok (s\<lparr>os_rx_waker := w\<rparr>) = os_ok s" "os_ok (s\<lparr>os_tx_waker := w\<rparr>) = os_ok s" "os_ok (s\<lparr>budget := b\<rparr>) = os_ok s"
  "os_ok (s\<lparr>budget_yields := y\<rparr>) = os_ok s" "os_ok (spent_one s) = os_ok s"
  by (simp_all add: os_ok_def spent_one_def)

lemma os_wake_rx: "os_hooks u d \<Longrightarrow> os_ok s \<Longrightarrow> os_ok (wake_slot os_rx_waker put_rx u s)"
  by (simp add: wake_slot_def os_wake)

lemma os_wake_tx: "os_hooks u d \<Longrightarrow> os_ok s \<Longrightarrow> os_ok (wake_slot os_tx_waker put_tx u s)"
  by (simp add: wake_slot_def os_wake)

lemma os_register_rx: "os_hooks u d \<Longrightarrow> os_ok s \<Longrightarrow> os_ok (snd (register_slot os_rx_waker put_rx u w s))"
  by (simp add: register_slot_def Let_def os_drop os_user)

lemma os_register_tx: "os_hooks u d \<Longrightarrow> os_ok s \<Longrightarrow> os_ok (snd (register_slot os_tx_waker put_tx u w s))"
  by (simp add: register_slot_def Let_def os_drop os_user)

lemma os_exhausted: "os_hooks u d \<Longrightarrow> os_ok s \<Longrightarrow> os_ok (snd (exhausted u w s))"
  by (simp add: exhausted_def refused_def budget_yield_def os_user)

lemma os_send_ok:
  assumes "os_hooks u d" and "os_ok s"
  shows "os_ok (snd (os_send u v s))"
proof -
  have "os_ok (os_set TX_DROPPED (s\<lparr>tx_inner := False\<rparr>))" if "os_has RX_CLOSED s" "tx_inner s"
    using assms(2) that by (auto simp: os_ok_def os_has_set os_flags)
  moreover have "os_ok (os_set (VALUE_SENT OR TX_DROPPED) (os_put v (s\<lparr>tx_inner := False\<rparr>)))" if "tx_inner s"
    using assms(2) that by (auto simp: os_ok_def os_has_set os_flags os_put_def)
  ultimately show ?thesis using assms by (simp add: os_send_def Let_def os_wake_rx)
qed

lemma os_sender_drop_ok:
  assumes "os_hooks u d" and "os_ok s"
  shows "os_ok (sender_drop u s)"
proof -
  have "os_ok (os_set TX_DROPPED (s\<lparr>tx_inner := False\<rparr>))" if "tx_inner s"
    using assms(2) that by (auto simp: os_ok_def os_has_set os_flags)
  then show ?thesis using assms by (simp add: sender_drop_def Let_def os_wake_rx os_drop)
qed

lemma os_close_ok:
  assumes "os_hooks u d" and "os_ok s"
  shows "os_ok (os_close u s)"
proof -
  have "os_ok (os_set RX_CLOSED s)" using assms(2) by (auto simp: os_ok_def os_has_set os_flags)
  then show ?thesis using assms by (simp add: os_close_def os_wake_tx)
qed

lemma os_take_ok: "os_ok s \<Longrightarrow> os_ok (s\<lparr>os_value := None, rx_inner := False\<rparr>)"
  by (auto simp: os_ok_def)

lemma os_gone:
  assumes "os_hooks u d" and "os_ok s" and "\<not> rx_inner s"
  shows "\<not> rx_inner (wake_waker u w s)" and "\<not> rx_inner (drop_waker u w s)"
  using assms by (auto simp: os_hooks_def wake_waker_def drop_waker_def split: option.split)

lemma os_receiver_drop_ok:
  assumes u: "os_hooks u d" and "os_ok s"
  shows "os_ok (receiver_drop u d s)"
proof -
  define s0 where "s0 = (os_set RX_CLOSED (s\<lparr>rx_inner := False\<rparr>))\<lparr>os_tx_waker := None\<rparr>"
  have 0: "os_ok s0" "\<not> rx_inner s0" using assms(2) by (auto simp: s0_def os_ok_def os_has_set os_flags)
  define s1 where "s1 = wake_waker u (os_tx_waker s) s0"
  have 1: "os_ok s1" "\<not> rx_inner s1" unfolding s1_def by (rule os_wake [OF u 0(1)], rule os_gone [OF u 0])
  define s2 where "s2 = drop_waker u (os_rx_waker s1) (s1\<lparr>os_rx_waker := None\<rparr>)"
  have 2: "os_ok s2" "\<not> rx_inner s2"
    unfolding s2_def by (rule os_drop [OF u], use 1 in simp, rule os_gone [OF u], use 1 in auto)
  then have 3: "os_ok (s2\<lparr>os_value := None\<rparr>)" by (auto simp: os_ok_def)
  have "wake_slot os_tx_waker put_tx u (os_set RX_CLOSED (s\<lparr>rx_inner := False\<rparr>)) = s1"
    by (simp add: wake_slot_def s1_def s0_def)
  then show ?thesis
    using assms 3 os_user(2) [OF u 3]
    by (simp add: receiver_drop_def Let_def os_take_def s2_def [symmetric] split: option.split)
qed

lemma os_try_recv_ok: "os_ok s \<Longrightarrow> os_ok (snd (os_try_recv s))"
  by (cases "os_value s") (auto simp: os_try_recv_def os_take_def os_take_ok, simp_all add: os_ok_def)

lemma receiver_poll_ok:
  assumes u: "os_hooks u d" and ok: "os_ok s" and r: "receiver_poll u w s = Inr (r, s')"
  shows "os_ok s'"
proof -
  define p where "p = (if os_has DONE s then (True, s)
    else (case register_slot os_rx_waker put_rx u w s of (cloned, s1) \<Rightarrow> (cloned \<and> os_has DONE s1, s1)))"
  have ok1: "os_ok (snd p)" using ok os_register_rx [OF u ok, of w] by (auto simp: p_def split: prod.split)
  have ok2: "os_ok (snd (exhausted u w (snd p)))" by (rule os_exhausted [OF u ok1])
  show ?thesis
    using r ok1 ok2 os_take_ok [OF ok2]
    by (cases p; cases "exhausted u w (snd p)")
      (auto simp: receiver_poll_def p_def [symmetric] os_take_def split: if_splits bool.splits)
qed

subsection \<open>Runs of the channel\<close>

inductive os_step :: "('w ucall \<Rightarrow> ('w, 'e, 'v, 'x) oneshot_scheme \<Rightarrow> ('w, 'e, 'v, 'x) oneshot_scheme)
    \<Rightarrow> ('v \<Rightarrow> ('w, 'e, 'v, 'x) oneshot_scheme \<Rightarrow> ('w, 'e, 'v, 'x) oneshot_scheme)
    \<Rightarrow> ('w, 'e, 'v, 'x) oneshot_scheme \<Rightarrow> ('w, 'e, 'v, 'x) oneshot_scheme \<Rightarrow> bool" for u d where
  sent: "os_send u v s = (r, s') \<Longrightarrow> os_step u d s s'"
| polled_closed: "poll_closed u w s = (p, s') \<Longrightarrow> os_step u d s s'"
| sender_gone: "os_step u d s (sender_drop u s)"
| closed: "os_step u d s (os_close u s)"
| tried: "os_try_recv s = (t, s') \<Longrightarrow> os_step u d s s'"
| receiver_gone: "os_step u d s (receiver_drop u d s)"
| polled: "receiver_poll u w s = Inr (q, s') \<Longrightarrow> os_step u d s s'"
| ran: "os_step u d s (u c s)"

lemma os_step_ok:
  assumes "os_step u d s s'" and u: "os_hooks u d" and ok: "os_ok s"
  shows "os_ok s'"
  using assms(1)
proof cases
  case (sent v r)
  then show ?thesis using os_send_ok [OF u ok, of v] by simp
next
  case (polled_closed w p)
  then show ?thesis
    using os_register_tx [OF u ok, of w] ok by (auto simp: poll_closed_def split: if_splits prod.splits)
next
  case (tried t)
  then show ?thesis using os_try_recv_ok [OF ok] by simp
next
  case (polled w q)
  then show ?thesis by (rule receiver_poll_ok [OF u ok])
qed (simp_all add: os_sender_drop_ok [OF u ok] os_close_ok [OF u ok] os_receiver_drop_ok [OF u ok] os_user [OF u ok])

lemma os_run_ok:
  assumes "(os_step u d)\<^sup>*\<^sup>* (oneshot_channel s0) s" and "os_hooks u d"
  shows "os_ok s"
  using assms(1)
proof (induction rule: rtranclp_induct)
  case base
  show ?case by (simp add: os_ok_def oneshot_channel_def os_has_def)
next
  case (step y z)
  then show ?case by (blast intro: os_step_ok assms(2))
qed

subsection \<open>Where the receiver's waker is\<close>

text \<open>The waker is registered and there is nothing to receive; a step leaves it so, or calls it.\<close>

definition os_open :: "'w \<Rightarrow> ('w, 'e, 'v, 'x) oneshot_scheme \<Rightarrow> bool" where
  "os_open w s \<longleftrightarrow> os_rx_waker s = Some w \<and> \<not> os_has DONE s"

definition os_minds :: "('e \<Rightarrow> 'w list) \<Rightarrow> 'w \<Rightarrow> ('w, 'e, 'v, 'x) oneshot_scheme \<Rightarrow> ('w, 'e, 'v, 'x) oneshot_scheme \<Rightarrow> bool" where
  "os_minds log w s s' \<longleftrightarrow> grows log s s' \<and> (os_open w s \<longrightarrow> told log w s s' \<or> os_open w s')"

text \<open>What is asked of code of the user here: it records wakes, and whatever it does to the channel it leaves a
  registered waker in place, with nothing to receive, or calls it; it takes no flag back.\<close>

definition os_tells :: "('e \<Rightarrow> 'w list) \<Rightarrow> ('w ucall \<Rightarrow> ('w, 'e, 'v, 'x) oneshot_scheme \<Rightarrow> ('w, 'e, 'v, 'x) oneshot_scheme) \<Rightarrow> bool" where
  "os_tells log u \<longleftrightarrow> hears log u \<and> (\<forall>c w s. os_minds log w s (u c s)) \<and> (\<forall>c s. os_has DONE s \<longrightarrow> os_has DONE (u c s))"

lemma os_tellsD:
  "os_tells log u \<Longrightarrow> hears log u" "os_tells log u \<Longrightarrow> os_minds log w s (u c s)"
  "os_tells log u \<Longrightarrow> os_has DONE s \<Longrightarrow> os_has DONE (u c s)"
  by (simp_all add: os_tells_def)

lemma os_minds_trans: "os_minds log w s s1 \<Longrightarrow> os_minds log w s1 s2 \<Longrightarrow> os_minds log w s s2"
  by (auto simp: os_minds_def intro: grows_trans told_after told_before)

lemma os_minds_same:
  assumes "world s' = world s" "os_rx_waker s' = os_rx_waker s" "os_state s' = os_state s"
  shows "os_minds log w s s'" and "os_minds log w s' s"
  using assms by (auto simp: os_minds_def os_open_def os_has_def grows_refl)

lemma os_minds_refl [simp]: "os_minds log w s s"
  by (rule os_minds_same) simp_all

lemma os_minds_drop: "os_tells log u \<Longrightarrow> os_minds log w s (drop_waker u x s)"
  by (auto simp: drop_waker_def os_tellsD os_minds_same split: option.split)

text \<open>The calls of the sender, until the receiver acts again.\<close>

definition os_sender :: "('w ucall \<Rightarrow> ('w, 'e, 'v, 'x) oneshot_scheme \<Rightarrow> ('w, 'e, 'v, 'x) oneshot_scheme)
    \<Rightarrow> ('w, 'e, 'v, 'x) oneshot_scheme \<Rightarrow> ('w, 'e, 'v, 'x) oneshot_scheme \<Rightarrow> bool" where
  "os_sender u s s' \<longleftrightarrow> (\<exists>v r. os_send u v s = (r, s')) \<or> (\<exists>w p. poll_closed u w s = (p, s')) \<or> s' = sender_drop u s
     \<or> (\<exists>c. s' = u c s)"

lemma wake_slot_minds:
  assumes u: "os_tells log u" and "world s1 = world s" and "os_open w s \<Longrightarrow> os_rx_waker s1 = Some w"
  shows "os_minds log w s (wake_slot os_rx_waker put_rx u s1)"
proof -
  have h: "hears log u" by (rule os_tellsD(1) [OF u])
  have "told log w s (wake_slot os_rx_waker put_rx u s1)" if "os_open w s"
    using wake_told [OF h, of w "put_rx None s1"] assms(3) [OF that] assms(2) by (simp add: wake_slot_def told_def)
  moreover have "grows log s (wake_slot os_rx_waker put_rx u s1)"
    using wake_grows [OF h, of "put_rx None s1" "os_rx_waker s1"] assms(2) by (simp add: wake_slot_def grows_def)
  ultimately show ?thesis by (simp add: os_minds_def)
qed

lemma register_tx_minds:
  assumes u: "os_tells log u"
  shows "os_minds log w s (snd (register_slot os_tx_waker put_tx u v s))"
proof -
  have "os_minds log w s (u (Clone v) s)" by (rule os_tellsD(2) [OF u])
  moreover have "os_minds log w (u (Clone v) s) (put_tx (Some v) (u (Clone v) s))" by (rule os_minds_same) simp_all
  ultimately show ?thesis
    using os_minds_drop [OF u] by (auto simp: register_slot_def Let_def intro: os_minds_trans)
qed

lemma sender_minds:
  assumes u: "os_tells log u" and "os_sender u s s'"
  shows "os_minds log w s s'"
proof -
  have closed: "\<not> os_has RX_CLOSED s" if "os_open w s" using that by (simp add: os_open_def DONE_def os_has_or)
  have "os_minds log w s (snd (os_send u v s))" for v
  proof (cases "tx_inner s \<and> \<not> os_has RX_CLOSED s")
    case True
    then show ?thesis
      using wake_slot_minds [OF u, of "os_set (VALUE_SENT OR TX_DROPPED) (os_put v (s\<lparr>tx_inner := False\<rparr>))" s w]
      by (simp add: os_send_def Let_def os_set_def os_put_def os_open_def)
  qed (use closed in \<open>auto simp: os_send_def Let_def os_minds_def os_set_def grows_refl\<close>)
  moreover have "os_minds log w s (sender_drop u s)"
  proof (cases "tx_inner s")
    case True
    let ?s1 = "wake_slot os_rx_waker put_rx u (os_set TX_DROPPED (s\<lparr>tx_inner := False\<rparr>))"
    have "os_minds log w s ?s1" by (rule wake_slot_minds [OF u]) (simp_all add: os_set_def os_open_def)
    moreover have "os_minds log w ?s1 (put_tx None ?s1)" by (rule os_minds_same) simp_all
    ultimately show ?thesis
      using True os_minds_drop [OF u] by (auto simp: sender_drop_def Let_def intro: os_minds_trans)
  qed (simp add: sender_drop_def)
  moreover have "os_minds log w s (snd (poll_closed u v s))" for v
    using register_tx_minds [OF u, of w s v] by (auto simp: poll_closed_def split: prod.split)
  ultimately show ?thesis using assms(2) os_tellsD(2) [OF u] unfolding os_sender_def by (metis snd_conv)
qed

lemma sender_run_minds:
  assumes "os_tells log u" and "(os_sender u)\<^sup>*\<^sup>* s s'"
  shows "os_minds log w s s'"
  using assms(2)
proof (induction rule: rtranclp_induct)
  case (step y z)
  from os_minds_trans [OF step.IH sender_minds [OF assms(1) step.hyps(2)]] show ?case .
qed simp

text \<open>A poll that answers pending was refused by the budget, which woke the task, or has registered its waker.\<close>

lemma poll_waits:
  assumes u: "os_tells log u" and r: "receiver_poll u w s = Inr (Pending, s')"
  shows "grows log s s'" and "told log w s s' \<or> os_open w s'"
proof -
  note h = os_tellsD(1) [OF u]
  define p where "p = (if os_has DONE s then (True, s)
    else (case register_slot os_rx_waker put_rx u w s of (cloned, s1) \<Rightarrow> (cloned \<and> os_has DONE s1, s1)))"
  let ?s1 = "snd p"
  have g: "grows log s ?s1"
    using hears_grows [OF h, of s "Clone w"] drop_grows [OF h, of "put_rx (Some w) (u (Clone w) s)" "os_rx_waker (u (Clone w) s)"]
    by (auto simp: p_def register_slot_def Let_def grows_refl grows_def)
  have o: "told log w s ?s1 \<or> os_open w ?s1" if "\<not> fst p"
  proof (cases "os_rx_waker s = Some w")
    case True
    then show ?thesis using that by (auto simp: p_def register_slot_def os_open_def split: if_splits)
  next
    case False
    define s0 where "s0 = put_rx (Some w) (u (Clone w) s)"
    have s1: "?s1 = drop_waker u (os_rx_waker (u (Clone w) s)) s0" "\<not> os_has DONE ?s1"
      using that False by (auto simp: p_def register_slot_def Let_def s0_def split: if_splits)
    have "\<not> os_has DONE s0" using s1 os_tellsD(3) [OF u, of s0] by (auto simp: drop_waker_def split: option.splits)
    then have "told log w s0 ?s1 \<or> os_open w ?s1"
      using os_minds_drop [OF u, of w s0] by (simp add: s1(1) os_minds_def os_open_def s0_def)
    moreover have "grows log s s0" using hears_grows [OF h, of s "Clone w"] by (simp add: s0_def grows_def)
    ultimately show ?thesis by (auto intro: told_after)
  qed
  have "\<not> fst p \<and> s' = ?s1 \<or> fst (exhausted u w ?s1) \<and> s' = snd (exhausted u w ?s1)"
    using r unfolding receiver_poll_def p_def [symmetric]
    by (cases p; cases "exhausted u w ?s1") (auto simp: os_take_def split: if_splits bool.splits)
  moreover have "told log w ?s1 (snd (exhausted u w ?s1)) \<and> grows log ?s1 (snd (exhausted u w ?s1))" if "fst (exhausted u w ?s1)"
    using that hears_told [OF h, of w "Wake_by_ref w" "budget_yield ?s1"] hears_grows [OF h, of "budget_yield ?s1" "Wake_by_ref w"]
    by (auto simp: exhausted_def refused_def budget_yield_def told_def grows_def split: if_splits)
  ultimately show "grows log s s'" "told log w s s' \<or> os_open w s'"
    using g o grows_trans [OF g] told_after [OF g] by auto
qed

subsection \<open>Properties\<close>

text \<open>C10: A value that was sent is received.  On any channel, after any history and with any wakers, a receive
  that fails proves that no value was sent, and one that succeeds that a value was and that the cell is
  now empty, so that it is received once.\<close>

theorem oneshot_value_safe:
  assumes "os_hooks u d" and "(os_step u d)\<^sup>*\<^sup>* (oneshot_channel s0) s" and "\<And>c s. rx_inner s \<Longrightarrow> rx_inner (u c s)"
    and "receiver_poll u w s = Inr (Ready r, s')"
  shows "(case r of Inl _ \<Rightarrow> \<not> os_has VALUE_SENT s' | Inr v \<Rightarrow> os_has VALUE_SENT s') \<and> os_value s' = None \<and> \<not> rx_inner s'"
proof -
  have ok: "os_ok s" by (rule os_run_ok [OF assms(2,1)])
  define p where "p = (if os_has DONE s then (True, s)
    else (case register_slot os_rx_waker put_rx u w s of (cloned, s1) \<Rightarrow> (cloned \<and> os_has DONE s1, s1)))"
  define s2 where "s2 = snd (exhausted u w (snd p))"
  have "os_ok (snd p)" using ok os_register_rx [OF assms(1) ok, of w] by (auto simp: p_def split: prod.split)
  then have ok2: "os_ok s2" unfolding s2_def by (rule os_exhausted [OF assms(1)])
  have rx: "rx_inner s" using assms(4) by (auto simp: receiver_poll_def split: if_splits)
  then have "rx_inner (snd p)"
    using assms(3) by (auto simp: p_def register_slot_def Let_def drop_waker_def split: option.split)
  then have rx2: "rx_inner s2" using assms(3) by (simp add: s2_def exhausted_def refused_def budget_yield_def)
  have "r = (case os_value s2 of None \<Rightarrow> Inl () | Some v \<Rightarrow> Inr v)"
    "s' = spent_one (s2\<lparr>os_value := None, rx_inner := False\<rparr>)"
    using assms(4) rx unfolding receiver_poll_def p_def [symmetric]
    by (cases p; cases "exhausted u w (snd p)"; auto simp: os_take_def s2_def split: if_splits bool.splits)+
  then show ?thesis using ok2 rx2 by (auto simp: os_ok_def spent_one_def split: option.splits)
qed

text \<open>C18: No wakeup of the receiver is lost.  Take a poll that answers pending, and any sequence of calls of the
  sender after it, with wakers that run any code that keeps to the same.  Then the poll's waker has been called
  since the poll began; or it is still registered, and no value was sent, the receiver is not closed and the
  sender is there.\<close>

theorem oneshot_pending_is_open:
  assumes "os_tells log u" and "receiver_poll u w s = Inr (Pending, s1)" and "(os_sender u)\<^sup>*\<^sup>* s1 s2"
  shows "told log w s s2 \<or> os_rx_waker s2 = Some w \<and> \<not> os_has VALUE_SENT s2 \<and> \<not> os_has RX_CLOSED s2 \<and> \<not> os_has TX_DROPPED s2"
proof -
  have m: "os_minds log w s1 s2" by (rule sender_run_minds [OF assms(1,3)])
  have "told log w s s2 \<or> os_open w s2"
    using poll_waits [OF assms(1,2)] m by (auto simp: os_minds_def intro: told_before told_after)
  then show ?thesis by (simp add: os_open_def DONE_def os_has_or)
qed

text \<open>C37: The round trip.  With wakers that leave the channel and the budget alone, a value sent on an open
  channel that still has both halves comes out of the next poll, when that has budget left; a poll after it
  panics, and a second send is refused.\<close>

definition os_quiet :: "('w ucall \<Rightarrow> ('w, 'e, 'v, 'x) oneshot_scheme \<Rightarrow> ('w, 'e, 'v, 'x) oneshot_scheme) \<Rightarrow> bool" where
  "os_quiet u \<longleftrightarrow> (\<forall>c s. os_state (u c s) = os_state s \<and> os_value (u c s) = os_value s \<and> tx_inner (u c s) = tx_inner s
     \<and> rx_inner (u c s) = rx_inner s \<and> budget (u c s) = budget s)"

theorem oneshot_roundtrip:
  assumes "os_quiet u" and "tx_inner s" and "rx_inner s" and "\<not> os_has RX_CLOSED s" and "budget s \<noteq> 0"
  shows "\<exists>s1 s2. os_send u v s = (Inr (), s1) \<and> receiver_poll u w s1 = Inr (Ready (Inr v), s2)
    \<and> receiver_poll u w s2 = Inl After_complete \<and> (\<exists>r. os_send u v' s1 = (Inl v', r))"
proof -
  define s1 where "s1 = snd (os_send u v s)"
  have s1: "os_send u v s = (Inr (), s1)" using assms(2,4) by (simp add: s1_def os_send_def Let_def)
  have f: "os_state s1 = os_state s OR (VALUE_SENT OR TX_DROPPED)" "os_value s1 = Some v" "rx_inner s1" "\<not> tx_inner s1"
    "budget s1 = budget s"
    using assms
    by (auto simp: s1_def os_send_def Let_def wake_slot_def wake_waker_def os_quiet_def os_set_def os_put_def split: option.split)
  have "os_has DONE s1"
    by (simp add: os_has_def f os_flags bit.conj_disj_distrib bit.conj_disj_distrib2 or_eq_0_iff)
  then have "receiver_poll u w s1 = Inr (Ready (Inr v), spent_one (s1\<lparr>os_value := None, rx_inner := False\<rparr>))"
    using f assms(5) by (simp add: receiver_poll_def exhausted_def os_take_def)
  moreover have "\<exists>r. os_send u v' s1 = (Inl v', r)" using f by (simp add: os_send_def)
  ultimately show ?thesis using s1 by (auto simp: receiver_poll_def spent_one_def)
qed

definition os_demo :: "(nat, unit, nat) oneshot" where
  "os_demo = oneshot_channel \<lparr>budget = 128, cur_task = Some 0, on_shard = True, budget_yields = 0, world = (),
     os_state = 0, os_value = None, os_rx_waker = None, os_tx_waker = None, tx_inner = True, rx_inner = True\<rparr>"

theorem oneshot_roundtrip_witness:
  "\<exists>s1 s2. os_send (\<lambda>c s. s) 5 os_demo = (Inr (), s1) \<and> receiver_poll (\<lambda>c s. s) 7 s1 = Inr (Ready (Inr 5), s2)"
  using oneshot_roundtrip [of "\<lambda>c s. s" os_demo 5 7 6]
  by (auto simp: os_quiet_def os_demo_def oneshot_channel_def os_has_def)

theorem oneshot_value_safe_witness:
  "\<exists>s1 s2. (os_step (\<lambda>c s. s) (\<lambda>v s. s))\<^sup>*\<^sup>* os_demo s1 \<and> receiver_poll (\<lambda>c s. s) 7 s1 = Inr (Ready (Inr 5), s2)
     \<and> os_has VALUE_SENT s2 \<and> os_value s2 = None"
proof -
  define s1 where "s1 = snd (os_send (\<lambda>c s. s) 5 os_demo)"
  define s2 where "s2 = spent_one (s1\<lparr>os_value := None, rx_inner := False\<rparr>)"
  have u: "os_hooks (\<lambda>c s. s) (\<lambda>v s. s)" by (simp add: os_hooks_def)
  have "os_step (\<lambda>c s. s) (\<lambda>v s. s) os_demo s1" unfolding s1_def by (rule os_step.sent [where r = "Inr ()" and v = 5])
      (simp add: os_send_def os_demo_def oneshot_channel_def os_has_def Let_def)
  then have run: "(os_step (\<lambda>c s. s) (\<lambda>v s. s))\<^sup>*\<^sup>* os_demo s1" by blast
  have poll: "receiver_poll (\<lambda>c s. s) 7 s1 = Inr (Ready (Inr 5), s2)"
    by (simp add: s2_def s1_def os_send_def os_demo_def oneshot_channel_def os_has_def Let_def receiver_poll_def os_set_def
        os_put_def wake_slot_def wake_waker_def os_flags exhausted_def os_take_def)
  show ?thesis
    using oneshot_value_safe [OF u run [unfolded os_demo_def] _ poll] run poll by auto
qed

text \<open>The receiver polls with waker 7, and the sender sends: 7 is called.\<close>

definition os_log :: "'w ucall \<Rightarrow> ('w, 'w list, 'v, 'x) oneshot_scheme \<Rightarrow> ('w, 'w list, 'v, 'x) oneshot_scheme" where
  "os_log c s = s\<lparr>world := world s @ called c\<rparr>"

lemma os_log_tells: "os_tells id os_log"
  by (simp add: os_tells_def hears_def os_minds_def os_open_def os_log_def os_has_def grows_def)

definition os_demo_log :: "(nat, nat list, nat) oneshot" where
  "os_demo_log = oneshot_channel \<lparr>budget = 128, cur_task = Some 0, on_shard = True, budget_yields = 0, world = [],
     os_state = 0, os_value = None, os_rx_waker = None, os_tx_waker = None, tx_inner = True, rx_inner = True\<rparr>"

theorem oneshot_pending_is_open_witness:
  "\<exists>s1 s2. receiver_poll os_log 7 os_demo_log = Inr (Pending, s1) \<and> os_send os_log 5 s1 = (Inr (), s2) \<and> 7 \<in> set (world s2)"
proof -
  let ?s1 = "os_demo_log\<lparr>os_rx_waker := Some 7\<rparr>"
  have p: "receiver_poll os_log 7 os_demo_log = Inr (Pending, ?s1)"
    by (simp add: receiver_poll_def os_demo_log_def oneshot_channel_def os_has_def register_slot_def drop_waker_def os_log_def)
  obtain s2 where s2: "os_send os_log 5 ?s1 = (Inr (), s2)" "os_has VALUE_SENT s2"
    by (simp add: os_send_def os_demo_log_def oneshot_channel_def os_has_def Let_def os_set_def os_put_def wake_slot_def
        wake_waker_def os_log_def os_flags)
  have "(os_sender os_log)\<^sup>*\<^sup>* ?s1 s2" by (rule r_into_rtranclp) (use s2 in \<open>auto simp: os_sender_def\<close>)
  from oneshot_pending_is_open [OF os_log_tells p this] show ?thesis
    using p s2 by (auto simp: told_def os_demo_log_def oneshot_channel_def)
qed

end
