(* ===== verification/Local_Mpsc.thy ===== *)
theory Local_Mpsc
  imports Local_Semaphore
begin

text \<open>
  The channels of one shard, \<open>src/src/sync/local/mpsc/\<close>: the state both flavours share (\<open>chan.rs\<close>), the
  bounded flavour whose slots are permits of the local semaphore (\<open>bounded.rs\<close>) and the unbounded one
  (\<open>unbounded.rs\<close>).  The trait \<open>Limit\<close> is a record of its operations.  Calls of wakers (\<open>u\<close>) and the
  destructor of a value (\<open>d\<close>) are code of the user.  An operation that may not return, because it serves a
  line of wakers, answers an option.  The unwinding guards \<open>Restore\<close> and \<open>CloseRest\<close> are not modelled.
\<close>

subsection \<open>The shared state\<close>

record 's limit =
  lim_release :: "nat \<Rightarrow> 's \<Rightarrow> 's option"
  lim_is_idle :: "'s \<Rightarrow> bool"
  lim_close :: "'s \<Rightarrow> 's option"
  lim_debit :: "nat \<Rightarrow> 's \<Rightarrow> 's"

record ('w, 'e, 'v) chan = "('w, 'e) sem" +
  queue :: "'v list"
  rx_waker :: "'w option"
  senders :: nat
  rx_closed :: bool
  closed_waiters :: "'w slab"
  max_cap :: nat

abbreviation put_closed :: "'w slab \<Rightarrow> ('w, 'e, 'v, 'x) chan_scheme \<Rightarrow> ('w, 'e, 'v, 'x) chan_scheme" where
  "put_closed S s \<equiv> s\<lparr>closed_waiters := S\<rparr>"

definition chan_new :: "('w, 'e, 'v, 'x) chan_scheme \<Rightarrow> ('w, 'e, 'v, 'x) chan_scheme" where
  "chan_new s = s\<lparr>queue := [], rx_waker := None, senders := 1, rx_closed := False, closed_waiters := slab_new\<rparr>"

definition chan_len :: "('w, 'e, 'v, 'x) chan_scheme \<Rightarrow> nat" where
  "chan_len s = length (queue s)"

definition wake_rx :: "('w ucall \<Rightarrow> ('w, 'e, 'v, 'x) chan_scheme \<Rightarrow> ('w, 'e, 'v, 'x) chan_scheme)
    \<Rightarrow> ('w, 'e, 'v, 'x) chan_scheme \<Rightarrow> ('w, 'e, 'v, 'x) chan_scheme" where
  "wake_rx u s = wake_waker u (rx_waker s) (s\<lparr>rx_waker := None\<rparr>)"

definition chan_push :: "('w ucall \<Rightarrow> ('w, 'e, 'v, 'x) chan_scheme \<Rightarrow> ('w, 'e, 'v, 'x) chan_scheme) \<Rightarrow> 'v
    \<Rightarrow> ('w, 'e, 'v, 'x) chan_scheme \<Rightarrow> ('w, 'e, 'v, 'x) chan_scheme" where
  "chan_push u v s = wake_rx u (s\<lparr>queue := queue s @ [v]\<rparr>)"

definition chan_pop :: "('w, 'e, 'v, 'x) chan_scheme \<Rightarrow> 'v option \<times> ('w, 'e, 'v, 'x) chan_scheme" where
  "chan_pop s = (case queue s of [] \<Rightarrow> (None, s) | v # q \<Rightarrow> (Some v, s\<lparr>queue := q\<rparr>))"

definition take_many :: "'v list \<Rightarrow> nat \<Rightarrow> ('w, 'e, 'v, 'x) chan_scheme
    \<Rightarrow> nat \<times> 'v list \<times> ('w, 'e, 'v, 'x) chan_scheme" where
  "take_many buf lim s =
     (let n = min (length (queue s)) lim in (n, buf @ take n (queue s), s\<lparr>queue := drop n (queue s)\<rparr>))"

text \<open>The cell is empty while the waker is cloned; a waker that code of the user put there meanwhile is
  dropped by the cell's \<open>set\<close>, before the old one.\<close>

definition register_rx :: "('w ucall \<Rightarrow> ('w, 'e, 'v, 'x) chan_scheme \<Rightarrow> ('w, 'e, 'v, 'x) chan_scheme) \<Rightarrow> 'w
    \<Rightarrow> ('w, 'e, 'v, 'x) chan_scheme \<Rightarrow> bool \<times> ('w, 'e, 'v, 'x) chan_scheme" where
  "register_rx u waker s =
     (let old = rx_waker s; s1 = s\<lparr>rx_waker := None\<rparr>
      in if old = Some waker then (False, s1\<lparr>rx_waker := old\<rparr>)
         else
           (let s2 = u (Clone waker) s1;
                s3 = drop_waker u (rx_waker s2) (s2\<lparr>rx_waker := Some waker\<rparr>)
            in (True, drop_waker u old s3)))"

definition pop_released :: "('w, 'e, 'v, 'x) chan_scheme limit \<Rightarrow> ('w, 'e, 'v, 'x) chan_scheme
    \<Rightarrow> ('v option \<times> ('w, 'e, 'v, 'x) chan_scheme) option" where
  "pop_released L s =
     (case chan_pop s of
        (None, s1) \<Rightarrow> Some (None, s1)
      | (Some v, s1) \<Rightarrow> map_option (Pair (Some v)) (lim_release L 1 s1))"

definition add_sender :: "('w, 'e, 'v, 'x) chan_scheme \<Rightarrow> ('w, 'e, 'v, 'x) chan_scheme" where
  "add_sender s = s\<lparr>senders := senders s + 1\<rparr>"

definition drop_sender :: "('w ucall \<Rightarrow> ('w, 'e, 'v, 'x) chan_scheme \<Rightarrow> ('w, 'e, 'v, 'x) chan_scheme)
    \<Rightarrow> ('w, 'e, 'v, 'x) chan_scheme \<Rightarrow> ('w, 'e, 'v, 'x) chan_scheme" where
  "drop_sender u s =
     (let left = senders s - 1; s1 = s\<lparr>senders := left\<rparr> in if left = 0 then wake_rx u s1 else s1)"

definition rx_is_closed :: "('w, 'e, 'v, 'x) chan_scheme \<Rightarrow> bool" where
  "rx_is_closed s \<longleftrightarrow> rx_closed s \<or> senders s = 0"

definition finished :: "('w, 'e, 'v, 'x) chan_scheme limit \<Rightarrow> ('w, 'e, 'v, 'x) chan_scheme \<Rightarrow> bool" where
  "finished L s \<longleftrightarrow> rx_is_closed s \<and> chan_len s = 0 \<and> lim_is_idle L s"

definition wake_if_finished :: "('w, 'e, 'v, 'x) chan_scheme limit
    \<Rightarrow> ('w ucall \<Rightarrow> ('w, 'e, 'v, 'x) chan_scheme \<Rightarrow> ('w, 'e, 'v, 'x) chan_scheme)
    \<Rightarrow> ('w, 'e, 'v, 'x) chan_scheme \<Rightarrow> ('w, 'e, 'v, 'x) chan_scheme" where
  "wake_if_finished L u s = (if finished L s then wake_rx u s else s)"

definition give_back :: "('w, 'e, 'v, 'x) chan_scheme limit
    \<Rightarrow> ('w ucall \<Rightarrow> ('w, 'e, 'v, 'x) chan_scheme \<Rightarrow> ('w, 'e, 'v, 'x) chan_scheme) \<Rightarrow> nat
    \<Rightarrow> ('w, 'e, 'v, 'x) chan_scheme \<Rightarrow> ('w, 'e, 'v, 'x) chan_scheme option" where
  "give_back L u n s = map_option (wake_if_finished L u) (lim_release L n s)"

subsection \<open>Receiving\<close>

definition look_again :: "('w, 'e, 'v, 'x) chan_scheme limit \<Rightarrow> ('w, 'e, 'v, 'x) chan_scheme
    \<Rightarrow> ('v option poll \<times> ('w, 'e, 'v, 'x) chan_scheme) option" where
  "look_again L s =
     (case pop_released L s of
        None \<Rightarrow> None
      | Some (Some v, s1) \<Rightarrow> Some (Ready (Some v), spent_one s1)
      | Some (None, s1) \<Rightarrow> if finished L s1 then Some (Ready None, spent_one s1) else Some (Pending, s1))"

definition poll_recv :: "('w, 'e, 'v, 'x) chan_scheme limit
    \<Rightarrow> ('w ucall \<Rightarrow> ('w, 'e, 'v, 'x) chan_scheme \<Rightarrow> ('w, 'e, 'v, 'x) chan_scheme) \<Rightarrow> 'w
    \<Rightarrow> ('w, 'e, 'v, 'x) chan_scheme \<Rightarrow> ('v option poll \<times> ('w, 'e, 'v, 'x) chan_scheme) option" where
  "poll_recv L u waker s =
     (case exhausted u waker s of
        (True, s1) \<Rightarrow> Some (Pending, s1)
      | (False, s1) \<Rightarrow>
          (case pop_released L s1 of
             None \<Rightarrow> None
           | Some (Some v, s2) \<Rightarrow> Some (Ready (Some v), spent_one s2)
           | Some (None, s2) \<Rightarrow>
               (case register_rx u waker s2 of
                  (cloned, s3) \<Rightarrow>
                    if cloned \<and> chan_len s3 \<noteq> 0 then look_again L s3
                    else if finished L s3 then
                      Some (Ready None, spent_one (drop_waker u (rx_waker s3) (s3\<lparr>rx_waker := None\<rparr>)))
                    else Some (Pending, s3))))"

text \<open>Receiving a batch: the buffer of the caller is threaded through.\<close>

definition look_again_many :: "('w, 'e, 'v, 'x) chan_scheme limit \<Rightarrow> 'v list \<Rightarrow> nat
    \<Rightarrow> ('w, 'e, 'v, 'x) chan_scheme \<Rightarrow> (nat poll \<times> 'v list \<times> ('w, 'e, 'v, 'x) chan_scheme) option" where
  "look_again_many L buf lim s =
     (case take_many buf lim s of
        (taken, buf1, s1) \<Rightarrow>
          if taken > 0 then map_option (\<lambda>s2. (Ready taken, buf1, spent_one s2)) (lim_release L taken s1)
          else if finished L s1 then Some (Ready 0, buf1, spent_one s1)
          else Some (Pending, buf1, s1))"

definition poll_recv_many :: "('w, 'e, 'v, 'x) chan_scheme limit
    \<Rightarrow> ('w ucall \<Rightarrow> ('w, 'e, 'v, 'x) chan_scheme \<Rightarrow> ('w, 'e, 'v, 'x) chan_scheme) \<Rightarrow> 'w \<Rightarrow> 'v list \<Rightarrow> nat
    \<Rightarrow> ('w, 'e, 'v, 'x) chan_scheme \<Rightarrow> (nat poll \<times> 'v list \<times> ('w, 'e, 'v, 'x) chan_scheme) option" where
  "poll_recv_many L u waker buf lim s =
     (if lim = 0 then Some (Ready 0, buf, s)
      else
        (case exhausted u waker s of
           (True, s1) \<Rightarrow> Some (Pending, buf, s1)
         | (False, s1) \<Rightarrow>
             (case take_many buf lim s1 of
                (taken, buf1, s2) \<Rightarrow>
                  if taken > 0 then map_option (\<lambda>s3. (Ready taken, buf1, spent_one s3)) (lim_release L taken s2)
                  else
                    (case register_rx u waker s2 of
                       (cloned, s3) \<Rightarrow>
                         if cloned \<and> chan_len s3 \<noteq> 0 then look_again_many L buf1 lim s3
                         else if finished L s3 then
                           Some (Ready 0, buf1, spent_one (drop_waker u (rx_waker s3) (s3\<lparr>rx_waker := None\<rparr>)))
                         else Some (Pending, buf1, s3)))))"

datatype chan_recv_error = Chan_Empty | Disconnected

definition chan_try_recv :: "('w, 'e, 'v, 'x) chan_scheme limit \<Rightarrow> ('w, 'e, 'v, 'x) chan_scheme
    \<Rightarrow> ((chan_recv_error + 'v) \<times> ('w, 'e, 'v, 'x) chan_scheme) option" where
  "chan_try_recv L s =
     (case pop_released L s of
        None \<Rightarrow> None
      | Some (Some v, s1) \<Rightarrow> Some (Inr v, s1)
      | Some (None, s1) \<Rightarrow> Some (Inl (if finished L s1 then Disconnected else Chan_Empty), s1))"

definition close_rx :: "('w, 'e, 'v, 'x) chan_scheme limit
    \<Rightarrow> ('w ucall \<Rightarrow> ('w, 'e, 'v, 'x) chan_scheme \<Rightarrow> ('w, 'e, 'v, 'x) chan_scheme)
    \<Rightarrow> ('w, 'e, 'v, 'x) chan_scheme \<Rightarrow> ('w, 'e, 'v, 'x) chan_scheme option" where
  "close_rx L u s =
     (if rx_closed s then Some s
      else
        (case lim_close L (s\<lparr>rx_closed := True\<rparr>) of
           None \<Rightarrow> None
         | Some s1 \<Rightarrow> wake_closed closed_waiters put_closed u s1))"

definition drop_rx :: "('w, 'e, 'v, 'x) chan_scheme limit
    \<Rightarrow> ('w ucall \<Rightarrow> ('w, 'e, 'v, 'x) chan_scheme \<Rightarrow> ('w, 'e, 'v, 'x) chan_scheme)
    \<Rightarrow> ('v \<Rightarrow> ('w, 'e, 'v, 'x) chan_scheme \<Rightarrow> ('w, 'e, 'v, 'x) chan_scheme)
    \<Rightarrow> ('w, 'e, 'v, 'x) chan_scheme \<Rightarrow> ('w, 'e, 'v, 'x) chan_scheme option" where
  "drop_rx L u d s =
     (case close_rx L u s of
        None \<Rightarrow> None
      | Some s1 \<Rightarrow>
          (let s2 = drop_waker u (rx_waker s1) (s1\<lparr>rx_waker := None\<rparr>); left = queue s2
           in map_option (fold d left) (lim_release L (length left) (s2\<lparr>queue := []\<rparr>))))"

subsection \<open>Waiting for the close\<close>

text \<open>The future of \<open>Sender::closed\<close> holds an optional key of the line of those waits.\<close>

definition closed_cancel :: "('w ucall \<Rightarrow> ('w, 'e, 'v, 'x) chan_scheme \<Rightarrow> ('w, 'e, 'v, 'x) chan_scheme) \<Rightarrow> wkey option
    \<Rightarrow> ('w, 'e, 'v, 'x) chan_scheme \<Rightarrow> ('w, 'e, 'v, 'x) chan_scheme" where
  "closed_cancel u key s =
     (case key of
        None \<Rightarrow> s
      | Some k \<Rightarrow>
          (case waiters_cancel k (closed_waiters s) of
             ((state, was_front, w), S) \<Rightarrow> drop_waker u w (s\<lparr>closed_waiters := S\<rparr>)))"

definition closed_join :: "('w ucall \<Rightarrow> ('w, 'e, 'v, 'x) chan_scheme \<Rightarrow> ('w, 'e, 'v, 'x) chan_scheme) \<Rightarrow> 'w
    \<Rightarrow> ('w, 'e, 'v, 'x) chan_scheme \<Rightarrow> unit poll \<times> wkey option \<times> ('w, 'e, 'v, 'x) chan_scheme" where
  "closed_join u waker s =
     (let s1 = u (Clone waker) s
      in if rx_closed s1 then (Ready (), None, u (Drop waker) s1)
         else (case slab_push 0 waker (closed_waiters s1) of (k, S) \<Rightarrow> (Pending, Some k, s1\<lparr>closed_waiters := S\<rparr>)))"

definition closed_poll :: "('w ucall \<Rightarrow> ('w, 'e, 'v, 'x) chan_scheme \<Rightarrow> ('w, 'e, 'v, 'x) chan_scheme) \<Rightarrow> 'w \<Rightarrow> wkey option
    \<Rightarrow> ('w, 'e, 'v, 'x) chan_scheme \<Rightarrow> unit poll \<times> wkey option \<times> ('w, 'e, 'v, 'x) chan_scheme" where
  "closed_poll u waker key s =
     (if rx_closed s then (Ready (), None, closed_cancel u key s)
      else
        (case key of
           None \<Rightarrow> closed_join u waker s
         | Some k \<Rightarrow>
             (case refresh closed_waiters put_closed u k waker s of
                (state, s1) \<Rightarrow>
                  if state = Waiting then (Pending, Some k, s1)
                  else closed_join u waker (closed_cancel u (Some k) s1))))"

subsection \<open>The bounded flavour\<close>

definition bounded :: "('w ucall \<Rightarrow> ('w, 'e, 'v, 'x) chan_scheme \<Rightarrow> ('w, 'e, 'v, 'x) chan_scheme)
    \<Rightarrow> ('w, 'e, 'v, 'x) chan_scheme limit" where
  "bounded u = \<lparr>lim_release = (\<lambda>n s. if n > 0 then sem_release u n s else Some s),
     lim_is_idle = (\<lambda>s. sem_holds (max_cap s) s), lim_close = sem_close u, lim_debit = sem_debit\<rparr>"

definition channel :: "nat \<Rightarrow> ('w, 'e, 'v, 'x) chan_scheme \<Rightarrow> panic + ('w, 'e, 'v, 'x) chan_scheme" where
  "channel buffer s =
     (if buffer = 0 then Inl Empty_buffer
      else
        (case sem_init buffer s of
           Inl p \<Rightarrow> Inl p
         | Inr s1 \<Rightarrow> Inr (chan_new (s1\<lparr>max_cap := buffer\<rparr>))))"

datatype 'v try_send_error = Full 'v | Send_Closed 'v

definition try_reserve :: "('w, 'e, 'v, 'x) chan_scheme
    \<Rightarrow> panic + (unit try_send_error + unit) \<times> ('w, 'e, 'v, 'x) chan_scheme" where
  "try_reserve s =
     (case try_acquire_many 1 s of
        Inl p \<Rightarrow> Inl p
      | Inr (Inr _, s1) \<Rightarrow> Inr (Inr (), s1)
      | Inr (Inl NoPermits, s1) \<Rightarrow> Inr (Inl (Full ()), s1)
      | Inr (Inl Acquire_Closed, s1) \<Rightarrow> Inr (Inl (Send_Closed ()), s1))"

text \<open>The send through a reserved slot never waits and never fails.\<close>

definition permit_send :: "('w ucall \<Rightarrow> ('w, 'e, 'v, 'x) chan_scheme \<Rightarrow> ('w, 'e, 'v, 'x) chan_scheme) \<Rightarrow> 'v
    \<Rightarrow> ('w, 'e, 'v, 'x) chan_scheme \<Rightarrow> ('w, 'e, 'v, 'x) chan_scheme" where
  "permit_send u v s = chan_push u v s"

definition slot_drop :: "('w ucall \<Rightarrow> ('w, 'e, 'v, 'x) chan_scheme \<Rightarrow> ('w, 'e, 'v, 'x) chan_scheme)
    \<Rightarrow> ('w, 'e, 'v, 'x) chan_scheme \<Rightarrow> ('w, 'e, 'v, 'x) chan_scheme option" where
  "slot_drop u s = give_back (bounded u) u 1 s"

definition try_send :: "('w ucall \<Rightarrow> ('w, 'e, 'v, 'x) chan_scheme \<Rightarrow> ('w, 'e, 'v, 'x) chan_scheme) \<Rightarrow> 'v
    \<Rightarrow> ('w, 'e, 'v, 'x) chan_scheme \<Rightarrow> panic + ('v try_send_error + unit) \<times> ('w, 'e, 'v, 'x) chan_scheme" where
  "try_send u v s =
     (case try_reserve s of
        Inl p \<Rightarrow> Inl p
      | Inr (Inr _, s1) \<Rightarrow> Inr (Inr (), permit_send u v s1)
      | Inr (Inl (Full _), s1) \<Rightarrow> Inr (Inl (Full v), s1)
      | Inr (Inl (Send_Closed _), s1) \<Rightarrow> Inr (Inl (Send_Closed v), s1))"

text \<open>The wait for a slot; \<open>Inl ()\<close> is the error of a closed channel.\<close>

definition reserve :: "panic + acquire" where
  "reserve = acquire_many 1"

definition reserve_poll :: "('w ucall \<Rightarrow> ('w, 'e, 'v, 'x) chan_scheme \<Rightarrow> ('w, 'e, 'v, 'x) chan_scheme) \<Rightarrow> 'w \<Rightarrow> acquire
    \<Rightarrow> ('w, 'e, 'v, 'x) chan_scheme \<Rightarrow> (unit + unit) poll \<times> acquire \<times> ('w, 'e, 'v, 'x) chan_scheme" where
  "reserve_poll u waker a s =
     (case acquire_poll u waker a s of
        (Ready (Inr _), a1, s1) \<Rightarrow> (Ready (Inr ()), a1, s1)
      | (Ready (Inl _), a1, s1) \<Rightarrow> (Ready (Inl ()), a1, s1)
      | (Pending, a1, s1) \<Rightarrow> (Pending, a1, s1))"

definition reserve_drop :: "('w ucall \<Rightarrow> ('w, 'e, 'v, 'x) chan_scheme \<Rightarrow> ('w, 'e, 'v, 'x) chan_scheme) \<Rightarrow> acquire
    \<Rightarrow> ('w, 'e, 'v, 'x) chan_scheme \<Rightarrow> ('w, 'e, 'v, 'x) chan_scheme option" where
  "reserve_drop u a s = map_option (\<lambda>(a1, s1). wake_if_finished (bounded u) u s1) (acquire_cancel u a s)"

text \<open>A poll of \<open>send(value)\<close>: the reservation is polled, and dropped once it completes.\<close>

definition send_poll :: "('w ucall \<Rightarrow> ('w, 'e, 'v, 'x) chan_scheme \<Rightarrow> ('w, 'e, 'v, 'x) chan_scheme) \<Rightarrow> 'w \<Rightarrow> 'v \<Rightarrow> acquire
    \<Rightarrow> ('w, 'e, 'v, 'x) chan_scheme \<Rightarrow> (('v + unit) poll \<times> acquire \<times> ('w, 'e, 'v, 'x) chan_scheme) option" where
  "send_poll u waker v a s =
     (case reserve_poll u waker a s of
        (Pending, a1, s1) \<Rightarrow> Some (Pending, a1, s1)
      | (Ready r, a1, s1) \<Rightarrow>
          map_option (\<lambda>s2. (case r of
              Inr _ \<Rightarrow> (Ready (Inr ()), a1, permit_send u v s2)
            | Inl _ \<Rightarrow> (Ready (Inl v), a1, s2))) (reserve_drop u a1 s1))"

definition capacity :: "('w, 'e, 'v, 'x) chan_scheme \<Rightarrow> nat" where
  "capacity s = available_permits s"

subsection \<open>The unbounded flavour\<close>

definition unbounded :: "('w, 'e, 'v, 'x) chan_scheme limit" where
  "unbounded = \<lparr>lim_release = (\<lambda>n s. Some s), lim_is_idle = (\<lambda>s. True), lim_close = (\<lambda>s. Some s), lim_debit = (\<lambda>n s. s)\<rparr>"

definition unbounded_channel :: "('w, 'e, 'v, 'x) chan_scheme \<Rightarrow> ('w, 'e, 'v, 'x) chan_scheme" where
  "unbounded_channel s = chan_new s"

definition unbounded_send :: "('w ucall \<Rightarrow> ('w, 'e, 'v, 'x) chan_scheme \<Rightarrow> ('w, 'e, 'v, 'x) chan_scheme) \<Rightarrow> 'v
    \<Rightarrow> ('w, 'e, 'v, 'x) chan_scheme \<Rightarrow> ('v + unit) \<times> ('w, 'e, 'v, 'x) chan_scheme" where
  "unbounded_send u v s = (if rx_closed s then (Inl v, s) else (Inr (), chan_push u v s))"

end
