(* ===== verification/Local_Mpsc_Spec.thy ===== *)
theory Local_Mpsc_Spec
  imports Local_Mpsc Local_Slots
begin

text \<open>
  What the channels of one shard promise: no wakeup of the receiver is lost, whatever code of the user runs;
  the bounded channel never holds, and never has promised, more than its capacity; the end of the stream
  is told exactly when nothing can come any more; values come out in the order they went in.
\<close>

subsection \<open>No lost wakeup of the receiver\<close>

lemma register_rx_same: "rx_waker s = Some w \<Longrightarrow> register_rx u w s = (False, s)"
  by (simp add: register_rx_def Let_def)

lemma register_rx_new: "rx_waker s \<noteq> Some w \<Longrightarrow> fst (register_rx u w s)"
  by (simp add: register_rx_def Let_def)

lemma pop_released_none: "pop_released L s = Some (None, s') \<longleftrightarrow> queue s = [] \<and> s' = s"
  by (auto simp: pop_released_def chan_pop_def split: list.splits)

text \<open>C17: No wakeup of the receiver is lost, for either flavour and any code of the user at all.  A poll
  that answers pending either was refused by the budget, which woke the task, or leaves an empty queue
  and a stream that has not ended; and then, if dropping a waker does not touch the cell, the receiver's
  waker is the one of this poll.\<close>

theorem recv_pending_is_open:
  assumes "poll_recv L u w s = Some (Pending, s')"
  shows "(\<exists>s1. budget s1 = 0 \<and> s' = u (Wake_by_ref w) (budget_yield s1))
    \<or> queue s' = [] \<and> \<not> finished L s' \<and> ((\<forall>v t. rx_waker (u (Drop v) t) = rx_waker t) \<longrightarrow> rx_waker s' = Some w)"
proof (cases "fst (exhausted u w s)")
  case True
  then have "s' = snd (exhausted u w s)" using assms by (auto simp: poll_recv_def split: prod.splits bool.splits)
  then show ?thesis using True by (auto simp: exhausted_def refused_def split: if_splits)
next
  case False
  define s1 where "s1 = snd (exhausted u w s)"
  have ex: "exhausted u w s = (False, s1)" using False by (simp add: s1_def prod_eq_iff)
  obtain c s3 where reg: "register_rx u w s1 = (c, s3)" by fastforce
  have q: "queue s1 = []"
    using assms by (cases "queue s1") (auto simp: poll_recv_def ex pop_released_def chan_pop_def split: option.splits)
  then have "(if c \<and> chan_len s3 \<noteq> 0 then look_again L s3 else if finished L s3
      then Some (Ready None, spent_one (drop_waker u (rx_waker s3) (s3\<lparr>rx_waker := None\<rparr>)))
      else Some (Pending, s3)) = Some (Pending, s')"
    using assms by (simp add: poll_recv_def ex pop_released_def chan_pop_def reg)
  moreover have "look_again L s3 \<noteq> Some (Pending, s')" if "chan_len s3 \<noteq> 0"
    using that by (auto simp: look_again_def pop_released_def chan_pop_def chan_len_def split: list.splits option.splits)
  ultimately have s3: "s' = s3" "\<not> finished L s3" "\<not> (c \<and> chan_len s3 \<noteq> 0)" by (auto split: if_splits)
  show ?thesis
  proof (cases "rx_waker s1 = Some w")
    case True
    then show ?thesis using s3 reg q by (auto simp: register_rx_same)
  next
    case new: False
    then have "queue s3 = []" using s3 reg register_rx_new [of s1 w u] by (simp add: chan_len_def)
    moreover have "rx_waker s3 = Some w" if "\<forall>v t. rx_waker (u (Drop v) t) = rx_waker t"
      using reg new that by (auto simp: register_rx_def Let_def drop_waker_def split: option.splits)
    ultimately show ?thesis using s3 by auto
  qed
qed

subsection \<open>The slots of a bounded channel\<close>

text \<open>The \<open>world\<close> counts the reserved slots (the \<open>Permit\<close>s) that are out.  A slot is free, kept for a
  granted wait, reserved, or under a queued value.\<close>

definition slots_out :: "('w, nat, 'v, 'x) chan_scheme \<Rightarrow> int" where
  "slots_out s = int (world s) + int (length (queue s))"

definition slots_cap :: "nat \<Rightarrow> ('w, nat, 'v, 'x) chan_scheme \<Rightarrow> bool" where
  "slots_cap n s \<longleftrightarrow> max_cap s = n"

interpretation slots: closable_ledger slots_out "slots_cap n" for n
  by unfold_locales (simp_all add: slots_out_def slots_cap_def)

abbreviation slots_ok :: "nat \<Rightarrow> int \<Rightarrow> ('w, nat, 'v, 'x) chan_scheme \<Rightarrow> bool" where
  "slots_ok n \<equiv> ledger_ok slots_out (slots_cap n)"

definition slots_hooks :: "nat \<Rightarrow> ('w ucall \<Rightarrow> ('w, nat, 'v, 'x) chan_scheme \<Rightarrow> ('w, nat, 'v, 'x) chan_scheme)
    \<Rightarrow> ('v \<Rightarrow> ('w, nat, 'v, 'x) chan_scheme \<Rightarrow> ('w, nat, 'v, 'x) chan_scheme) \<Rightarrow> bool" where
  "slots_hooks n u d \<longleftrightarrow> ledger_hooks slots_out (slots_cap n) u \<and> (\<forall>t v s. slots_ok n t s \<longrightarrow> slots_ok n t (d v s))"

lemma slots_hooksD:
  assumes "slots_hooks n u d"
  shows "ledger_hooks slots_out (slots_cap n) u" and "slots_ok n t s \<Longrightarrow> slots_ok n t (d v s)"
  using assms by (auto simp: slots_hooks_def)

lemma slots_fields [simp]:
  "slots_ok n t (s\<lparr>rx_waker := w\<rparr>) = slots_ok n t s" "slots_ok n t (s\<lparr>senders := k\<rparr>) = slots_ok n t s"
  "slots_ok n t (s\<lparr>rx_closed := b\<rparr>) = slots_ok n t s" "slots_ok n t (s\<lparr>closed_waiters := S\<rparr>) = slots_ok n t s"
  by (simp_all add: ledger_ok_def sem_ok_def slots_out_def slots_cap_def)

text \<open>A slot moves: from a reservation or a send to the queue, from the queue or a reservation to the hands
  of the operation that gives it back.\<close>

lemma slots_moved:
  assumes "slots_ok n t s" and "slots_out s' = slots_out s + k" and "sem_waiters s' = sem_waiters s" and "permits s' = permits s"
    and "sem_closed s' = sem_closed s" and "max_cap s' = max_cap s" and "0 \<le> slots_out s'" and "t + k \<le> int MAX_PERMITS"
  shows "slots_ok n (t + k) s'"
  using assms by (simp add: ledger_ok_def sem_ok_def slots_cap_def)

lemma slots_pushed: "slots_ok n t s \<Longrightarrow> t < int MAX_PERMITS \<Longrightarrow> slots_ok n (t + 1) (s\<lparr>queue := queue s @ [v]\<rparr>)"
  by (rule slots_moved) (simp_all add: slots_out_def)

lemma slots_reserved: "slots_ok n t s \<Longrightarrow> t < int MAX_PERMITS \<Longrightarrow> slots_ok n (t + 1) (s\<lparr>world := Suc (world s)\<rparr>)"
  by (rule slots_moved) (simp_all add: slots_out_def)

lemma slots_unreserved: "slots_ok n t s \<Longrightarrow> 0 < world s \<Longrightarrow> slots_ok n (t - 1) (s\<lparr>world := world s - 1\<rparr>)"
  using slots_moved [of n t s "s\<lparr>world := world s - 1\<rparr>" "-1"] slots.okD(6) [of n t s] by (simp add: slots_out_def)

lemma slots_popped:
  "slots_ok n t s \<Longrightarrow> k \<le> length (queue s) \<Longrightarrow> slots_ok n (t - int k) (s\<lparr>queue := drop k (queue s)\<rparr>)"
  using slots_moved [of n t s "s\<lparr>queue := drop k (queue s)\<rparr>" "- int k"] slots.okD(6) [of n t s] by (simp add: slots_out_def)

lemma slots_wake_rx: "ledger_hooks slots_out (slots_cap n) u \<Longrightarrow> slots_ok n t s \<Longrightarrow> slots_ok n t (wake_rx u s)"
  by (simp add: wake_rx_def slots.wake)

lemma slots_push:
  "ledger_hooks slots_out (slots_cap n) u \<Longrightarrow> slots_ok n t s \<Longrightarrow> t < int MAX_PERMITS \<Longrightarrow> slots_ok n (t + 1) (chan_push u v s)"
  by (simp add: chan_push_def slots_wake_rx slots_pushed)

lemma slots_release:
  assumes "ledger_hooks slots_out (slots_cap n) u" and "slots_ok n t s" and "lim_release (bounded u) k s = Some s'"
    and "t + int k \<le> int MAX_PERMITS"
  shows "slots_ok n (t + int k) s'"
  using assms slots.release_ok [OF assms(1,2), of k s'] by (simp add: bounded_def split: if_splits)

lemma slots_register:
  "ledger_hooks slots_out (slots_cap n) u \<Longrightarrow> slots_ok n t s \<Longrightarrow> slots_ok n t (snd (register_rx u w s))"
  by (simp add: register_rx_def Let_def slots.drop slots.user)

lemma slots_pop_released:
  assumes "ledger_hooks slots_out (slots_cap n) u" and ok: "slots_ok n t s" and "pop_released (bounded u) s = Some (r, s')"
  shows "slots_ok n t s'"
proof (cases "queue s")
  case Nil
  then show ?thesis using assms by (simp add: pop_released_def chan_pop_def)
next
  case (Cons v q)
  have "slots_ok n (t - int 1) (s\<lparr>queue := q\<rparr>)" using slots_popped [OF ok, of 1] Cons by simp
  moreover have "lim_release (bounded u) 1 (s\<lparr>queue := q\<rparr>) = Some s'"
    using assms(3) Cons by (auto simp: pop_released_def chan_pop_def)
  ultimately show ?thesis using slots_release [OF assms(1)] slots.okD(6) [OF ok] by fastforce
qed

lemma slots_wake_finished:
  "ledger_hooks slots_out (slots_cap n) u \<Longrightarrow> slots_ok n t s \<Longrightarrow> slots_ok n t (wake_if_finished L u s)"
  by (simp add: wake_if_finished_def slots_wake_rx)

lemma slots_look_again:
  assumes "ledger_hooks slots_out (slots_cap n) u" and "slots_ok n t s" and "look_again (bounded u) s = Some (r, s')"
  shows "slots_ok n t s'"
  using assms(3) slots_pop_released [OF assms(1,2)]
  by (auto simp: look_again_def split: option.splits if_splits)

lemma slots_poll_recv:
  assumes u: "ledger_hooks slots_out (slots_cap n) u" and ok: "slots_ok n t s" and r: "poll_recv (bounded u) u w s = Some (r, s')"
  shows "slots_ok n t s'"
proof -
  obtain e s1 where ex: "exhausted u w s = (e, s1)" by fastforce
  have ok1: "slots_ok n t s1" using slots.refused_ok [OF u ok, of w] ex by simp
  have reg: "slots_ok n t s3" if "register_rx u w s1 = (c, s3)" for c s3
    using slots_register [OF u ok1, of w] that by simp
  show ?thesis
    using r ok1 slots_pop_released [OF u ok1] reg
    by (auto simp: poll_recv_def ex pop_released_none slots.drop [OF u] dest: slots_look_again [OF u]
        split: bool.splits option.splits prod.splits if_splits)
qed

lemma slots_take_many:
  assumes "ledger_hooks slots_out (slots_cap n) u" and ok: "slots_ok n t s" and "take_many buf lim s = (k, buf', s1)"
    and "lim_release (bounded u) k s1 = Some s2"
  shows "slots_ok n t s2"
proof -
  have "s1 = s\<lparr>queue := drop k (queue s)\<rparr>" "k \<le> length (queue s)" using assms(3) by (auto simp: take_many_def Let_def)
  then have "slots_ok n (t - int k) s1" using slots_popped [OF ok] by simp
  from slots_release [OF assms(1) this assms(4)] show ?thesis using slots.okD(6) [OF ok] by simp
qed

lemma take_many_none: "take_many buf lim s = (0, buf', s') \<Longrightarrow> slots_ok n t s \<Longrightarrow> slots_ok n t s'"
  using slots_popped [of n t s 0] by (auto simp: take_many_def Let_def)

lemma slots_look_again_many:
  assumes "ledger_hooks slots_out (slots_cap n) u" and "slots_ok n t s" and "look_again_many (bounded u) buf lim s = Some (r, b, s')"
  shows "slots_ok n t s'"
  using assms(3) slots_take_many [OF assms(1,2)] take_many_none [OF _ assms(2)]
  by (auto simp: look_again_many_def split: prod.splits if_splits)

lemma slots_poll_recv_many:
  assumes u: "ledger_hooks slots_out (slots_cap n) u" and ok: "slots_ok n t s"
    and r: "poll_recv_many (bounded u) u w buf lim s = Some (r, b, s')"
  shows "slots_ok n t s'"
proof -
  obtain e s1 where ex: "exhausted u w s = (e, s1)" by fastforce
  have ok1: "slots_ok n t s1" using slots.refused_ok [OF u ok, of w] ex by simp
  obtain k buf1 s2 where tk: "take_many buf lim s1 = (k, buf1, s2)" by (cases "take_many buf lim s1")
  have reg: "slots_ok n t s3" if "k = 0" "register_rx u w s2 = (c, s3)" for c s3
    using slots_register [OF u take_many_none [OF tk [unfolded that(1)] ok1], of w] that(2) by simp
  show ?thesis
    using r ok ok1 slots_take_many [OF u ok1 tk] reg
    by (auto simp: poll_recv_many_def ex tk slots.drop [OF u] dest: slots_look_again_many [OF u]
        split: bool.splits prod.splits if_splits)
qed

lemma slots_try_recv:
  assumes "ledger_hooks slots_out (slots_cap n) u" and "slots_ok n t s" and "chan_try_recv (bounded u) s = Some (r, s')"
  shows "slots_ok n t s'"
  using assms(3) slots_pop_released [OF assms(1,2)] by (auto simp: chan_try_recv_def split: option.splits)

lemmas slab_closed_induct = wake_closed.raw_induct [rotated, consumes 1, case_names step]

lemma slots_wake_closed:
  assumes "wake_closed g p u s = Some s'" and "g = closed_waiters" and "p = put_closed"
    and "ledger_hooks slots_out (slots_cap n) u" and "slots_ok n t s"
  shows "slots_ok n t s'"
  using assms
proof (induction g p u s s' rule: slab_closed_induct)
  case (step rec g p u s s')
  obtain r S where c: "close_front (closed_waiters s) = (r, S)" by fastforce
  show ?case
  proof (cases r)
    case None
    then show ?thesis using step.hyps step.prems c by simp
  next
    case (Some w)
    then have "rec closed_waiters put_closed u (wake_waker u w (put_closed S s)) = Some s'"
      using step.hyps step.prems(1,2) c by simp
    moreover have "slots_ok n t (wake_waker u w (put_closed S s))"
      by (rule slots.wake [OF step.prems(3)]) (use step.prems(4) in simp)
    ultimately show ?thesis using step.IH step.prems(3) by blast
  qed
qed

lemma slots_close_rx:
  assumes u: "ledger_hooks slots_out (slots_cap n) u" and ok: "slots_ok n t s" and r: "close_rx (bounded u) u s = Some s'"
  shows "slots_ok n t s'"
proof (cases "rx_closed s")
  case True
  then show ?thesis using r ok by (simp add: close_rx_def)
next
  case False
  obtain s1 where s1: "sem_close u (s\<lparr>rx_closed := True\<rparr>) = Some s1" "wake_closed closed_waiters put_closed u s1 = Some s'"
    using r False by (auto simp: close_rx_def bounded_def split: option.splits)
  have "slots_ok n t s1" using slots.close_ok [OF u _ s1(1)] ok by simp
  from slots_wake_closed [OF s1(2) refl refl u this] show ?thesis .
qed

lemma slots_fold_drop:
  assumes "slots_hooks n u d" and "slots_ok n t s"
  shows "slots_ok n t (fold d vs s)"
  using assms(2) by (induction vs arbitrary: s) (simp_all add: slots_hooksD(2) [OF assms(1)])

lemma slots_drop_rx:
  assumes h: "slots_hooks n u d" and ok: "slots_ok n t s" and r: "drop_rx (bounded u) u d s = Some s'"
  shows "slots_ok n t s'"
proof -
  note u = slots_hooksD(1) [OF h]
  obtain s1 where s1: "close_rx (bounded u) u s = Some s1" using r by (auto simp: drop_rx_def split: option.splits)
  define s2 where "s2 = drop_waker u (rx_waker s1) (s1\<lparr>rx_waker := None\<rparr>)"
  have ok2: "slots_ok n t s2" unfolding s2_def by (rule slots.drop [OF u]) (simp add: slots_close_rx [OF u ok s1])
  obtain s3 where s3: "lim_release (bounded u) (length (queue s2)) (s2\<lparr>queue := []\<rparr>) = Some s3" "s' = fold d (queue s2) s3"
    using r s1 by (auto simp: drop_rx_def Let_def s2_def)
  have "slots_ok n (t - int (length (queue s2))) (s2\<lparr>queue := []\<rparr>)"
    using slots_popped [OF ok2, of "length (queue s2)"] by simp
  from slots_release [OF u this s3(1)] have "slots_ok n t s3" using slots.okD(6) [OF ok] by simp
  then show ?thesis unfolding s3(2) by (rule slots_fold_drop [OF h])
qed

lemma slots_closed_cancel: "ledger_hooks slots_out (slots_cap n) u \<Longrightarrow> slots_ok n t s \<Longrightarrow> slots_ok n t (closed_cancel u k s)"
  by (auto simp: closed_cancel_def slots.drop split: option.split prod.split)

lemma slots_closed_join:
  "ledger_hooks slots_out (slots_cap n) u \<Longrightarrow> slots_ok n t s \<Longrightarrow> slots_ok n t (snd (snd (closed_join u w s)))"
  by (auto simp: closed_join_def Let_def slots.user split: prod.split)

lemma slots_refresh_closed:
  assumes "ledger_hooks slots_out (slots_cap n) u" and "slots_ok n t s"
  shows "slots_ok n t (snd (refresh closed_waiters put_closed u k w s))"
  using assms by (auto simp: refresh_def refresh_clone_def Let_def slots.drop slots.user split: prod.split)

lemma slots_closed_poll:
  assumes "ledger_hooks slots_out (slots_cap n) u" and "slots_ok n t s"
  shows "slots_ok n t (snd (snd (closed_poll u w key s)))"
  using assms(2) slots_refresh_closed [OF assms, of _ w] slots_closed_cancel [OF assms(1)] slots_closed_join [OF assms(1)]
  by (auto simp: closed_poll_def split: option.split prod.split) (metis snd_conv)+

lemma slots_try_reserve:
  assumes "slots_ok n t s"
  shows "\<exists>r s'. try_reserve s = Inr (r, s') \<and> (case r of Inr _ \<Rightarrow> slots_ok n (t - 1) s' | Inl _ \<Rightarrow> s' = s)"
proof -
  have "\<exists>r s'. try_acquire_many 1 s = Inr (r, s') \<and> (case r of Inr _ \<Rightarrow> slots_ok n (t - 1) s' | Inl _ \<Rightarrow> s' = s)"
    using slots.taken_ok [OF assms]
    by (auto simp: try_acquire_many_def checked_permits_def MAX_PERMITS_def usize_max_def)
  then obtain r s' where r: "try_acquire_many 1 s = Inr (r, s')" "case r of Inr _ \<Rightarrow> slots_ok n (t - 1) s' | Inl _ \<Rightarrow> s' = s"
    by blast
  then show ?thesis by (auto simp: try_reserve_def split: sum.splits try_acquire_error.splits)
qed

lemma slots_reserve_poll:
  assumes u: "ledger_hooks slots_out (slots_cap n) u" "key_kept u a" and ok: "slots_ok n t s" and a: "a_n a = 1"
    and r: "reserve_poll u w a s = (r, a', s')" and room: "length (s_entries (sem_waiters s')) < NIL"
  shows "if r = Ready (Inr ()) then slots_ok n (t - 1) s' else slots_ok n t s'"
proof -
  obtain q a1 s1 where p: "acquire_poll u w a s = (q, a1, s1)" by (cases "acquire_poll u w a s")
  then have "s' = s1" using r by (auto simp: reserve_poll_def split: poll.splits sum.splits)
  then have "ledger_result slots_out (slots_cap n) t (acquire_poll u w a s)"
    using slots.poll_ok [OF u ok a, of w] p room by simp
  then show ?thesis using r p by (auto simp: reserve_poll_def ledger_result_def split: poll.splits sum.splits if_splits)
qed

lemma slots_reserve_drop:
  assumes "ledger_hooks slots_out (slots_cap n) u" and "slots_ok n t s" and "a_n a = 1" and "reserve_drop u a s = Some s'"
  shows "slots_ok n t s'"
  using assms(4) slots.cancel_ok [OF assms(1-3)] by (auto simp: reserve_drop_def slots_wake_finished [OF assms(1)])

lemma slots_send_poll:
  assumes u: "ledger_hooks slots_out (slots_cap n) u" "key_kept u a" and ok: "slots_ok n t s" and a: "a_n a = 1"
    and p: "reserve_poll u w a s = (q, a1, s1)" "length (s_entries (sem_waiters s1)) < NIL"
    and r: "send_poll u w v a s = Some (r, a', s')"
  shows "slots_ok n t s'"
proof -
  have a1: "a_n a1 = 1"
    using p(1) a by (auto simp: reserve_poll_def acquire_poll_def acquire_fresh_def acquire_queue_def Let_def
        split: prod.splits poll.splits sum.splits option.splits wstate.splits bool.splits if_splits)
  note res = slots_reserve_poll [OF u ok a p]
  show ?thesis
  proof (cases q)
    case Pending
    then show ?thesis using r p res by (simp add: send_poll_def)
  next
    case (Ready x)
    obtain s2 where d: "reserve_drop u a1 s1 = Some s2" and s2: "s' = (case x of Inr _ \<Rightarrow> permit_send u v s2 | Inl _ \<Rightarrow> s2)"
      using r p Ready by (cases x) (auto simp: send_poll_def)
    show ?thesis
    proof (cases x)
      case (Inl e)
      then show ?thesis using slots_reserve_drop [OF u(1) _ a1 d] res Ready s2 by simp
    next
      case (Inr e)
      then have "slots_ok n (t - 1) s2" using slots_reserve_drop [OF u(1) _ a1 d] res Ready by simp
      from slots_push [OF u(1) this, of v] show ?thesis using Inr s2 slots.okD(6) [OF ok] by (simp add: permit_send_def)
    qed
  qed
qed

subsection \<open>Runs of a bounded channel\<close>

abbreviation reserved :: "('w, nat, 'v, 'x) chan_scheme \<Rightarrow> ('w, nat, 'v, 'x) chan_scheme" where
  "reserved s \<equiv> s\<lparr>world := Suc (world s)\<rparr>"

inductive chan_step :: "('w ucall \<Rightarrow> ('w, nat, 'v, 'x) chan_scheme \<Rightarrow> ('w, nat, 'v, 'x) chan_scheme)
    \<Rightarrow> ('v \<Rightarrow> ('w, nat, 'v, 'x) chan_scheme \<Rightarrow> ('w, nat, 'v, 'x) chan_scheme)
    \<Rightarrow> ('w, nat, 'v, 'x) chan_scheme \<Rightarrow> ('w, nat, 'v, 'x) chan_scheme \<Rightarrow> bool" for u d where
  try_got: "try_reserve s = Inr (Inr (), s') \<Longrightarrow> chan_step u d s (reserved s')"
| reserve_got: "reserve_poll u w a s = (Ready (Inr ()), a', s') \<Longrightarrow> a_n a = 1 \<Longrightarrow> key_kept u a \<Longrightarrow>
    length (s_entries (sem_waiters s')) < NIL \<Longrightarrow> chan_step u d s (reserved s')"
| reserve_not: "reserve_poll u w a s = (r, a', s') \<Longrightarrow> r \<noteq> Ready (Inr ()) \<Longrightarrow> a_n a = 1 \<Longrightarrow> key_kept u a \<Longrightarrow>
    length (s_entries (sem_waiters s')) < NIL \<Longrightarrow> chan_step u d s s'"
| reserve_gone: "reserve_drop u a s = Some s' \<Longrightarrow> a_n a = 1 \<Longrightarrow> chan_step u d s s'"
| slot_sent: "0 < world s \<Longrightarrow> chan_step u d s (permit_send u v (s\<lparr>world := world s - 1\<rparr>))"
| slot_gone: "0 < world s \<Longrightarrow> slot_drop u (s\<lparr>world := world s - 1\<rparr>) = Some s' \<Longrightarrow> chan_step u d s s'"
| tried_send: "try_send u v s = Inr (q, s') \<Longrightarrow> chan_step u d s s'"
| send_polled: "send_poll u w v a s = Some (q', a', s') \<Longrightarrow> a_n a = 1 \<Longrightarrow> key_kept u a \<Longrightarrow>
    reserve_poll u w a s = (r, a1, s1) \<Longrightarrow> length (s_entries (sem_waiters s1)) < NIL \<Longrightarrow> chan_step u d s s'"
| sender_cloned: "chan_step u d s (add_sender s)"
| sender_gone: "chan_step u d s (drop_sender u s)"
| recv: "poll_recv (bounded u) u w s = Some (p, s') \<Longrightarrow> chan_step u d s s'"
| recv_many: "poll_recv_many (bounded u) u w buf lim s = Some (m, buf', s') \<Longrightarrow> chan_step u d s s'"
| tried_recv: "chan_try_recv (bounded u) s = Some (x, s') \<Longrightarrow> chan_step u d s s'"
| rx_close: "close_rx (bounded u) u s = Some s' \<Longrightarrow> chan_step u d s s'"
| rx_gone: "drop_rx (bounded u) u d s = Some s' \<Longrightarrow> chan_step u d s s'"
| closed_polled: "closed_poll u w k s = (y, k', s') \<Longrightarrow> chan_step u d s s'"
| closed_gone: "chan_step u d s (closed_cancel u k s)"
| ran: "chan_step u d s (u c s)"

lemma slots_try_send:
  assumes "ledger_hooks slots_out (slots_cap n) u" and ok: "slots_ok n t s" and r: "try_send u v s = Inr (q, s')"
  shows "slots_ok n t s'"
proof -
  obtain x s1 where x: "try_reserve s = Inr (x, s1)" "case x of Inr _ \<Rightarrow> slots_ok n (t - 1) s1 | Inl _ \<Rightarrow> s1 = s"
    using slots_try_reserve [OF ok] by blast
  show ?thesis
  proof (cases x)
    case (Inl e)
    then show ?thesis using r x ok by (cases e) (auto simp: try_send_def)
  next
    case (Inr e)
    then have s1: "s' = chan_push u v s1" "slots_ok n (t - 1) s1" using r x by (auto simp: try_send_def permit_send_def)
    from slots_push [OF assms(1) s1(2), of v] show ?thesis using s1(1) slots.okD(6) [OF ok] by simp
  qed
qed

lemma chan_step_ok:
  assumes "chan_step u d s s'" and h: "slots_hooks n u d" and ok: "slots_ok n t s"
  shows "slots_ok n t s'"
proof -
  note u = slots_hooksD(1) [OF h] and t = slots.okD(6) [OF ok]
  show ?thesis
    using assms(1)
  proof cases
    case (try_got s1)
    then have "slots_ok n (t - 1) s1" using slots_try_reserve [OF ok] by auto
    from slots_reserved [OF this] show ?thesis using try_got(1) t by simp
  next
    case (reserve_got w a a' s1)
    then have "slots_ok n (t - 1) s1" using slots_reserve_poll [OF u reserve_got(4) ok reserve_got(3,2,5)] by simp
    from slots_reserved [OF this] show ?thesis using reserve_got(1) t by simp
  next
    case (reserve_not w a r a')
    then show ?thesis using slots_reserve_poll [OF u reserve_not(4) ok reserve_not(3,1,5)] by simp
  next
    case (slot_sent v)
    from slots_push [OF u slots_unreserved [OF ok slot_sent(2)], of v] show ?thesis
      using slot_sent(1) t by (simp add: permit_send_def)
  next
    case (slot_gone)
    then obtain s1 where s1: "lim_release (bounded u) 1 (s\<lparr>world := world s - 1\<rparr>) = Some s1" "s' = wake_if_finished (bounded u) u s1"
      by (auto simp: slot_drop_def give_back_def)
    from slots_release [OF u slots_unreserved [OF ok slot_gone(1)] s1(1)] show ?thesis
      using t by (simp add: s1(2) slots_wake_finished [OF u])
  next
    case (send_polled w v a q' a' r a1 s1)
    then show ?thesis using slots_send_poll [OF u _ ok] by blast
  next
    case (closed_polled w k y k')
    then show ?thesis using slots_closed_poll [OF u ok, of w k] by simp
  next
    case (sender_cloned)
    then show ?thesis using ok by (simp add: add_sender_def)
  next
    case (sender_gone)
    then show ?thesis using ok by (simp add: drop_sender_def Let_def slots_wake_rx [OF u])
  qed (use slots_reserve_drop [OF u ok] slots_try_send [OF u ok] slots_poll_recv [OF u ok] slots_poll_recv_many [OF u ok]
      slots_try_recv [OF u ok] slots_close_rx [OF u ok] slots_drop_rx [OF h ok] slots_closed_cancel [OF u ok]
      slots.user [OF u ok] in \<open>blast+\<close>)
qed

lemma chan_run_ok:
  assumes "(chan_step u d)\<^sup>*\<^sup>* s s'" and "slots_hooks n u d" and "slots_ok n t s"
  shows "slots_ok n t s'"
  using assms(1) by (induction rule: rtranclp_induct) (auto intro: chan_step_ok assms(2,3))

lemma channel_ok:
  assumes "channel n s0 = Inr s" and "world s0 = 0"
  shows "slots_ok n (int n) s"
proof -
  obtain s1 where s1: "sem_init n s0 = Inr s1" "s = chan_new (s1\<lparr>max_cap := n\<rparr>)"
    using assms(1) by (auto simp: channel_def split: if_splits sum.splits)
  have n: "n \<le> MAX_PERMITS" using s1(1) by (auto simp: sem_init_def split: if_splits)
  have "sem_idle s1" by (rule init_idle [OF s1(1)])
  moreover have "permits s1 = int n" "sem_waiters s1 = slab_new" "world s1 = 0"
    using s1(1) assms(2) max_permits_small [OF n] by (auto simp: sem_init_def split: if_splits)
  moreover have "ones (s_entries slab_new)" by (simp add: ones_def slab_new_def)
  ultimately show ?thesis
    using n by (simp add: ledger_ok_def sem_idle_def sem_ok_def slots_out_def slots_cap_def s1(2) chan_new_def line_new)
qed

subsection \<open>Properties of a bounded channel\<close>

text \<open>C5: The capacity holds.  Whatever sequence of calls a new bounded channel has seen, and whatever the
  wakers and destructors did, the queued values, the reserved slots, the slots granted to waiting senders
  and the free slots add up to the buffer it was created with.\<close>

theorem bounded_capacity:
  assumes "slots_hooks n u d" and "channel n s0 = Inr s" and "world s0 = 0" and "(chan_step u d)\<^sup>*\<^sup>* s s'"
  shows "length (queue s') + world s' + granted (sem_waiters s') + capacity s' = n"
proof -
  have "slots_ok n (int n) s'" by (rule chan_run_ok [OF assms(4,1) channel_ok [OF assms(2,3)]])
  then show ?thesis by (auto simp: ledger_ok_def slots_out_def capacity_def available_permits_def)
qed

text \<open>C25: The end of the stream is told exactly when it is reached.  On any channel with any history, an
  attempt to receive that finds no value answers \<open>Disconnected\<close> if the receiver was closed or every
  sender is gone, and no slot is reserved nor granted to a waiting sender; otherwise it answers \<open>Empty\<close>.\<close>

theorem disconnected_exactly:
  assumes "slots_hooks n u d" and "channel n s0 = Inr s" and "world s0 = 0" and "(chan_step u d)\<^sup>*\<^sup>* s s'"
    and "chan_try_recv (bounded u) s' = Some (Inl e, s'')"
  shows "queue s' = [] \<and> s'' = s'
    \<and> (e = Disconnected \<longleftrightarrow> rx_is_closed s' \<and> world s' = 0 \<and> granted (sem_waiters s') = 0)"
proof -
  have ok: "slots_ok n (int n) s'" by (rule chan_run_ok [OF assms(4,1) channel_ok [OF assms(2,3)]])
  have pop: "pop_released (bounded u) s' = Some (None, s'')" and e: "e = (if finished (bounded u) s'' then Disconnected else Chan_Empty)"
    using assms(5) by (auto simp: chan_try_recv_def split: option.splits)
  then have q: "queue s' = []" "s'' = s'" by (auto simp: pop_released_none)
  have n: "max_cap s' = n" "n \<le> MAX_PERMITS" using ok by (auto simp: ledger_ok_def slots_cap_def)
  have "sem_holds (max_cap s') s' \<longleftrightarrow> permits s' = int n" using max_permits_small [OF n(2)] by (simp add: sem_holds_def n(1))
  also have "\<dots> \<longleftrightarrow> world s' = 0 \<and> granted (sem_waiters s') = 0"
    using ok q(1) by (auto simp: ledger_ok_def slots_out_def)
  finally show ?thesis using e q by (auto simp: finished_def bounded_def chan_len_def)
qed

definition chan_quiet :: "('w ucall \<Rightarrow> ('w, 'e, 'v, 'x) chan_scheme \<Rightarrow> ('w, 'e, 'v, 'x) chan_scheme) \<Rightarrow> bool" where
  "chan_quiet u \<longleftrightarrow> quiet u \<and> (\<forall>c s. queue (u c s) = queue s)"

lemma serve_waiters_queue:
  assumes "serve_waiters u s = Some s'" and "\<forall>c s. queue (u c s) = queue s"
  shows "queue s' = queue s"
  using assms
proof (induction u s s' rule: serve_waiters_induct)
  case (step rec u s s')
  obtain g S where g: "grant_front_if (nat (permits s)) (sem_waiters s) = (g, S)" by fastforce
  show ?case
  proof (cases "permits s < 0 \<or> g = None")
    case True
    then show ?thesis using step.hyps g by (auto split: if_splits)
  next
    case False
    then obtain n w where "g = Some (n, w)" by auto
    then have "rec u (wake_waker u w (s\<lparr>sem_waiters := S, permits := permits s - as_isize n\<rparr>)) = Some s'"
      using False step.hyps g by simp
    from step.IH [OF this step.prems] show ?thesis
      using step.prems by (simp add: wake_waker_def split: option.splits)
  qed
qed

lemma release_quiet:
  assumes "chan_quiet u" and "slab_inv (sem_waiters s)" and "0 \<le> permits s" and "permits s + int k \<le> isize_max"
  shows "\<exists>s'. lim_release (bounded u) k s = Some s' \<and> queue s' = queue s
    \<and> permits s' + int (granted (sem_waiters s')) = permits s + int (granted (sem_waiters s)) + int k"
proof (cases "k = 0")
  case True
  then show ?thesis by (simp add: bounded_def)
next
  case False
  define t where "t = s\<lparr>permits := permits s + int k\<rparr>"
  have "as_isize k = int k" using assms(3,4) by (intro as_isize_small) simp
  then have "isize_saturating_add (permits s) (as_isize k) = permits s + int k"
    using assms(3,4) by (simp add: isize_saturating_add_def isize_min_def)
  then have rel: "lim_release (bounded u) k s = serve u t" using False by (simp add: bounded_def sem_release_def t_def)
  have q: "quiet u" "\<forall>c s. queue (u c s) = queue s" using assms(1) by (auto simp: chan_quiet_def)
  have "\<exists>s'. serve u t = Some s' \<and> permits s' + int (granted (sem_waiters s')) = permits t + int (granted (sem_waiters t))"
  proof (cases "sem_closed t")
    case True
    then show ?thesis by (simp add: serve_def)
  next
    case False
    have "slab_inv (sem_waiters t)" "permits t \<le> isize_max" using assms(2,4) by (auto simp: t_def)
    from serve_quiet [OF q(1) this False] False show ?thesis by (auto simp: served_def)
  qed
  then obtain s' where s': "serve u t = Some s'" "permits s' + int (granted (sem_waiters s')) = permits t + int (granted (sem_waiters t))"
    by blast
  have "queue s' = queue t"
    using s'(1) serve_waiters_queue [OF _ q(2)] by (auto simp: serve_def split: if_splits)
  then show ?thesis using s' rel by (auto simp: t_def)
qed

text \<open>C26: Values come out in the order they went in, and their slots come back.  On a bounded channel with a value in
  the queue, with wakers that leave the channel alone and budget left, a batch receive completes, even when it serves
  waiting senders: it appends the longest prefix of the queue that its limit allows to the buffer and leaves the
  rest, and as many slots as it took values are then free or granted to senders that waited.\<close>

theorem recv_many_order:
  assumes "chan_quiet u" and "slab_inv (sem_waiters s)" and "0 \<le> permits s" and "permits s + int (length (queue s)) \<le> isize_max"
    and "budget s \<noteq> 0" and "0 < lim" and "queue s \<noteq> []"
  shows "\<exists>s'. poll_recv_many (bounded u) u w buf lim s
      = Some (Ready (min (length (queue s)) lim), buf @ take lim (queue s), s') \<and> queue s' = drop lim (queue s)
      \<and> permits s' + int (granted (sem_waiters s'))
          = permits s + int (granted (sem_waiters s)) + int (min (length (queue s)) lim)"
proof -
  define k where "k = min (length (queue s)) lim"
  have k: "0 < k" "take k (queue s) = take lim (queue s)" "drop k (queue s) = drop lim (queue s)" "k \<le> length (queue s)"
    using assms(6,7) by (auto simp: k_def min_def)
  obtain s2 where s2: "lim_release (bounded u) k (s\<lparr>queue := drop k (queue s)\<rparr>) = Some s2" "queue s2 = drop k (queue s)"
    "permits s2 + int (granted (sem_waiters s2)) = permits s + int (granted (sem_waiters s)) + int k"
    using release_quiet [OF assms(1), of "s\<lparr>queue := drop k (queue s)\<rparr>" k] assms(2-4) k(4) by auto
  have "take_many buf lim s = (k, buf @ take k (queue s), s\<lparr>queue := drop k (queue s)\<rparr>)"
    by (simp add: take_many_def Let_def k_def)
  then have "poll_recv_many (bounded u) u w buf lim s = Some (Ready k, buf @ take k (queue s), spent_one s2)"
    using assms(5,6) k(1) s2(1) by (simp add: poll_recv_many_def exhausted_def)
  then show ?thesis using k s2(2,3) unfolding k_def [symmetric] by (auto simp: spent_one_def)
qed

text \<open>A concrete channel of two slots, with one value queued.\<close>

definition chan_start :: "(nat, nat, nat) chan" where
  "chan_start = \<lparr>budget = 128, cur_task = Some 0, on_shard = True, budget_yields = 0, world = 0, permits = 2,
     sem_closed = False, sem_waiters = slab_new, queue = [], rx_waker = None, senders = 1, rx_closed = False,
     closed_waiters = slab_new, max_cap = 2\<rparr>"

abbreviation idle_user :: "nat ucall \<Rightarrow> (nat, nat, nat) chan \<Rightarrow> (nat, nat, nat) chan" where
  "idle_user \<equiv> (\<lambda>c s. s)"

lemma chan_start_is:
  "channel 2 chan_start = Inr chan_start" "world chan_start = 0"
  "try_send idle_user 9 chan_start = Inr (Inr (), chan_start\<lparr>permits := 1, queue := [9]\<rparr>)"
  by (simp_all add: channel_def sem_init_def MAX_PERMITS_def usize_max_def chan_start_def chan_new_def as_isize_def isize_max_def
      try_send_def try_reserve_def try_acquire_many_def checked_permits_def waiters_is_empty_def slab_new_def
      permit_send_def chan_push_def wake_rx_def wake_waker_def)

lemma idle_slots: "slots_hooks n idle_user (\<lambda>v s. s)"
  by (simp add: slots_hooks_def ledger_hooks_def)

lemma chan_run1: "(chan_step idle_user (\<lambda>v s. s))\<^sup>*\<^sup>* chan_start (chan_start\<lparr>permits := 1, queue := [9]\<rparr>)"
  by (rule r_into_rtranclp) (rule chan_step.tried_send [OF chan_start_is(3)])

theorem bounded_capacity_witness:
  "(chan_step idle_user (\<lambda>v s. s))\<^sup>*\<^sup>* chan_start (chan_start\<lparr>permits := 1, queue := [9]\<rparr>)
   \<and> length (queue (chan_start\<lparr>permits := 1, queue := [9]\<rparr>)) + 0 + 0 + capacity (chan_start\<lparr>permits := 1, queue := [9]\<rparr>) = 2"
  using bounded_capacity [OF idle_slots chan_start_is(1,2) chan_run1] chan_run1
  by (simp add: chan_start_def line_new)

theorem disconnected_exactly_witness:
  "chan_try_recv (bounded idle_user) chan_start = Some (Inl Chan_Empty, chan_start) \<and> \<not> rx_is_closed chan_start"
proof -
  have r: "chan_try_recv (bounded idle_user) chan_start = Some (Inl Chan_Empty, chan_start)"
    by (simp add: chan_try_recv_def pop_released_def chan_pop_def chan_start_def finished_def rx_is_closed_def)
  show ?thesis
    using disconnected_exactly [OF idle_slots chan_start_is(1,2) rtranclp.rtrancl_refl r] r
    by (simp add: chan_start_def line_new)
qed

theorem recv_pending_is_open_witness:
  "\<exists>s'. poll_recv (bounded idle_user) idle_user 7 chan_start = Some (Pending, s') \<and> queue s' = [] \<and> rx_waker s' = Some 7"
proof -
  have p: "poll_recv (bounded idle_user) idle_user 7 chan_start = Some (Pending, chan_start\<lparr>rx_waker := Some 7\<rparr>)"
    by (simp add: poll_recv_def exhausted_def chan_start_def pop_released_def chan_pop_def register_rx_def drop_waker_def
        chan_len_def finished_def rx_is_closed_def)
  show ?thesis using recv_pending_is_open [OF p] p by (auto simp: chan_start_def budget_yield_def)
qed

theorem recv_many_order_witness:
  "\<exists>s'. poll_recv_many (bounded idle_user) idle_user 7 [] 2 (chan_start\<lparr>permits := 0, queue := [4, 5, 6]\<rparr>) = Some (Ready 2, [4, 5], s')
     \<and> queue s' = [6] \<and> permits s' + int (granted (sem_waiters s')) = 2"
proof -
  let ?s = "chan_start\<lparr>permits := 0, queue := [4, 5, 6]\<rparr>"
  have "chan_quiet idle_user" by (simp add: chan_quiet_def quiet_def)
  moreover have "slab_inv (sem_waiters ?s)" by (simp add: chan_start_def slab_inv_new)
  moreover have "0 \<le> permits ?s" "permits ?s + int (length (queue ?s)) \<le> isize_max" "budget ?s \<noteq> 0" "queue ?s \<noteq> []"
    by (simp_all add: chan_start_def isize_max_def)
  moreover have "granted (sem_waiters ?s) = 0" by (simp add: chan_start_def line_new)
  ultimately show ?thesis using recv_many_order [of idle_user ?s 2 7 "[]"] by (simp add: numeral_2_eq_2)
qed

end
