(* ===== verification/Io_Base.thy ===== *)
theory Io_Base
  imports Coop
begin

text \<open>
  The streams the IO utilities of \<open>src/src/io/util/\<close> work on.  They take any \<open>futures-io\<close> stream, so a
  stream is a parameter: a reader is its \<open>poll_read\<close>, a function of the slice it may write and of its own
  state, and a writer the polls of \<open>AsyncWrite\<close>.  The task's context is part of those functions.
  A poll answers \<open>Poll<io::Result<T>>\<close>; a panic is a fault, which nothing here catches.  The locales state
  what a reader or writer that behaves promises, and the streams of the library are shown to keep it.
\<close>

subsection \<open>Polls\<close>

type_synonym byte = "8 word"

datatype fault = Unexpected_eof | Write_zero | Broken_pipe | Invalid_data | Invalid_input | Os nat | Panicked

type_synonym 'a io = "(fault + 'a) poll"

abbreviation ok :: "'a \<Rightarrow> 'a io" where "ok a \<equiv> Ready (Inr a)"
abbreviation err :: "fault \<Rightarrow> 'a io" where "err e \<equiv> Ready (Inl e)"

lemma io_cases [case_names Wait Err Ok]:
  obtains "p = Pending" | e where "p = err e" | a where "p = ok a"
proof (cases p)
  case (Ready r)
  then show thesis using that by (cases r) auto
qed (use that in auto)

subsection \<open>Readers\<close>

text \<open>A reader gets a slice and answers a count and what it wrote; the slice keeps its length.\<close>

type_synonym 'r reader = "byte list \<Rightarrow> 'r \<Rightarrow> nat io \<times> byte list \<times> 'r"

definition overlay :: "byte list \<Rightarrow> byte list \<Rightarrow> byte list" where
  "overlay old new = take (length old) new @ drop (length new) old"

lemma length_overlay [simp]: "length (overlay old new) = length old"
  by (simp add: overlay_def)

lemma overlay_same [simp]: "length new = length old \<Longrightarrow> overlay old new = new"
  by (simp add: overlay_def)

lemma overlay_Nil [simp]: "overlay old new = [] \<longleftrightarrow> old = []"
  by (metis length_0_conv length_overlay)

text \<open>What a reader that behaves promises: it counts what it wrote, what it wrote is the next part of
  what it has left to give, it answers zero to a nonempty slice only at its end, and a poll that gives
  nothing loses nothing.\<close>

locale byte_source =
  fixes rd :: "'r reader" and left :: "'r \<Rightarrow> byte list" and sound :: "'r \<Rightarrow> bool"
  assumes read_ok: "sound r \<Longrightarrow> rd buf r = (ok n, b, r') \<Longrightarrow>
      n \<le> length buf \<and> n \<le> length (left r) \<and> take n (overlay buf b) = take n (left r) \<and> left r' = drop n (left r)
      \<and> sound r' \<and> (n = 0 \<longrightarrow> buf = [] \<or> left r = [])"
    and read_wait: "sound r \<Longrightarrow> rd buf r = (Pending, b, r') \<Longrightarrow> left r' = left r \<and> sound r'"
    and read_err: "sound r \<Longrightarrow> rd buf r = (err e, b, r') \<Longrightarrow> left r' = left r \<and> sound r' \<and> e \<noteq> Panicked"

subsection \<open>Writers\<close>

record 'w writer =
  poll_write :: "byte list \<Rightarrow> 'w \<Rightarrow> nat io \<times> 'w"
  poll_write_vectored :: "byte list list \<Rightarrow> 'w \<Rightarrow> nat io \<times> 'w"
  poll_flush :: "'w \<Rightarrow> unit io \<times> 'w"
  poll_close :: "'w \<Rightarrow> unit io \<times> 'w"

text \<open>What a writer that behaves promises, in terms of a relation that holds when it went from one state to
  another by taking some bytes in order: it takes a prefix of what it is offered, as long as it says, and
  a poll that takes nothing says so.\<close>

locale byte_sink =
  fixes W :: "'w writer" and took :: "'w \<Rightarrow> byte list \<Rightarrow> 'w \<Rightarrow> bool" and sane :: "'w \<Rightarrow> bool"
  assumes took_nothing: "took w [] w"
    and took_both: "took w a w' \<Longrightarrow> took w' b w'' \<Longrightarrow> took w (a @ b) w''"
    and write_ok: "sane w \<Longrightarrow> poll_write W b w = (ok n, w') \<Longrightarrow> n \<le> length b \<and> took w (take n b) w' \<and> sane w'"
    and write_not: "sane w \<Longrightarrow> poll_write W b w = (p, w') \<Longrightarrow> (\<And>n. p \<noteq> ok n) \<Longrightarrow>
      took w [] w' \<and> sane w' \<and> p \<noteq> err Panicked"
    and flushed: "sane w \<Longrightarrow> poll_flush W w = (q, w') \<Longrightarrow> took w [] w' \<and> sane w' \<and> q \<noteq> err Panicked"
    and closed: "sane w \<Longrightarrow> poll_close W w = (q, w') \<Longrightarrow> took w [] w' \<and> sane w' \<and> q \<noteq> err Panicked"

end
