(* ===== verification/Io_Write.thy ===== *)
theory Io_Write
  imports Io_Base
begin

text \<open>
  The writes every writer gets, \<open>src/src/io/util/write_ext.rs\<close>: all of a slice, and numbers in big or
  little endian, whose conversions to bytes are Rust's \<open>to_be_bytes\<close> and \<open>to_le_bytes\<close>.
\<close>

subsection \<open>All of a slice\<close>

definition write_poll :: "'w writer \<Rightarrow> byte list \<Rightarrow> 'w \<Rightarrow> nat io \<times> 'w" where
  "write_poll W buf w = poll_write W buf w"

definition write_vectored_poll :: "'w writer \<Rightarrow> byte list list \<Rightarrow> 'w \<Rightarrow> nat io \<times> 'w" where
  "write_vectored_poll W bufs w = poll_write_vectored W bufs w"

function write_all :: "'w writer \<Rightarrow> byte list \<Rightarrow> 'w \<Rightarrow> unit io \<times> byte list \<times> 'w" where
  "write_all W buf w =
     (if buf = [] then (ok (), buf, w)
      else
        (case poll_write W buf w of
           (Pending, w1) \<Rightarrow> (Pending, buf, w1)
         | (Ready (Inl e), w1) \<Rightarrow> (err e, buf, w1)
         | (Ready (Inr n), w1) \<Rightarrow>
             if n = 0 then (err Write_zero, buf, w1)
             else if n > length buf then (err Panicked, buf, w1)
             else write_all W (drop n buf) w1))"
  by pat_completeness auto
termination
  by (relation "measure (\<lambda>(W, buf, w). length buf)") auto

declare write_all.simps [simp del]

definition flush_poll :: "'w writer \<Rightarrow> 'w \<Rightarrow> unit io \<times> 'w" where
  "flush_poll W w = poll_flush W w"

definition shutdown_poll :: "'w writer \<Rightarrow> 'w \<Rightarrow> unit io \<times> 'w" where
  "shutdown_poll W w = poll_close W w"

subsection \<open>Numbers\<close>

record write_number =
  wn_bytes :: "byte list"
  wn_done :: nat

function write_number_poll :: "'w writer \<Rightarrow> write_number \<Rightarrow> 'w \<Rightarrow> unit io \<times> write_number \<times> 'w" where
  "write_number_poll W t w =
     (if wn_done t < length (wn_bytes t) then
        (case poll_write W (drop (wn_done t) (wn_bytes t)) w of
           (Pending, w1) \<Rightarrow> (Pending, t, w1)
         | (Ready (Inl e), w1) \<Rightarrow> (err e, t, w1)
         | (Ready (Inr n), w1) \<Rightarrow>
             if n = 0 then (err Write_zero, t, w1)
             else write_number_poll W (t\<lparr>wn_done := wn_done t + n\<rparr>) w1)
      else (ok (), t, w))"
  by pat_completeness auto
termination
  by (relation "measure (\<lambda>(W, t, w). length (wn_bytes t) - wn_done t)") auto

declare write_number_poll.simps [simp del]

text \<open>The byte at place \<open>i\<close> from the low end, and the bytes of a number in both orders.\<close>

definition byte_at :: "'a::len word \<Rightarrow> nat \<Rightarrow> byte" where
  "byte_at v i = ucast (drop_bit (8 * i) v)"

definition to_le_bytes :: "'a::len word \<Rightarrow> byte list" where
  "to_le_bytes v = map (byte_at v) [0..<LENGTH('a) div 8]"

definition to_be_bytes :: "'a::len word \<Rightarrow> byte list" where
  "to_be_bytes v = rev (to_le_bytes v)"

definition write_number_be :: "'a::len word \<Rightarrow> write_number" where
  "write_number_be v = \<lparr>wn_bytes = to_be_bytes v, wn_done = 0\<rparr>"

definition write_number_le :: "'a::len word \<Rightarrow> write_number" where
  "write_number_le v = \<lparr>wn_bytes = to_le_bytes v, wn_done = 0\<rparr>"

subsection \<open>What a write does\<close>

context byte_sink
begin

lemma write_all_took:
  assumes "sane w" and "write_all W buf w = (p, buf', w')"
  shows "\<exists>k. k \<le> length buf \<and> took w (take k buf) w' \<and> buf' = drop k buf \<and> sane w' \<and> p \<noteq> err Panicked
    \<and> (p = ok () \<longrightarrow> k = length buf)"
  using assms
proof (induction "length buf" arbitrary: buf w rule: less_induct)
  case less
  show ?case
  proof (cases "buf = []")
    case True
    then have "p = ok ()" "buf' = []" "w' = w" using less.prems(2) by (auto simp: write_all.simps)
    then show ?thesis using True less.prems(1) took_nothing by auto
  next
    case False
    obtain q w1 where q: "poll_write W buf w = (q, w1)" by fastforce
    show ?thesis
    proof (cases q rule: io_cases)
      case Wait
      then have "p = Pending" "buf' = buf" "w' = w1" using less.prems(2) q False by (auto simp: write_all.simps)
      then show ?thesis using write_not [OF less.prems(1) q] Wait by (intro exI [of _ 0]) auto
    next
      case (Err e)
      then have "p = err e" "buf' = buf" "w' = w1" using less.prems(2) q False by (auto simp: write_all.simps)
      then show ?thesis using write_not [OF less.prems(1) q] Err by (intro exI [of _ 0]) auto
    next
      case (Ok n)
      note law = write_ok [OF less.prems(1) q [unfolded Ok]]
      show ?thesis
      proof (cases "n = 0")
        case True
        then have "p = err Write_zero" "buf' = buf" "w' = w1" using less.prems(2) q Ok False by (auto simp: write_all.simps)
        then show ?thesis using law True by (intro exI [of _ 0]) auto
      next
        case more: False
        have step: "write_all W (drop n buf) w1 = (p, buf', w')"
          using less.prems(2) q Ok False more law by (subst (asm) write_all.simps) simp
        have "length (drop n buf) < length buf" using more False by simp
        from less.hyps [OF this _ step] obtain k where k: "k \<le> length (drop n buf)" "took w1 (take k (drop n buf)) w'"
          "buf' = drop k (drop n buf)" "sane w'" "p \<noteq> err Panicked" "p = ok () \<longrightarrow> k = length (drop n buf)"
          using law by blast
        have "took w (take n buf @ take k (drop n buf)) w'" using took_both law k(2) by blast
        then have "took w (take (n + k) buf) w'" by (simp add: take_add)
        moreover have "buf' = drop (n + k) buf" using k(3) by (simp add: add.commute)
        ultimately show ?thesis using k law by (intro exI [of _ "n + k"]) auto
      qed
    qed
  qed
qed

lemma write_number_took:
  assumes "sane w" and "wn_done t \<le> length (wn_bytes t)" and "write_number_poll W t w = (p, t', w')"
  shows "wn_bytes t' = wn_bytes t \<and> wn_done t \<le> wn_done t' \<and> wn_done t' \<le> length (wn_bytes t)
    \<and> took w (take (wn_done t' - wn_done t) (drop (wn_done t) (wn_bytes t))) w' \<and> sane w'
    \<and> (p = ok () \<longrightarrow> wn_done t' = length (wn_bytes t))"
  using assms
proof (induction "length (wn_bytes t) - wn_done t" arbitrary: t w rule: less_induct)
  case less
  show ?case
  proof (cases "wn_done t < length (wn_bytes t)")
    case False
    then have "p = ok ()" "t' = t" "w' = w" using less.prems(3) by (auto simp: write_number_poll.simps)
    then show ?thesis using False less.prems took_nothing by auto
  next
    case True
    obtain q w1 where q: "poll_write W (drop (wn_done t) (wn_bytes t)) w = (q, w1)" by fastforce
    show ?thesis
    proof (cases q rule: io_cases)
      case Wait
      then have "p = Pending" "t' = t" "w' = w1" using less.prems(3) q True by (auto simp: write_number_poll.simps)
      then show ?thesis using write_not [OF less.prems(1) q] Wait less.prems(2) by auto
    next
      case (Err e)
      then have "p = err e" "t' = t" "w' = w1" using less.prems(3) q True by (auto simp: write_number_poll.simps)
      then show ?thesis using write_not [OF less.prems(1) q] Err less.prems(2) by auto
    next
      case (Ok n)
      note law = write_ok [OF less.prems(1) q [unfolded Ok]]
      show ?thesis
      proof (cases "n = 0")
        case True
        then have "p = err Write_zero" "t' = t" "w' = w1"
          using less.prems(3) q Ok \<open>wn_done t < _\<close> by (auto simp: write_number_poll.simps)
        then show ?thesis using law True less.prems(2) by auto
      next
        case more: False
        define t1 where "t1 = t\<lparr>wn_done := wn_done t + n\<rparr>"
        have step: "write_number_poll W t1 w1 = (p, t', w')"
          using less.prems(3) q Ok True more by (subst (asm) write_number_poll.simps) (simp add: t1_def)
        have t1: "wn_bytes t1 = wn_bytes t" "wn_done t1 = wn_done t + n" by (simp_all add: t1_def)
        have IH: "wn_bytes t' = wn_bytes t \<and> wn_done t1 \<le> wn_done t' \<and> wn_done t' \<le> length (wn_bytes t)
          \<and> took w1 (take (wn_done t' - wn_done t1) (drop (wn_done t1) (wn_bytes t))) w' \<and> sane w'
          \<and> (p = ok () \<longrightarrow> wn_done t' = length (wn_bytes t))"
          using less.hyps [OF _ _ _ step] more True law by (auto simp: t1)
        define B m where "B = drop (wn_done t) (wn_bytes t)" and "m = wn_done t' - wn_done t1"
        have "took w1 (take m (drop n B)) w'" using IH by (simp add: B_def m_def t1 add.commute)
        moreover have "took w (take n B) w1" using law by (simp add: B_def)
        ultimately have "took w (take (n + m) B) w'" using took_both by (simp add: take_add)
        moreover have "n + m = wn_done t' - wn_done t" using IH t1(2) by (simp add: m_def)
        ultimately show ?thesis using IH t1(2) by (simp add: B_def)
      qed
    qed
  qed
qed

end

end
