(* ===== verification/Io_Read.thy ===== *)
theory Io_Read
  imports Io_Write
begin

text \<open>
  The reads every reader gets, \<open>src/src/io/util/read_ext.rs\<close>, and the read buffer over memory that may be
  uninitialized, \<open>src/src/io/util/read_buf.rs\<close>.  A byte of such memory is an option, \<open>None\<close> while it is
  uninitialized; handing a slice to safe code reads its bytes, so a slice with an uninitialized byte has
  no value and is the fault \<open>Uninit\<close> of the model: that it never happens is a theorem.
\<close>

subsection \<open>Memory\<close>

datatype 'a mem = Uninit | Init 'a

definition bytes_of :: "byte option list \<Rightarrow> byte list mem" where
  "bytes_of m = (if None \<in> set m then Uninit else Init (map the m))"

definition store :: "nat \<Rightarrow> byte list \<Rightarrow> byte option list \<Rightarrow> byte option list" where
  "store at b m = take at m @ map Some b @ drop (at + length b) m"

lemma length_store [simp]: "at + length b \<le> length m \<Longrightarrow> length (store at b m) = length m"
  by (simp add: store_def)

subsection \<open>The read buffer\<close>

record read_buf =
  rb_mem :: "byte option list"
  rb_filled :: nat
  rb_initialized :: nat

definition rb_new :: "byte list \<Rightarrow> read_buf" where
  "rb_new buf = \<lparr>rb_mem = map Some buf, rb_filled = 0, rb_initialized = length buf\<rparr>"

definition rb_uninit :: "byte option list \<Rightarrow> read_buf" where
  "rb_uninit buf = \<lparr>rb_mem = buf, rb_filled = 0, rb_initialized = 0\<rparr>"

definition rb_capacity :: "read_buf \<Rightarrow> nat" where
  "rb_capacity rb = length (rb_mem rb)"

definition filled :: "read_buf \<Rightarrow> byte list mem" where
  "filled rb = bytes_of (take (rb_filled rb) (rb_mem rb))"

definition initialized :: "read_buf \<Rightarrow> byte list mem" where
  "initialized rb = bytes_of (take (rb_initialized rb) (rb_mem rb))"

definition rb_remaining :: "read_buf \<Rightarrow> nat" where
  "rb_remaining rb = rb_capacity rb - rb_filled rb"

definition rb_take :: "nat \<Rightarrow> read_buf \<Rightarrow> read_buf" where
  "rb_take n rb =
     (let k = min n (rb_remaining rb)
      in (rb_uninit (take k (drop (rb_filled rb) (rb_mem rb))))
           \<lparr>rb_initialized := min (rb_initialized rb - rb_filled rb) k\<rparr>)"

text \<open>The part of the buffer that is handed out, and the buffer after; a panic is \<open>Inl Panicked\<close>.\<close>

definition initialize_unfilled_to :: "nat \<Rightarrow> read_buf \<Rightarrow> fault + byte list mem \<times> read_buf" where
  "initialize_unfilled_to n rb =
     (if n \<le> rb_remaining rb then
        (let end = rb_filled rb + n;
             rb1 = (if rb_initialized rb < end
                    then rb\<lparr>rb_mem := store (rb_initialized rb) (replicate (end - rb_initialized rb) 0) (rb_mem rb),
                            rb_initialized := end\<rparr>
                    else rb)
         in Inr (bytes_of (take n (drop (rb_filled rb1) (rb_mem rb1))), rb1))
      else Inl Panicked)"

definition initialize_unfilled :: "read_buf \<Rightarrow> fault + byte list mem \<times> read_buf" where
  "initialize_unfilled rb = initialize_unfilled_to (rb_remaining rb) rb"

definition rb_clear :: "read_buf \<Rightarrow> read_buf" where
  "rb_clear rb = rb\<lparr>rb_filled := 0\<rparr>"

definition set_filled :: "nat \<Rightarrow> read_buf \<Rightarrow> fault + read_buf" where
  "set_filled n rb = (if n \<le> rb_initialized rb then Inr (rb\<lparr>rb_filled := n\<rparr>) else Inl Panicked)"

definition rb_advance :: "nat \<Rightarrow> read_buf \<Rightarrow> fault + read_buf" where
  "rb_advance n rb = (if rb_filled rb + n \<le> usize_max then set_filled (rb_filled rb + n) rb else Inl Panicked)"

definition assume_init :: "nat \<Rightarrow> read_buf \<Rightarrow> read_buf" where
  "assume_init n rb =
     (let end = rb_filled rb + n in if end > rb_initialized rb then rb\<lparr>rb_initialized := end\<rparr> else rb)"

definition put_slice :: "byte list \<Rightarrow> read_buf \<Rightarrow> fault + read_buf" where
  "put_slice b rb =
     (if rb_remaining rb \<ge> length b then
        (let end = rb_filled rb + length b;
             rb1 = rb\<lparr>rb_mem := store (rb_filled rb) b (rb_mem rb)\<rparr>;
             rb2 = (if rb_initialized rb1 < end then rb1\<lparr>rb_initialized := end\<rparr> else rb1)
         in Inr (rb2\<lparr>rb_filled := end\<rparr>))
      else Inl Panicked)"

text \<open>A reader of a library that behaves on memory: it is given initialized bytes only.\<close>

definition poll_read_buf :: "'r reader \<Rightarrow> read_buf \<Rightarrow> 'r \<Rightarrow> nat io mem \<times> read_buf \<times> 'r" where
  "poll_read_buf rd rb r =
     (if rb_remaining rb = 0 then (Init (ok 0), rb, r)
      else
        (case initialize_unfilled rb of
           Inl e \<Rightarrow> (Init (err e), rb, r)
         | Inr (Uninit, rb1) \<Rightarrow> (Uninit, rb1, r)
         | Inr (Init dst, rb1) \<Rightarrow>
             (case rd dst r of
                (p, b, r1) \<Rightarrow>
                  (let rb2 = rb1\<lparr>rb_mem := store (rb_filled rb1) (overlay dst b) (rb_mem rb1)\<rparr>
                   in case p of
                        Pending \<Rightarrow> (Init Pending, rb2, r1)
                      | Ready (Inl e) \<Rightarrow> (Init (err e), rb2, r1)
                      | Ready (Inr n) \<Rightarrow>
                          (case rb_advance n rb2 of
                             Inl e \<Rightarrow> (Init (err e), rb2, r1)
                           | Inr rb3 \<Rightarrow> (Init (ok n), rb3, r1))))))"

subsection \<open>Filling a slice\<close>

function fill :: "'r reader \<Rightarrow> byte list \<Rightarrow> nat \<Rightarrow> 'r \<Rightarrow> unit io \<times> byte list \<times> nat \<times> 'r" where
  "fill rd buf done r =
     (if done < length buf then
        (case rd (drop done buf) r of
           (p, b, r1) \<Rightarrow>
             (let buf1 = take done buf @ overlay (drop done buf) b
              in case p of
                   Pending \<Rightarrow> (Pending, buf1, done, r1)
                 | Ready (Inl e) \<Rightarrow> (err e, buf1, done, r1)
                 | Ready (Inr n) \<Rightarrow>
                     if n = 0 then (err Unexpected_eof, buf1, done, r1) else fill rd buf1 (done + n) r1))
      else (ok (), buf, done, r))"
  by pat_completeness auto
termination
  by (relation "measure (\<lambda>(rd, buf, done, r). length buf - done)") (auto simp: Let_def)

declare fill.simps [simp del]

definition read_poll :: "'r reader \<Rightarrow> byte list \<Rightarrow> 'r \<Rightarrow> nat io \<times> byte list \<times> 'r" where
  "read_poll rd buf r = rd buf r"

definition read_exact_poll :: "'r reader \<Rightarrow> byte list \<Rightarrow> nat \<Rightarrow> 'r \<Rightarrow> nat io \<times> byte list \<times> nat \<times> 'r" where
  "read_exact_poll rd buf done r =
     (case fill rd buf done r of
        (Pending, b, d, r1) \<Rightarrow> (Pending, b, d, r1)
      | (Ready (Inl e), b, d, r1) \<Rightarrow> (err e, b, d, r1)
      | (Ready (Inr _), b, d, r1) \<Rightarrow> (ok (length b), b, d, r1))"

subsection \<open>Numbers\<close>

fun from_le_bytes :: "byte list \<Rightarrow> 'a::len word" where
  "from_le_bytes [] = 0"
| "from_le_bytes (b # bs) = ucast b + 256 * from_le_bytes bs"

definition from_be_bytes :: "byte list \<Rightarrow> 'a::len word" where
  "from_be_bytes bs = from_le_bytes (rev bs)"

record 'a read_number =
  rn_bytes :: "byte list"
  rn_done :: nat
  rn_convert :: "byte list \<Rightarrow> 'a"

definition read_number_be :: "('a::len word) read_number" where
  "read_number_be = \<lparr>rn_bytes = replicate (LENGTH('a) div 8) 0, rn_done = 0, rn_convert = from_be_bytes\<rparr>"

definition read_number_le :: "('a::len word) read_number" where
  "read_number_le = \<lparr>rn_bytes = replicate (LENGTH('a) div 8) 0, rn_done = 0, rn_convert = from_le_bytes\<rparr>"

definition read_number_poll :: "'r reader \<Rightarrow> 'a read_number \<Rightarrow> 'r \<Rightarrow> 'a io \<times> 'a read_number \<times> 'r" where
  "read_number_poll rd t r =
     (case fill rd (rn_bytes t) (rn_done t) r of
        (p, b, d, r1) \<Rightarrow>
          (let t1 = t\<lparr>rn_bytes := b, rn_done := d\<rparr>
           in case p of
                Pending \<Rightarrow> (Pending, t1, r1)
              | Ready (Inl e) \<Rightarrow> (err e, t1, r1)
              | Ready (Inr _) \<Rightarrow> (ok (rn_convert t1 (rn_bytes t1)), t1, r1)))"

subsection \<open>Reading to the end\<close>

text \<open>A vector: its whole allocation and how much of it is in use.  How far an allocation grows is up to the
  allocator: \<open>grow cap need\<close> is the new capacity.\<close>

record vec =
  v_mem :: "byte option list"
  v_len :: nat

abbreviation v_cap :: "vec \<Rightarrow> nat" where
  "v_cap v \<equiv> length (v_mem v)"

definition vec_of :: "byte list \<Rightarrow> nat \<Rightarrow> vec" where
  "vec_of bs spare = \<lparr>v_mem = map Some bs @ replicate spare None, v_len = length bs\<rparr>"

definition vec_bytes :: "vec \<Rightarrow> byte list mem" where
  "vec_bytes v = bytes_of (take (v_len v) (v_mem v))"

definition vec_reserve :: "(nat \<Rightarrow> nat \<Rightarrow> nat) \<Rightarrow> nat \<Rightarrow> vec \<Rightarrow> vec" where
  "vec_reserve grow extra v =
     (if v_cap v - v_len v \<ge> extra then v
      else v\<lparr>v_mem := take (v_len v) (v_mem v) @ replicate (grow (v_cap v) (v_len v + extra) - v_len v) None\<rparr>)"

definition MIN_READ :: nat where "MIN_READ = 32"
definition MAX_READ :: nat where "MAX_READ = 64 * 1024"

text \<open>One round before the read: room in the vector, and its spare memory zeroed as far as it is used.\<close>

definition make_room :: "(nat \<Rightarrow> nat \<Rightarrow> nat) \<Rightarrow> vec \<Rightarrow> nat \<Rightarrow> vec \<times> nat \<times> nat" where
  "make_room grow v zeroed =
     (let (v1, z1) =
        (if v_cap v - v_len v < MIN_READ then
           (let v' = vec_reserve grow (max MIN_READ (min (v_len v) MAX_READ)) v
            in (v', if v_cap v' \<noteq> v_cap v then 0 else zeroed))
         else (v, zeroed));
          room = min (v_cap v1 - v_len v1) MAX_READ
      in if z1 < room then (v1\<lparr>v_mem := store (v_len v1 + z1) (replicate (room - z1) 0) (v_mem v1)\<rparr>, room, room)
         else (v1, z1, room))"

partial_function (option) read_to_end :: "(nat \<Rightarrow> nat \<Rightarrow> nat) \<Rightarrow> 'r reader \<Rightarrow> vec \<Rightarrow> nat \<Rightarrow> 'r
    \<Rightarrow> (unit io mem \<times> vec \<times> nat \<times> 'r) option" where
  "read_to_end grow rd v zeroed r =
     (case make_room grow v zeroed of
        (v1, z1, room) \<Rightarrow>
          (case bytes_of (take room (drop (v_len v1) (v_mem v1))) of
             Uninit \<Rightarrow> Some (Uninit, v1, z1, r)
           | Init dst \<Rightarrow>
               (case rd dst r of
                  (p, b, r1) \<Rightarrow>
                    (let v2 = v1\<lparr>v_mem := store (v_len v1) (overlay dst b) (v_mem v1)\<rparr>
                     in case p of
                          Pending \<Rightarrow> Some (Init Pending, v2, z1, r1)
                        | Ready res \<Rightarrow>
                            (case res of
                               Inl e \<Rightarrow> Some (Init (err e), v2, z1, r1)
                             | Inr n \<Rightarrow>
                                 if n = 0 then Some (Init (ok ()), v2, z1, r1)
                                 else if n > room then Some (Init (err Invalid_data), v2, z1, r1)
                                 else read_to_end grow rd (v2\<lparr>v_len := v_len v2 + n\<rparr>) (z1 - n) r1)))))"

declare read_to_end.simps [code]

text \<open>The future: it answers how much it appended.\<close>

definition read_to_end_poll :: "(nat \<Rightarrow> nat \<Rightarrow> nat) \<Rightarrow> 'r reader \<Rightarrow> nat \<Rightarrow> vec \<Rightarrow> nat \<Rightarrow> 'r
    \<Rightarrow> (nat io mem \<times> vec \<times> nat \<times> 'r) option" where
  "read_to_end_poll grow rd start v zeroed r =
     map_option (\<lambda>(p, v1, z1, r1).
       ((case p of
           Uninit \<Rightarrow> Uninit
         | Init Pending \<Rightarrow> Init Pending
         | Init (Ready (Inl e)) \<Rightarrow> Init (err e)
         | Init (Ready (Inr _)) \<Rightarrow> Init (ok (v_len v1 - start))), v1, z1, r1))
       (read_to_end grow rd v zeroed r)"

subsection \<open>Readers made of readers\<close>

record 'r take_reader =
  t_inner :: 'r
  t_limit :: u64

definition take_poll_read :: "'r reader \<Rightarrow> ('r take_reader) reader" where
  "take_poll_read rd buf t =
     (if t_limit t = 0 then (ok 0, buf, t)
      else
        (let k = min (unat (t_limit t)) (length buf)
         in case rd (take k buf) (t_inner t) of
              (Pending, b, r1) \<Rightarrow> (Pending, overlay (take k buf) b @ drop k buf, t\<lparr>t_inner := r1\<rparr>)
            | (Ready (Inl e), b, r1) \<Rightarrow> (err e, overlay (take k buf) b @ drop k buf, t\<lparr>t_inner := r1\<rparr>)
            | (Ready (Inr n), b, r1) \<Rightarrow>
                (ok n, overlay (take k buf) b @ drop k buf, t\<lparr>t_inner := r1, t_limit := t_limit t - of_nat n\<rparr>)))"

record ('a, 'b) chain_reader =
  ch_first :: 'a
  ch_second :: 'b
  ch_first_done :: bool

definition chain_second :: "'b reader \<Rightarrow> ('a, 'b) chain_reader reader" where
  "chain_second rd2 buf c = (case rd2 buf (ch_second c) of (p, b, r) \<Rightarrow> (p, overlay buf b, c\<lparr>ch_second := r\<rparr>))"

definition chain_poll_read :: "'a reader \<Rightarrow> 'b reader \<Rightarrow> ('a, 'b) chain_reader reader" where
  "chain_poll_read rd1 rd2 buf c =
     (if \<not> ch_first_done c then
        (case rd1 buf (ch_first c) of
           (p, b, r1) \<Rightarrow>
             (let c1 = c\<lparr>ch_first := r1\<rparr>; buf1 = overlay buf b
              in case p of
                   Pending \<Rightarrow> (Pending, buf1, c1)
                 | Ready (Inl e) \<Rightarrow> (err e, buf1, c1)
                 | Ready (Inr n) \<Rightarrow>
                     if n > 0 \<or> buf = [] then (ok n, buf1, c1)
                     else chain_second rd2 buf1 (c1\<lparr>ch_first_done := True\<rparr>)))
      else chain_second rd2 buf c)"

end
