(* ===== verification/Io_Read_Spec.thy ===== *)
theory Io_Read_Spec
  imports Io_Read
begin

text \<open>
  What the reads promise.  For any reader at all, memory that is not initialized is never handed out; for a
  reader that behaves, the bytes that arrive are the next ones, none lost and none twice.
\<close>

subsection \<open>Initialized memory\<close>

definition inited :: "nat \<Rightarrow> byte option list \<Rightarrow> bool" where
  "inited n m \<longleftrightarrow> n \<le> length m \<and> (\<forall>i < n. m ! i \<noteq> None)"

lemma inited_le: "inited n m \<Longrightarrow> k \<le> n \<Longrightarrow> inited k m"
  by (auto simp: inited_def)

lemma inited_0 [simp]: "inited 0 m"
  by (simp add: inited_def)

lemma inited_part:
  assumes "inited n m" and "a + k \<le> n"
  shows "bytes_of (take k (drop a m)) = Init (map the (take k (drop a m)))"
proof -
  have "None \<notin> set (take k (drop a m))"
    using assms by (auto simp: inited_def in_set_conv_nth)
  then show ?thesis by (simp add: bytes_of_def)
qed

lemmas inited_bytes = inited_part [where a = 0, simplified]

lemma store_nth:
  assumes "a + length b \<le> length m" and "i < length m"
  shows "store a b m ! i = (if a \<le> i \<and> i < a + length b then Some (b ! (i - a)) else m ! i)"
  using assms by (auto simp: store_def nth_append)

lemma inited_store:
  assumes "inited n m" and "a \<le> n" and "a + length b \<le> length m" and "k \<le> max n (a + length b)"
  shows "inited k (store a b m)"
  using assms by (auto simp: inited_def store_nth max_def split: if_splits)

lemma store_before: "a + length b \<le> length m \<Longrightarrow> k \<le> a \<Longrightarrow> take k (store a b m) = take k m"
  by (simp add: store_def)

lemma store_at: "a + length b \<le> length m \<Longrightarrow> k \<le> length b \<Longrightarrow> take k (drop a (store a b m)) = map Some (take k b)"
  by (simp add: store_def take_map)

subsection \<open>The read buffer\<close>

definition rb_ok :: "read_buf \<Rightarrow> bool" where
  "rb_ok rb \<longleftrightarrow> rb_filled rb \<le> rb_initialized rb \<and> inited (rb_initialized rb) (rb_mem rb)"

lemma rb_ok_capacity: "rb_ok rb \<Longrightarrow> rb_initialized rb \<le> rb_capacity rb"
  by (simp add: rb_ok_def inited_def rb_capacity_def)

lemma rb_new_ok: "rb_ok (rb_new buf)" and rb_uninit_ok: "rb_ok (rb_uninit m)"
  by (simp_all add: rb_ok_def rb_new_def rb_uninit_def inited_def)

lemma rb_filled_init: "rb_ok rb \<Longrightarrow> filled rb = Init (map the (take (rb_filled rb) (rb_mem rb)))"
  using inited_bytes [of "rb_initialized rb"] by (simp add: filled_def rb_ok_def)

lemma initialized_init: "rb_ok rb \<Longrightarrow> initialized rb = Init (map the (take (rb_initialized rb) (rb_mem rb)))"
  using inited_bytes [of "rb_initialized rb"] by (simp add: initialized_def rb_ok_def)

lemma rb_take_ok:
  assumes "rb_ok rb"
  shows "rb_ok (rb_take n rb)"
proof -
  define k where "k = min n (rb_remaining rb)"
  have "inited (min (rb_initialized rb - rb_filled rb) k) (take k (drop (rb_filled rb) (rb_mem rb)))"
    using assms rb_ok_capacity [OF assms]
    by (auto simp: inited_def rb_ok_def k_def rb_remaining_def rb_capacity_def)
  then show ?thesis by (simp add: rb_take_def Let_def rb_ok_def rb_uninit_def k_def)
qed

lemma initialize_ok:
  assumes ok: "rb_ok rb" and n: "n \<le> rb_remaining rb"
  shows "\<exists>dst rb1. initialize_unfilled_to n rb = Inr (Init dst, rb1) \<and> length dst = n \<and> rb_ok rb1
    \<and> rb_filled rb1 = rb_filled rb \<and> length (rb_mem rb1) = length (rb_mem rb)
    \<and> take (rb_filled rb) (rb_mem rb1) = take (rb_filled rb) (rb_mem rb) \<and> rb_filled rb + n \<le> rb_initialized rb1"
proof -
  define en where "en = rb_filled rb + n"
  have i: "inited (rb_initialized rb) (rb_mem rb)" "rb_filled rb \<le> rb_initialized rb" using ok by (auto simp: rb_ok_def)
  have e: "en \<le> length (rb_mem rb)" using n i by (auto simp: en_def rb_remaining_def rb_capacity_def inited_def)
  define rb1 where "rb1 = (if rb_initialized rb < en
    then rb\<lparr>rb_mem := store (rb_initialized rb) (replicate (en - rb_initialized rb) 0) (rb_mem rb), rb_initialized := en\<rparr> else rb)"
  have ok1: "rb_ok rb1"
    using ok i e inited_store [OF i(1) order_refl, of "replicate (en - rb_initialized rb) 0" en]
    by (auto simp: rb1_def rb_ok_def en_def)
  have r: "rb_filled rb1 = rb_filled rb" "length (rb_mem rb1) = length (rb_mem rb)" "en \<le> rb_initialized rb1"
    "take (rb_filled rb) (rb_mem rb1) = take (rb_filled rb) (rb_mem rb)"
    using i(2) e by (auto simp: rb1_def store_before)
  have "bytes_of (take n (drop (rb_filled rb1) (rb_mem rb1))) = Init (map the (take n (drop (rb_filled rb1) (rb_mem rb1))))"
    using ok1 r by (intro inited_part [of "rb_initialized rb1"]) (auto simp: rb_ok_def en_def)
  then have "initialize_unfilled_to n rb = Inr (Init (map the (take n (drop (rb_filled rb1) (rb_mem rb1)))), rb1)"
    using n unfolding initialize_unfilled_to_def Let_def en_def [symmetric] rb1_def [symmetric] by simp
  then show ?thesis using ok1 r e by (auto simp: en_def)
qed

lemma advance_ok: "rb_ok rb \<Longrightarrow> rb_advance n rb = Inr rb' \<Longrightarrow> rb_ok rb' \<and> rb' = rb\<lparr>rb_filled := rb_filled rb + n\<rparr>"
  by (auto simp: rb_advance_def set_filled_def rb_ok_def split: if_splits)

lemma put_slice_ok:
  assumes ok: "rb_ok rb" and r: "put_slice b rb = Inr rb'"
  shows "rb_ok rb' \<and> rb_filled rb' = rb_filled rb + length b
    \<and> take (rb_filled rb') (rb_mem rb') = take (rb_filled rb) (rb_mem rb) @ map Some b"
proof -
  have i: "inited (rb_initialized rb) (rb_mem rb)" "rb_filled rb \<le> rb_initialized rb" using ok by (auto simp: rb_ok_def)
  have fit: "rb_filled rb + length b \<le> length (rb_mem rb)"
    using r i by (auto simp: put_slice_def rb_remaining_def rb_capacity_def inited_def split: if_splits)
  have "inited (max (rb_initialized rb) (rb_filled rb + length b)) (store (rb_filled rb) b (rb_mem rb))"
    by (rule inited_store [OF i fit order_refl])
  then show ?thesis using r fit by (auto simp: put_slice_def Let_def rb_ok_def store_def max_def split: if_splits)
qed

text \<open>A poll into the buffer hands the reader initialized bytes only, and keeps the buffer sound.\<close>

lemma poll_read_buf_ok:
  assumes ok: "rb_ok rb" and r: "poll_read_buf rd rb r = (p, rb', r')"
  shows "p \<noteq> Uninit \<and> rb_ok rb'"
proof (cases "rb_remaining rb = 0")
  case True
  then show ?thesis using r ok by (auto simp: poll_read_buf_def)
next
  case False
  obtain dst rb1 where d: "initialize_unfilled_to (rb_remaining rb) rb = Inr (Init dst, rb1)" "length dst = rb_remaining rb"
    "rb_ok rb1" "rb_filled rb1 = rb_filled rb" "length (rb_mem rb1) = length (rb_mem rb)"
    using initialize_ok [OF ok order_refl] by blast
  obtain q b r1 where q: "rd dst r = (q, b, r1)" by (cases "rd dst r")
  define rb2 where "rb2 = rb1\<lparr>rb_mem := store (rb_filled rb1) (overlay dst b) (rb_mem rb1)\<rparr>"
  have "rb_filled rb + rb_remaining rb \<le> length (rb_mem rb)"
    using ok by (auto simp: rb_remaining_def rb_capacity_def rb_ok_def inited_def)
  then have ok2: "rb_ok rb2"
    using d inited_store [of "rb_initialized rb1" "rb_mem rb1" "rb_filled rb1" "overlay dst b" "rb_initialized rb1"]
    by (auto simp: rb2_def rb_ok_def)
  have "(case q of Pending \<Rightarrow> (Init Pending, rb2, r1) | Ready (Inl e) \<Rightarrow> (Init (err e), rb2, r1)
      | Ready (Inr n) \<Rightarrow> (case rb_advance n rb2 of Inl e \<Rightarrow> (Init (err e), rb2, r1) | Inr rb3 \<Rightarrow> (Init (ok n), rb3, r1)))
    = (p, rb', r')"
    using r False d(1) q unfolding rb2_def by (simp add: poll_read_buf_def initialize_unfilled_def Let_def)
  then show ?thesis using ok2 advance_ok [OF ok2] by (auto split: poll.splits sum.splits)
qed

subsection \<open>Filling a slice\<close>

context byte_source
begin

lemma fill_reads:
  assumes "sound r" and "done \<le> length buf" and "fill rd buf done r = (p, buf', done', r')"
  shows "sound r' \<and> length buf' = length buf \<and> done \<le> done' \<and> done' \<le> length buf \<and> left r' = drop (done' - done) (left r)
    \<and> take done' buf' = take done buf @ take (done' - done) (left r) \<and> done' - done \<le> length (left r)
    \<and> (p = ok () \<longrightarrow> done' = length buf)"
  using assms
proof (induction "length buf - done" arbitrary: buf "done" r rule: less_induct)
  case less
  show ?case
  proof (cases "done < length buf")
    case False
    then show ?thesis using less.prems by (auto simp: fill.simps)
  next
    case True
    obtain q b r1 where q: "rd (drop done buf) r = (q, b, r1)" by (cases "rd (drop done buf) r")
    define buf1 where "buf1 = take done buf @ overlay (drop done buf) b"
    have b1: "length buf1 = length buf" "take done buf1 = take done buf" using less.prems(2) by (auto simp: buf1_def)
    show ?thesis
    proof (cases q rule: io_cases)
      case Wait
      then have "p = Pending" "buf' = buf1" "done' = done" "r' = r1"
        using less.prems(3) q True by (auto simp: fill.simps buf1_def Let_def)
      then show ?thesis using read_wait [OF less.prems(1) q [unfolded Wait]] b1 less.prems(2) by auto
    next
      case (Err e)
      then have "p = err e" "buf' = buf1" "done' = done" "r' = r1"
        using less.prems(3) q True by (auto simp: fill.simps buf1_def Let_def)
      then show ?thesis using read_err [OF less.prems(1) q [unfolded Err]] b1 less.prems(2) by auto
    next
      case (Ok n)
      note law = read_ok [OF less.prems(1) q [unfolded Ok]]
      show ?thesis
      proof (cases "n = 0")
        case True
        then have "p = err Unexpected_eof" "buf' = buf1" "done' = done" "r' = r1"
          using less.prems(3) q Ok \<open>done < length buf\<close> by (auto simp: fill.simps buf1_def Let_def)
        then show ?thesis using law b1 less.prems(2) True by auto
      next
        case False
        have step: "fill rd buf1 (done + n) r1 = (p, buf', done', r')"
          using less.prems(3) q Ok True False by (subst (asm) fill.simps) (simp add: buf1_def Let_def)
        have d: "done + n \<le> length buf1" using law b1 True by auto
        have IH: "sound r' \<and> length buf' = length buf1 \<and> done + n \<le> done' \<and> done' \<le> length buf1
            \<and> left r' = drop (done' - (done + n)) (left r1)
            \<and> take done' buf' = take (done + n) buf1 @ take (done' - (done + n)) (left r1)
            \<and> done' - (done + n) \<le> length (left r1) \<and> (p = ok () \<longrightarrow> done' = length buf1)"
          using less.hyps [OF _ _ d step] True False b1 law by auto
        define m where "m = done' - (done + n)"
        have m: "done' - done = n + m" using IH by (simp add: m_def)
        have "take (done + n) buf1 = take done buf @ take n (left r)"
          using law less.prems(2) True by (simp add: buf1_def min_def)
        then have "take done' buf' = take done buf @ take (n + m) (left r)"
          using IH law by (simp add: m_def [symmetric] take_add)
        then show ?thesis using IH law b1 m by (auto simp: m_def [symmetric] add.commute)
      qed
    qed
  qed
qed

text \<open>An end of the stream that comes first is reported when the reader has nothing left.\<close>

lemma fill_eof:
  assumes "sound r" and "done \<le> length buf" and "fill rd buf done r = (err Unexpected_eof, buf', done', r')"
    and "\<And>buf r b r'. sound r \<Longrightarrow> rd buf r \<noteq> (err Unexpected_eof, b, r')"
  shows "left r' = []"
  using assms(1-3)
proof (induction "length buf - done" arbitrary: buf "done" r rule: less_induct)
  case less
  obtain q b r1 where q: "rd (drop done buf) r = (q, b, r1)" by (cases "rd (drop done buf) r")
  have "done < length buf" using less.prems(3) by (auto simp: fill.simps split: if_splits)
  then obtain n where n: "q = ok n"
    using less.prems(3) q assms(4) [OF less.prems(1)] by (cases q rule: io_cases) (auto simp: fill.simps Let_def)
  note law = read_ok [OF less.prems(1) q [unfolded n]]
  show ?case
  proof (cases "n = 0")
    case True
    then show ?thesis using less.prems(3) q n \<open>done < length buf\<close> law by (auto simp: fill.simps Let_def)
  next
    case False
    have "fill rd (take done buf @ overlay (drop done buf) b) (done + n) r1 = (err Unexpected_eof, buf', done', r')"
      using less.prems(3) q n \<open>done < length buf\<close> False by (subst (asm) fill.simps) (simp add: Let_def)
    from less.hyps [OF _ _ _ this] show ?thesis using False \<open>done < length buf\<close> law by auto
  qed
qed

end

subsection \<open>Reading to the end\<close>

text \<open>What is in use and what was zeroed is initialized.\<close>

definition vec_ok :: "vec \<Rightarrow> nat \<Rightarrow> bool" where
  "vec_ok v zeroed \<longleftrightarrow> inited (v_len v + zeroed) (v_mem v)"

lemma vec_ok_len: "vec_ok v z \<Longrightarrow> v_len v + z \<le> v_cap v"
  by (simp add: vec_ok_def inited_def)

lemma vec_ok_bytes: "vec_ok v z \<Longrightarrow> vec_bytes v = Init (map the (take (v_len v) (v_mem v)))"
  unfolding vec_ok_def vec_bytes_def by (rule inited_bytes) auto

text \<open>An allocator gives at least what is asked for.\<close>

definition grows :: "(nat \<Rightarrow> nat \<Rightarrow> nat) \<Rightarrow> bool" where
  "grows grow \<longleftrightarrow> (\<forall>c n. n \<le> grow c n)"

lemma vec_reserve_ok:
  assumes "vec_ok v z" and "grows grow" and "extra \<ge> 1"
  defines "v' \<equiv> vec_reserve grow extra v"
  shows "vec_ok v' (if v_cap v' \<noteq> v_cap v then 0 else z)" and "v_len v' = v_len v"
    and "take (v_len v) (v_mem v') = take (v_len v) (v_mem v)" and "v_len v + extra \<le> v_cap v'"
proof -
  have len: "v_len v + z \<le> v_cap v" by (rule vec_ok_len [OF assms(1)])
  have g: "v_len v + extra \<le> grow (v_cap v) (v_len v + extra)" using assms(2) by (simp add: grows_def)
  have "vec_ok v' (if v_cap v' \<noteq> v_cap v then 0 else z) \<and> v_len v' = v_len v
    \<and> take (v_len v) (v_mem v') = take (v_len v) (v_mem v) \<and> v_len v + extra \<le> v_cap v'"
  proof (cases "extra \<le> v_cap v - v_len v")
    case True
    then show ?thesis using assms(1,3) len by (auto simp: v'_def vec_reserve_def)
  next
    case False
    then have v': "v' = v\<lparr>v_mem := take (v_len v) (v_mem v) @ replicate (grow (v_cap v) (v_len v + extra) - v_len v) None\<rparr>"
      by (simp add: v'_def vec_reserve_def)
    then have "v_cap v' \<noteq> v_cap v" "v_len v + extra \<le> v_cap v'" using False len g by auto
    moreover have "inited (v_len v) (v_mem v')"
      using assms(1) len by (auto simp: v' vec_ok_def inited_def nth_append)
    ultimately show ?thesis using len by (auto simp: v' vec_ok_def)
  qed
  then show "vec_ok v' (if v_cap v' \<noteq> v_cap v then 0 else z)" "v_len v' = v_len v"
    "take (v_len v) (v_mem v') = take (v_len v) (v_mem v)" "v_len v + extra \<le> v_cap v'" by auto
qed

lemma make_room_ok:
  assumes ok: "vec_ok v z" and grow: "grows grow" and r: "make_room grow v z = (v1, z1, room)"
  shows "vec_ok v1 z1 \<and> room \<le> z1 \<and> 0 < room \<and> v_len v1 = v_len v \<and> take (v_len v) (v_mem v1) = take (v_len v) (v_mem v)"
proof -
  define p where "p = (if v_cap v - v_len v < MIN_READ then
    (let v' = vec_reserve grow (max MIN_READ (min (v_len v) MAX_READ)) v in (v', if v_cap v' \<noteq> v_cap v then 0 else z)) else (v, z))"
  obtain v2 z2 where v2: "p = (v2, z2)" by fastforce
  have 2: "vec_ok v2 z2 \<and> v_len v2 = v_len v \<and> take (v_len v) (v_mem v2) = take (v_len v) (v_mem v) \<and> v_len v + MIN_READ \<le> v_cap v2"
  proof (cases "v_cap v - v_len v < MIN_READ")
    case True
    define x where "x = max MIN_READ (min (v_len v) MAX_READ)"
    have x: "1 \<le> x" "MIN_READ \<le> x" by (simp_all add: x_def MIN_READ_def)
    have "v2 = vec_reserve grow x v" "z2 = (if v_cap (vec_reserve grow x v) \<noteq> v_cap v then 0 else z)"
      using v2 True by (auto simp: p_def Let_def x_def)
    then show ?thesis using vec_reserve_ok [OF ok grow x(1)] x(2) by simp
  next
    case False
    then show ?thesis using v2 ok vec_ok_len [OF ok] by (auto simp: p_def)
  qed
  define rm where "rm = min (v_cap v2 - v_len v2) MAX_READ"
  have rm: "0 < rm" "v_len v2 + rm \<le> v_cap v2" using 2 by (auto simp: rm_def MIN_READ_def MAX_READ_def)
  have eq: "(if z2 < rm then (v2\<lparr>v_mem := store (v_len v2 + z2) (replicate (rm - z2) 0) (v_mem v2)\<rparr>, rm, rm) else (v2, z2, rm))
      = (v1, z1, room)"
    using r unfolding make_room_def p_def [symmetric] v2 by (simp only: Let_def prod.case rm_def)
  show ?thesis
  proof (cases "z2 < rm")
    case True
    have "inited (v_len v2 + rm) (store (v_len v2 + z2) (replicate (rm - z2) 0) (v_mem v2))"
      using 2 rm True by (intro inited_store) (auto simp: vec_ok_def)
    then show ?thesis using eq True 2 rm by (auto simp: vec_ok_def store_before)
  qed (use eq 2 rm in auto)
qed

lemmas read_to_end_induct = read_to_end.raw_induct [rotated, consumes 1, case_names step]

text \<open>For any reader: no uninitialized byte is handed out, and what the vector ends up with is initialized.\<close>

definition end_ok :: "vec \<Rightarrow> unit io mem \<times> vec \<times> nat \<times> 'r \<Rightarrow> bool" where
  "end_ok v res \<longleftrightarrow> (case res of (p, v', z', r') \<Rightarrow>
     p \<noteq> Uninit \<and> vec_ok v' z' \<and> v_len v \<le> v_len v' \<and> take (v_len v) (v_mem v') = take (v_len v) (v_mem v))"

lemma read_to_end_ok:
  assumes "read_to_end grow rd v z r = Some res" and "grows grow" and "vec_ok v z"
  shows "end_ok v res"
  using assms
proof (induction grow rd v z r res rule: read_to_end_induct)
  case (step rec grow rd v z r res)
  obtain v1 z1 room where m: "make_room grow v z = (v1, z1, room)" by (cases "make_room grow v z")
  note mk = make_room_ok [OF step.prems(2) step.prems(1) m]
  define dst where "dst = map the (take room (drop (v_len v1) (v_mem v1)))"
  have dst: "bytes_of (take room (drop (v_len v1) (v_mem v1))) = Init dst" unfolding dst_def
    using mk by (intro inited_part [of "v_len v1 + z1"]) (auto simp: vec_ok_def)
  have len: "length dst = room" "v_len v1 + z1 \<le> v_cap v1" using mk vec_ok_len [of v1 z1] by (auto simp: dst_def)
  obtain q b r1 where q: "rd dst r = (q, b, r1)" by (cases "rd dst r")
  define v2 where "v2 = v1\<lparr>v_mem := store (v_len v1) (overlay dst b) (v_mem v1)\<rparr>"
  have ok2: "vec_ok v2 z1" using mk len by (auto simp: v2_def vec_ok_def intro!: inited_store [of "v_len v1 + z1"])
  have same: "take (v_len v) (v_mem v2) = take (v_len v) (v_mem v)" "v_len v2 = v_len v"
    using mk len by (auto simp: v2_def store_before)
  have eq: "(case q of Pending \<Rightarrow> Some (Init Pending, v2, z1, r1) | Ready res \<Rightarrow> (case res of
      Inl e \<Rightarrow> Some (Init (err e), v2, z1, r1)
    | Inr n \<Rightarrow> if n = 0 then Some (Init (ok ()), v2, z1, r1) else if n > room then Some (Init (err Invalid_data), v2, z1, r1)
        else rec grow rd (v2\<lparr>v_len := v_len v2 + n\<rparr>) (z1 - n) r1)) = Some res"
    using step.hyps unfolding m v2_def by (simp add: dst q Let_def)
  show ?case
  proof (cases "\<exists>n. q = ok n \<and> n \<noteq> 0 \<and> n \<le> room")
    case False
    then show ?thesis using eq ok2 same by (auto simp: end_ok_def split: poll.splits sum.splits if_splits)
  next
    case True
    then obtain n where n: "q = ok n" "n \<noteq> 0" "n \<le> room" by blast
    have rec: "rec grow rd (v2\<lparr>v_len := v_len v2 + n\<rparr>) (z1 - n) r1 = Some res" using eq n by simp
    have "vec_ok (v2\<lparr>v_len := v_len v2 + n\<rparr>) (z1 - n)" using ok2 n mk by (auto simp: vec_ok_def)
    from step.IH [OF rec step.prems(1) this] have IH: "end_ok (v2\<lparr>v_len := v_len v2 + n\<rparr>) res" .
    obtain p v' z' r' where res: "res = (p, v', z', r')" by (cases res)
    have "take (v_len v) (v_mem v') = take (v_len v) (take (v_len v2 + n) (v_mem v'))" using same by simp
    also have "\<dots> = take (v_len v) (v_mem v)" using IH same by (simp add: res end_ok_def)
    finally show ?thesis using IH same by (auto simp: res end_ok_def)
  qed
qed

text \<open>One round of the loop, up to what the reader says.\<close>

lemma read_to_end_round:
  assumes "vec_ok v z" and "grows grow"
  obtains dst v1 z1 where "dst \<noteq> []" and "v_len v1 = v_len v" and "length dst \<le> z1" and "vec_ok v1 z1"
    and "take (v_len v) (v_mem v1) = take (v_len v) (v_mem v)"
    and "read_to_end grow rd v z r = (case rd dst r of (p, b, r1) \<Rightarrow>
      (let v2 = v1\<lparr>v_mem := store (v_len v1) (overlay dst b) (v_mem v1)\<rparr>
       in case p of Pending \<Rightarrow> Some (Init Pending, v2, z1, r1)
          | Ready (Inl e) \<Rightarrow> Some (Init (err e), v2, z1, r1)
          | Ready (Inr n) \<Rightarrow> if n = 0 then Some (Init (ok ()), v2, z1, r1)
              else if n > length dst then Some (Init (err Invalid_data), v2, z1, r1)
              else read_to_end grow rd (v2\<lparr>v_len := v_len v2 + n\<rparr>) (z1 - n) r1))"
proof -
  obtain v1 z1 room where m: "make_room grow v z = (v1, z1, room)" by (cases "make_room grow v z")
  note mk = make_room_ok [OF assms m]
  define dst where "dst = map the (take room (drop (v_len v1) (v_mem v1)))"
  have dst: "bytes_of (take room (drop (v_len v1) (v_mem v1))) = Init dst" unfolding dst_def
    using mk by (intro inited_part [of "v_len v1 + z1"]) (auto simp: vec_ok_def)
  have len: "length dst = room" using mk vec_ok_len [of v1 z1] by (auto simp: dst_def)
  show thesis
  proof (rule that [of dst v1 z1])
    show "dst \<noteq> []" "v_len v1 = v_len v" "length dst \<le> z1" "vec_ok v1 z1"
      "take (v_len v) (v_mem v1) = take (v_len v) (v_mem v)" using mk len by auto
  qed (subst read_to_end.simps, simp only: m dst len prod.case mem.case)
qed

context byte_source
begin

lemma read_to_end_reads:
  assumes "sound r" and "grows grow" and "vec_ok v z"
  shows "\<exists>p v' z' r' k. read_to_end grow rd v z r = Some (Init p, v', z', r') \<and> k \<le> length (left r) \<and> sound r'
    \<and> v_len v' = v_len v + k \<and> take (v_len v') (v_mem v') = take (v_len v) (v_mem v) @ map Some (take k (left r))
    \<and> left r' = drop k (left r) \<and> (p = ok () \<longrightarrow> left r' = [])"
  using assms(1,3)
proof (induction "length (left r)" arbitrary: v z r rule: less_induct)
  case less
  obtain dst v1 z1 where d: "dst \<noteq> []" "v_len v1 = v_len v" "length dst \<le> z1" "vec_ok v1 z1"
      "take (v_len v) (v_mem v1) = take (v_len v) (v_mem v)"
    and eq: "read_to_end grow rd v z r = (case rd dst r of (p, b, r1) \<Rightarrow>
      (let v2 = v1\<lparr>v_mem := store (v_len v1) (overlay dst b) (v_mem v1)\<rparr>
       in case p of Pending \<Rightarrow> Some (Init Pending, v2, z1, r1)
          | Ready (Inl e) \<Rightarrow> Some (Init (err e), v2, z1, r1)
          | Ready (Inr n) \<Rightarrow> if n = 0 then Some (Init (ok ()), v2, z1, r1)
              else if n > length dst then Some (Init (err Invalid_data), v2, z1, r1)
              else read_to_end grow rd (v2\<lparr>v_len := v_len v2 + n\<rparr>) (z1 - n) r1))"
    by (rule read_to_end_round [OF less.prems(2) assms(2)])
  obtain q b r1 where q: "rd dst r = (q, b, r1)" by (cases "rd dst r")
  define v2 where "v2 = v1\<lparr>v_mem := store (v_len v1) (overlay dst b) (v_mem v1)\<rparr>"
  have cap: "v_len v1 + z1 \<le> v_cap v1" by (rule vec_ok_len [OF d(4)])
  have ok2: "vec_ok v2 z1" using d cap by (auto simp: v2_def vec_ok_def intro!: inited_store [of "v_len v1 + z1"])
  have v2: "v_len v2 = v_len v" "take (v_len v) (v_mem v2) = take (v_len v) (v_mem v)"
    "\<And>n. n \<le> length dst \<Longrightarrow> take n (drop (v_len v) (v_mem v2)) = map Some (take n (overlay dst b))"
    using d cap by (auto simp: v2_def store_before store_at)
  note eq' = eq [unfolded q, simplified, folded v2_def]
  show ?case
  proof (cases q rule: io_cases)
    case Wait
    then show ?thesis using eq' v2 read_wait [OF less.prems(1) q [unfolded Wait]] by
      (intro exI [of _ Pending] exI [of _ v2] exI [of _ z1] exI [of _ r1] exI [of _ 0]) auto
  next
    case (Err e)
    then show ?thesis using eq' v2 read_err [OF less.prems(1) q [unfolded Err]] by
      (intro exI [of _ "err e"] exI [of _ v2] exI [of _ z1] exI [of _ r1] exI [of _ 0]) auto
  next
    case (Ok n)
    note law = read_ok [OF less.prems(1) q [unfolded Ok]]
    show ?thesis
    proof (cases "n = 0")
      case True
      then show ?thesis using eq' Ok v2 law d(1)
        by (intro exI [of _ "ok ()"] exI [of _ v2] exI [of _ z1] exI [of _ r1] exI [of _ 0]) auto
    next
      case False
      define v3 where "v3 = v2\<lparr>v_len := v_len v2 + n\<rparr>"
      have "read_to_end grow rd v z r = read_to_end grow rd v3 (z1 - n) r1" using eq' Ok False law by (simp add: v3_def Let_def)
      moreover have "vec_ok v3 (z1 - n)" using ok2 law d(3) by (auto simp: v3_def vec_ok_def)
      moreover have "length (left r1) < length (left r)" using law False by auto
      ultimately obtain p v' z' r' k where k: "read_to_end grow rd v z r = Some (Init p, v', z', r')" "k \<le> length (left r1)"
        "sound r'" "v_len v' = v_len v3 + k" "left r' = drop k (left r1)" "p = ok () \<longrightarrow> left r' = []"
        "take (v_len v') (v_mem v') = take (v_len v3) (v_mem v3) @ map Some (take k (left r1))"
        using less.hyps [of r1 v3 "z1 - n"] law by metis
      have "take (v_len v3) (v_mem v3) = take (v_len v) (v_mem v) @ map Some (take n (left r))"
        using v2 law by (simp add: v3_def take_add)
      then have "take (v_len v') (v_mem v') = take (v_len v) (v_mem v) @ map Some (take (n + k) (left r))"
        using k law by (simp add: take_add)
      then show ?thesis using k law v2(1)
        by (intro exI [of _ p] exI [of _ v'] exI [of _ z'] exI [of _ r'] exI [of _ "n + k"]) (auto simp: v3_def add.commute)
    qed
  qed
qed

end

subsection \<open>Numbers\<close>





subsection \<open>Readers made of readers\<close>

definition take_left :: "('r \<Rightarrow> byte list) \<Rightarrow> 'r take_reader \<Rightarrow> byte list" where
  "take_left left t = take (unat (t_limit t)) (left (t_inner t))"

lemma unat_minus:
  assumes "n \<le> unat (x :: u64)"
  shows "unat (x - of_nat n) = unat x - n"
proof -
  have "unat x < 2 ^ 64" using unsigned_less [of x, where 'a = nat] by simp
  then have n: "unat (of_nat n :: u64) = n" using assms by (simp add: unat_of_nat take_bit_nat_eq_self)
  then have "of_nat n \<le> x" using assms by (simp add: word_le_nat_alt)
  then show ?thesis by (simp add: unat_sub n)
qed

context byte_source
begin

lemma take_source: "byte_source (take_poll_read rd) (take_left left) (\<lambda>t. sound (t_inner t))"
proof
  fix t buf n b t'
  assume s: "sound (t_inner t)" and r: "take_poll_read rd buf t = (ok n, b, t')"
  show "n \<le> length buf \<and> n \<le> length (take_left left t) \<and> take n (overlay buf b) = take n (take_left left t)
    \<and> take_left left t' = drop n (take_left left t) \<and> sound (t_inner t') \<and> (n = 0 \<longrightarrow> buf = [] \<or> take_left left t = [])"
  proof (cases "t_limit t = 0")
    case True
    then show ?thesis using r s by (auto simp: take_poll_read_def take_left_def)
  next
    case False
    define k where "k = min (unat (t_limit t)) (length buf)"
    obtain b1 r1 where q: "rd (take k buf) (t_inner t) = (ok n, b1, r1)" and b: "b = overlay (take k buf) b1 @ drop k buf"
      and t': "t' = t\<lparr>t_inner := r1, t_limit := t_limit t - of_nat n\<rparr>"
      using r False by (auto simp: take_poll_read_def Let_def k_def split: prod.splits poll.splits sum.splits)
    note law = read_ok [OF s q]
    have n: "n \<le> k" "n \<le> unat (t_limit t)" using law by (auto simp: k_def)
    have "length b = length buf" by (simp add: b k_def)
    then have "take n (overlay buf b) = take n (overlay (take k buf) b1)" using n by (simp add: b k_def)
    moreover have "n \<le> length buf" using n(1) by (simp add: k_def)
    moreover have "k = 0 \<longleftrightarrow> buf = []" using False by (auto simp: k_def unat_eq_0 min_def split: if_splits)
    ultimately show ?thesis
      using law n unat_minus [OF n(2)] by (auto simp: take_left_def t' drop_take min_absorb1)
  qed
next
  fix t buf b t'
  assume s: "sound (t_inner t)" and r: "take_poll_read rd buf t = (Pending, b, t')"
  then obtain b1 r1 where q: "rd (take (min (unat (t_limit t)) (length buf)) buf) (t_inner t) = (Pending, b1, r1)"
    and t': "t' = t\<lparr>t_inner := r1\<rparr>"
    by (auto simp: take_poll_read_def Let_def split: if_splits prod.splits poll.splits sum.splits)
  show "take_left left t' = take_left left t \<and> sound (t_inner t')" using read_wait [OF s q] by (simp add: t' take_left_def)
next
  fix t buf e b t'
  assume s: "sound (t_inner t)" and r: "take_poll_read rd buf t = (err e, b, t')"
  then obtain b1 r1 where q: "rd (take (min (unat (t_limit t)) (length buf)) buf) (t_inner t) = (err e, b1, r1)"
    and t': "t' = t\<lparr>t_inner := r1\<rparr>"
    by (auto simp: take_poll_read_def Let_def split: if_splits prod.splits poll.splits sum.splits)
  show "take_left left t' = take_left left t \<and> sound (t_inner t') \<and> e \<noteq> Panicked"
    using read_err [OF s q] by (simp add: t' take_left_def)
qed

end

definition chain_left :: "('a \<Rightarrow> byte list) \<Rightarrow> ('b \<Rightarrow> byte list) \<Rightarrow> ('a, 'b) chain_reader \<Rightarrow> byte list" where
  "chain_left left1 left2 c = (if ch_first_done c then [] else left1 (ch_first c)) @ left2 (ch_second c)"

locale two_sources = one: byte_source rd1 left1 sound1 + two: byte_source rd2 left2 sound2
  for rd1 :: "'a reader" and left1 sound1 and rd2 :: "'b reader" and left2 sound2
begin

abbreviation "chain_sound \<equiv> (\<lambda>c. sound1 (ch_first c) \<and> sound2 (ch_second c))"

lemma second_cases:
  assumes s: "chain_sound c" and f: "ch_first_done c \<or> left1 (ch_first c) = []" and r: "chain_second rd2 buf c = (p, b, c')"
    and len: "length buf' = length buf"
  shows "chain_sound c' \<and> ch_first c' = ch_first c \<and> ch_first_done c' = ch_first_done c"
    and "p = ok n \<Longrightarrow> n \<le> length buf \<and> n \<le> length (chain_left left1 left2 c) \<and> take n (overlay buf' b) = take n (chain_left left1 left2 c)
      \<and> chain_left left1 left2 c' = drop n (chain_left left1 left2 c) \<and> (n = 0 \<longrightarrow> buf = [] \<or> chain_left left1 left2 c = [])"
    and "p = Pending \<or> p = err e \<Longrightarrow> chain_left left1 left2 c' = chain_left left1 left2 c \<and> p \<noteq> err Panicked"
proof -
  obtain b2 r2 where q: "rd2 buf (ch_second c) = (p, b2, r2)" and b: "b = overlay buf b2" and c': "c' = c\<lparr>ch_second := r2\<rparr>"
    using r by (auto simp: chain_second_def split: prod.splits)
  have cl: "chain_left left1 left2 c = left2 (ch_second c)" "chain_left left1 left2 c' = left2 r2"
    using f by (auto simp: chain_left_def c')
  have s2: "sound2 (ch_second c)" using s by simp
  show "chain_sound c' \<and> ch_first c' = ch_first c \<and> ch_first_done c' = ch_first_done c"
    using s two.read_wait [OF s2] two.read_err [OF s2] two.read_ok [OF s2] q by (cases p rule: io_cases) (auto simp: c')
  show "p = ok n \<Longrightarrow> n \<le> length buf \<and> n \<le> length (chain_left left1 left2 c) \<and> take n (overlay buf' b) = take n (chain_left left1 left2 c)
      \<and> chain_left left1 left2 c' = drop n (chain_left left1 left2 c) \<and> (n = 0 \<longrightarrow> buf = [] \<or> chain_left left1 left2 c = [])"
    using two.read_ok [OF s2, of buf n b2 r2] q len unfolding cl by (simp add: b)
  show "p = Pending \<or> p = err e \<Longrightarrow> chain_left left1 left2 c' = chain_left left1 left2 c \<and> p \<noteq> err Panicked"
    using two.read_wait [OF s2, of buf b2 r2] two.read_err [OF s2, of buf e b2 r2] q unfolding cl by auto
qed

lemma first_cases:
  assumes s: "chain_sound c" and f: "\<not> ch_first_done c" and r: "chain_poll_read rd1 rd2 buf c = (p, b, c')"
  obtains (first) b1 r1 where "rd1 buf (ch_first c) = (p, b1, r1)" "b = overlay buf b1" "c' = c\<lparr>ch_first := r1\<rparr>"
      "p = ok 0 \<Longrightarrow> buf = []"
  | (second) b1 r1 where "rd1 buf (ch_first c) = (ok 0, b1, r1)" "buf \<noteq> []" "left1 (ch_first c) = []"
      "chain_second rd2 (overlay buf b1) (c\<lparr>ch_first := r1, ch_first_done := True\<rparr>) = (p, b, c')"
proof -
  obtain q b1 r1 where q: "rd1 buf (ch_first c) = (q, b1, r1)" by (cases "rd1 buf (ch_first c)")
  show thesis
  proof (cases "q = ok 0 \<and> buf \<noteq> []")
    case True
    then show thesis using second q r f one.read_ok [of "ch_first c" buf 0 b1 r1] s by (auto simp: chain_poll_read_def Let_def)
  next
    case False
    then show thesis using first [of b1 r1] q r f
      by (cases q rule: io_cases) (auto simp: chain_poll_read_def Let_def split: if_splits)
  qed
qed

lemma chain_source: "byte_source (chain_poll_read rd1 rd2) (chain_left left1 left2) chain_sound"
proof
  fix c buf n b c'
  assume s: "chain_sound c" and r: "chain_poll_read rd1 rd2 buf c = (ok n, b, c')"
  show "n \<le> length buf \<and> n \<le> length (chain_left left1 left2 c) \<and> take n (overlay buf b) = take n (chain_left left1 left2 c)
    \<and> chain_left left1 left2 c' = drop n (chain_left left1 left2 c) \<and> chain_sound c' \<and> (n = 0 \<longrightarrow> buf = [] \<or> chain_left left1 left2 c = [])"
  proof (cases "ch_first_done c")
    case True
    then show ?thesis using second_cases [OF s _ _ refl, of buf "ok n" b c'] r s by (auto simp: chain_poll_read_def)
  next
    case False
    from s False r show ?thesis
    proof (cases rule: first_cases)
      case (first b1 r1)
      then show ?thesis using one.read_ok [OF _ first(1)] s False by (auto simp: chain_left_def)
    next
      case (second b1 r1)
      define c1 where "c1 = c\<lparr>ch_first := r1, ch_first_done := True\<rparr>"
      have "sound1 r1" using one.read_ok [OF _ second(1)] s by simp
      then have c1: "chain_sound c1" "chain_left left1 left2 c1 = chain_left left1 left2 c" "ch_first_done c1 \<or> left1 (ch_first c1) = []"
        using s second(3) by (auto simp: c1_def chain_left_def)
      have len: "length buf = length (overlay buf b1)" by simp
      from second_cases [OF c1(1,3) second(4) [folded c1_def] len] show ?thesis using c1(2) by auto
    qed
  qed
next
  have not_ok: "chain_left left1 left2 c' = chain_left left1 left2 c \<and> chain_sound c' \<and> p \<noteq> err Panicked"
    if s: "chain_sound c" and r: "chain_poll_read rd1 rd2 buf c = (p, b, c')" and p: "\<And>n. p \<noteq> ok n" for c buf p b c'
  proof -
    obtain e where e: "p = Pending \<or> p = err e" using p by (cases p rule: io_cases) auto
    show ?thesis
    proof (cases "ch_first_done c")
      case True
      then show ?thesis using second_cases [OF s _ _ refl, of buf p b c'] r e s by (auto simp: chain_poll_read_def)
    next
      case False
      from s False r show ?thesis
      proof (cases rule: first_cases)
        case (first b1 r1)
        then show ?thesis
          using one.read_wait [of "ch_first c" buf b1 r1] one.read_err [of "ch_first c" buf e b1 r1] s e False
          by (auto simp: chain_left_def)
      next
        case (second b1 r1)
        define c1 where "c1 = c\<lparr>ch_first := r1, ch_first_done := True\<rparr>"
        have "sound1 r1" using one.read_ok [OF _ second(1)] s by simp
        then have c1: "chain_sound c1" "chain_left left1 left2 c1 = chain_left left1 left2 c" "ch_first_done c1 \<or> left1 (ch_first c1) = []"
          using s second(3) by (auto simp: c1_def chain_left_def)
        have len: "length buf = length (overlay buf b1)" by simp
        from second_cases [OF c1(1,3) second(4) [folded c1_def] len] show ?thesis using c1(2) e by auto
      qed
    qed
  qed
  fix c :: "('a, 'b) chain_reader" and buf b c'
  assume s: "chain_sound c"
  show "chain_left left1 left2 c' = chain_left left1 left2 c \<and> chain_sound c'" if "chain_poll_read rd1 rd2 buf c = (Pending, b, c')"
    using not_ok [OF s that] by simp
  fix e
  show "chain_left left1 left2 c' = chain_left left1 left2 c \<and> chain_sound c' \<and> e \<noteq> Panicked"
    if "chain_poll_read rd1 rd2 buf c = (err e, b, c')"
    using not_ok [OF s that] by simp
qed

end

subsection \<open>Properties\<close>

text \<open>A reader over bytes in memory, for the examples.\<close>

definition slice_read :: "byte list reader" where
  "slice_read buf r = (let n = min (length buf) (length r) in (ok n, take n r, drop n r))"

lemma slice_source: "byte_source slice_read (\<lambda>r. r) (\<lambda>_. True)"
  by unfold_locales (auto simp: slice_read_def Let_def overlay_def min_def)

text \<open>C19: The read buffer is sound for any reader, whatever the reader answers and writes.  A poll into a sound
  buffer never hands out memory that is not initialized, and leaves a sound buffer, whose filled and
  initialized parts are initialized; a reader that counts too far is caught.\<close>

theorem read_buf_sound:
  assumes "rb_ok rb" and "poll_read_buf rd rb r = (p, rb', r')"
  shows "p \<noteq> Uninit \<and> rb_ok rb' \<and> filled rb' \<noteq> Uninit \<and> initialized rb' \<noteq> Uninit
    \<and> rb_filled rb' \<le> rb_initialized rb' \<and> rb_initialized rb' \<le> rb_capacity rb'"
  using poll_read_buf_ok [OF assms] rb_filled_init [of rb'] initialized_init [of rb'] rb_ok_capacity [of rb']
  by (auto simp: rb_ok_def)

theorem read_buf_sound_witness:
  "rb_ok (rb_uninit [None, None]) \<and> (\<exists>p rb' r'. poll_read_buf slice_read (rb_uninit [None, None]) [7] = (p, rb', r')
     \<and> p \<noteq> Uninit \<and> filled rb' \<noteq> Uninit)"
proof -
  obtain p rb' r' where r: "poll_read_buf slice_read (rb_uninit [None, None]) [7] = (p, rb', r')"
    by (cases "poll_read_buf slice_read (rb_uninit [None, None]) [7]")
  from read_buf_sound [OF rb_uninit_ok r] show ?thesis using rb_uninit_ok r by blast
qed

text \<open>C12: Reading to the end reads all of it.  For a reader that behaves and an allocator that gives at least
  what is asked, a poll of the read returns; it has appended to the vector exactly the bytes it took from
  the reader, in order; no uninitialized byte was handed out; and if it answers that it is done, the
  reader has nothing left.\<close>

theorem read_to_end_complete:
  assumes "byte_source rd left sound" and "sound r" and "grows grow" and "vec_ok v z"
  shows "\<exists>p v' z' r' k. read_to_end grow rd v z r = Some (Init p, v', z', r') \<and> k \<le> length (left r)
    \<and> v_len v' = v_len v + k \<and> take (v_len v') (v_mem v') = take (v_len v) (v_mem v) @ map Some (take k (left r))
    \<and> left r' = drop k (left r) \<and> (p = ok () \<longrightarrow> left r' = [])"
  using byte_source.read_to_end_reads [OF assms] by blast

theorem read_to_end_complete_witness:
  "\<exists>p v' z' r' k. read_to_end (\<lambda>c n. n) slice_read (vec_of [] 0) 0 [1, 2, 3] = Some (Init p, v', z', r')
     \<and> k \<le> 3 \<and> v_len v' = k \<and> take (v_len v') (v_mem v') = map Some (take k [1, 2, 3])"
proof -
  have g: "grows (\<lambda>c n. n)" by (simp add: grows_def)
  have v: "vec_ok (vec_of [] 0) 0" by (simp add: vec_ok_def vec_of_def)
  show ?thesis
    using read_to_end_complete [OF slice_source _ g v, of "[1, 2, 3]"] by (auto simp: vec_of_def)
qed



end
