(* ===== verification/Io_Pipe.thy ===== *)
theory Io_Pipe
  imports Io_Read_Spec
begin

text \<open>
  In-memory pipes, \<open>src/src/io/util/duplex.rs\<close>.  The two sides of a pipe run on threads of their own, so
  the polls are cut at their accesses of the shared state: a side is a program counter with its locals,
  \<open>reader_step\<close> and \<open>writer_step\<close> make one access, a poll run with nobody else is the iteration of the step,
  and the pipe with both sides is the relation \<open>pipe_step\<close>, which takes a step of either.  Accesses are
  sequentially consistent; \<open>register\<close> and \<open>wake\<close> of a waker slot are one access each, which is what the
  slot promises.  The counts are unbounded: a pipe does not carry \<open>2^64\<close> bytes.
\<close>

subsection \<open>The pipe\<close>

record 'w pipe =
  ring :: "byte list"
  p_written :: nat
  p_read :: nat
  p_reader :: "'w option"
  p_writer :: "'w option"
  write_closed :: bool
  read_closed :: bool
  p_woken :: "'w list"

text \<open>The last field is the log of the wakers called, in order.\<close>

definition pipe_new :: "nat \<Rightarrow> 'w pipe" where
  "pipe_new capacity =
     \<lparr>ring = replicate (max capacity 1) 0, p_written = 0, p_read = 0, p_reader = None, p_writer = None,
      write_closed = False, read_closed = False, p_woken = []\<rparr>"

definition wake_reader :: "'w pipe \<Rightarrow> 'w pipe" where
  "wake_reader p = p\<lparr>p_reader := None, p_woken := p_woken p @ (case p_reader p of None \<Rightarrow> [] | Some w \<Rightarrow> [w])\<rparr>"

definition wake_writer :: "'w pipe \<Rightarrow> 'w pipe" where
  "wake_writer p = p\<lparr>p_writer := None, p_woken := p_woken p @ (case p_writer p of None \<Rightarrow> [] | Some w \<Rightarrow> [w])\<rparr>"

subsection \<open>The reader's poll\<close>

text \<open>Each counter is named by the access it is about to make.  The closing of the reading end is the
  reader's too.\<close>

datatype 'w reading =
    Rd_start 'w "byte list"
  | Rd_read 'w "byte list"
  | Rd_written 'w "byte list" nat
  | Rd_closed 'w "byte list" nat
  | Rd_register 'w "byte list" nat
  | Rd_written_again 'w "byte list" nat
  | Rd_closed_again 'w "byte list" nat
  | Rd_copy "byte list" nat nat
  | Rd_store "byte list" nat nat
  | Rd_wake "byte list" nat
  | Rd_done "nat io" "byte list"
  | Rd_close
  | Rd_close_wake
  | Rd_gone

text \<open>The two copies out of the ring: up to its end, and from its start.\<close>

definition copy_out :: "byte list \<Rightarrow> nat \<Rightarrow> nat \<Rightarrow> byte list \<Rightarrow> byte list" where
  "copy_out r at n out =
     (let first = min n (length r - at)
      in take first (drop at r) @ take (n - first) r @ drop n out)"

fun reader_step :: "'w reading \<times> 'w pipe \<Rightarrow> 'w reading \<times> 'w pipe" where
  "reader_step (Rd_start w out, p) = (if out = [] then Rd_done (ok 0) out else Rd_read w out, p)"
| "reader_step (Rd_read w out, p) = (Rd_written w out (p_read p), p)"
| "reader_step (Rd_written w out r, p) =
     (if p_written p = r then Rd_closed w out r else Rd_copy out r (p_written p), p)"
| "reader_step (Rd_closed w out r, p) = (if write_closed p then Rd_done (ok 0) out else Rd_register w out r, p)"
| "reader_step (Rd_register w out r, p) = (Rd_written_again w out r, p\<lparr>p_reader := Some w\<rparr>)"
| "reader_step (Rd_written_again w out r, p) =
     (if p_written p = r then Rd_closed_again w out r else Rd_copy out r (p_written p), p)"
| "reader_step (Rd_closed_again w out r, p) = (if write_closed p then Rd_done (ok 0) out else Rd_done Pending out, p)"
| "reader_step (Rd_copy out r written, p) =
     (let n = min (written - r) (length out)
      in (Rd_store (copy_out (ring p) (r mod length (ring p)) n out) r n, p))"
| "reader_step (Rd_store out r n, p) = (Rd_wake out n, p\<lparr>p_read := r + n\<rparr>)"
| "reader_step (Rd_wake out n, p) = (Rd_done (ok n) out, wake_writer p)"
| "reader_step (Rd_done res out, p) = (Rd_done res out, p)"
| "reader_step (Rd_close, p) = (Rd_close_wake, p\<lparr>read_closed := True\<rparr>)"
| "reader_step (Rd_close_wake, p) = (Rd_gone, wake_writer p)"
| "reader_step (Rd_gone, p) = (Rd_gone, p)"

subsection \<open>The writer's poll\<close>

datatype 'w writing =
    Wr_start 'w "byte list"
  | Wr_write_closed 'w "byte list"
  | Wr_written 'w "byte list"
  | Wr_read 'w "byte list" nat
  | Wr_register 'w "byte list" nat
  | Wr_read_again 'w "byte list" nat
  | Wr_closed_again "byte list"
  | Wr_copy "byte list" nat nat
  | Wr_store "byte list" nat nat
  | Wr_wake "byte list" nat
  | Wr_done "nat io" "byte list"
  | Wr_close
  | Wr_close_wake
  | Wr_gone

definition copy_in :: "byte list \<Rightarrow> nat \<Rightarrow> nat \<Rightarrow> byte list \<Rightarrow> byte list" where
  "copy_in r at n input =
     (let first = min n (length r - at);
          r1 = take at r @ take first input @ drop (at + first) r
      in take (n - first) (drop first input) @ drop (n - first) r1)"

fun writer_step :: "'w writing \<times> 'w pipe \<Rightarrow> 'w writing \<times> 'w pipe" where
  "writer_step (Wr_start w input, p) =
     (if read_closed p then Wr_done (err Broken_pipe) input else Wr_write_closed w input, p)"
| "writer_step (Wr_write_closed w input, p) =
     (if write_closed p then Wr_done (err Broken_pipe) input
      else if input = [] then Wr_done (ok 0) input else Wr_written w input, p)"
| "writer_step (Wr_written w input, p) = (Wr_read w input (p_written p), p)"
| "writer_step (Wr_read w input wr, p) =
     (if wr - p_read p = length (ring p) then Wr_register w input wr else Wr_copy input wr (p_read p), p)"
| "writer_step (Wr_register w input wr, p) = (Wr_read_again w input wr, p\<lparr>p_writer := Some w\<rparr>)"
| "writer_step (Wr_read_again w input wr, p) =
     (if wr - p_read p = length (ring p) then Wr_closed_again input else Wr_copy input wr (p_read p), p)"
| "writer_step (Wr_closed_again input, p) =
     (if read_closed p then Wr_done (err Broken_pipe) input else Wr_done Pending input, p)"
| "writer_step (Wr_copy input wr rd, p) =
     (let n = min (length (ring p) - (wr - rd)) (length input)
      in (Wr_store input wr n, p\<lparr>ring := copy_in (ring p) (wr mod length (ring p)) n input\<rparr>))"
| "writer_step (Wr_store input wr n, p) = (Wr_wake input n, p\<lparr>p_written := wr + n\<rparr>)"
| "writer_step (Wr_wake input n, p) = (Wr_done (ok n) input, wake_reader p)"
| "writer_step (Wr_done res input, p) = (Wr_done res input, p)"
| "writer_step (Wr_close, p) = (Wr_close_wake, p\<lparr>write_closed := True\<rparr>)"
| "writer_step (Wr_close_wake, p) = (Wr_gone, wake_reader p)"
| "writer_step (Wr_gone, p) = (Wr_gone, p)"

subsection \<open>Polls with nobody in between\<close>

text \<open>A poll makes at most nine accesses after its start.\<close>

definition pipe_poll_read :: "'w \<Rightarrow> 'w pipe reader" where
  "pipe_poll_read w out p =
     (case (reader_step ^^ 10) (Rd_start w out, p) of
        (Rd_done res out', p') \<Rightarrow> (res, out', p')
      | (_, p') \<Rightarrow> (err Panicked, out, p'))"

definition pipe_poll_write :: "'w \<Rightarrow> byte list \<Rightarrow> 'w pipe \<Rightarrow> nat io \<times> 'w pipe" where
  "pipe_poll_write w input p =
     (case (writer_step ^^ 10) (Wr_start w input, p) of
        (Wr_done res _, p') \<Rightarrow> (res, p')
      | (_, p') \<Rightarrow> (err Panicked, p'))"

definition close_write :: "'w pipe \<Rightarrow> 'w pipe" where
  "close_write p = snd ((writer_step ^^ 2) (Wr_close, p))"

definition close_read :: "'w pipe \<Rightarrow> 'w pipe" where
  "close_read p = snd ((reader_step ^^ 2) (Rd_close, p))"

subsection \<open>Both sides\<close>

text \<open>The sides with what passed between them and their callers: the bytes given to the callers of reads and
  taken from the callers of writes, the waker of the last poll that was pending, and how many wakes there
  had been when that poll was made.\<close>

record 'w both =
  pipe :: "'w pipe"
  reading :: "'w reading option"
  writing :: "'w writing option"
  got :: "byte list"
  gave :: "byte list"
  r_waker :: "'w option"
  w_waker :: "'w option"
  r_since :: nat
  w_since :: nat

inductive pipe_step :: "'w both \<Rightarrow> 'w both \<Rightarrow> bool" where
  read_call: "reading s = None \<Longrightarrow>
    pipe_step s (s\<lparr>reading := Some (Rd_start w out), r_waker := Some w, r_since := length (p_woken (pipe s))\<rparr>)"
| read_close: "reading s = None \<Longrightarrow> pipe_step s (s\<lparr>reading := Some Rd_close, r_waker := None\<rparr>)"
| read_access: "reading s = Some t \<Longrightarrow> reader_step (t, pipe s) = (t', p') \<Longrightarrow>
    pipe_step s (s\<lparr>pipe := p', reading := Some t'\<rparr>)"
| read_pending: "reading s = Some (Rd_done Pending out) \<Longrightarrow> pipe_step s (s\<lparr>reading := None\<rparr>)"
| read_ready: "reading s = Some (Rd_done (ok n) out) \<Longrightarrow>
    pipe_step s (s\<lparr>reading := None, got := got s @ take n out, r_waker := None\<rparr>)"
| write_call: "writing s = None \<Longrightarrow>
    pipe_step s (s\<lparr>writing := Some (Wr_start w input), w_waker := Some w, w_since := length (p_woken (pipe s))\<rparr>)"
| write_close: "writing s = None \<Longrightarrow> pipe_step s (s\<lparr>writing := Some Wr_close, w_waker := None\<rparr>)"
| write_access: "writing s = Some t \<Longrightarrow> writer_step (t, pipe s) = (t', p') \<Longrightarrow>
    pipe_step s (s\<lparr>pipe := p', writing := Some t'\<rparr>)"
| write_pending: "writing s = Some (Wr_done Pending input) \<Longrightarrow> pipe_step s (s\<lparr>writing := None\<rparr>)"
| write_ready: "writing s = Some (Wr_done (Ready res) input) \<Longrightarrow>
    pipe_step s (s\<lparr>writing := None, gave := gave s @ (case res of Inr n \<Rightarrow> take n input | Inl e \<Rightarrow> []), w_waker := None\<rparr>)"
| write_closed: "writing s = Some Wr_gone \<Longrightarrow> pipe_step s (s\<lparr>writing := None, w_waker := None\<rparr>)"

definition both_new :: "nat \<Rightarrow> 'w both" where
  "both_new capacity =
     \<lparr>pipe = pipe_new capacity, reading = None, writing = None, got = [], gave = [], r_waker = None, w_waker = None,
      r_since = 0, w_since = 0\<rparr>"

subsection \<open>Streams\<close>

text \<open>A duplex pair: the two pipes, on the thread of the task that polls; the end \<open>True\<close> reads the second
  pipe and writes the first.  A poll spends budget.\<close>

record ('e, 'w) duplex = "'e ctx" +
  ab :: "'w pipe"
  ba :: "'w pipe"

definition reads_of :: "bool \<Rightarrow> ('e, 'w, 'x) duplex_scheme \<Rightarrow> 'w pipe" where
  "reads_of e s = (if e then ba s else ab s)"

definition set_reads :: "bool \<Rightarrow> 'w pipe \<Rightarrow> ('e, 'w, 'x) duplex_scheme \<Rightarrow> ('e, 'w, 'x) duplex_scheme" where
  "set_reads e p s = (if e then s\<lparr>ba := p\<rparr> else s\<lparr>ab := p\<rparr>)"

definition duplex :: "nat \<Rightarrow> ('e, 'w, 'x) duplex_scheme \<Rightarrow> ('e, 'w, 'x) duplex_scheme" where
  "duplex max_buf_size s = s\<lparr>ab := pipe_new max_buf_size, ba := pipe_new max_buf_size\<rparr>"

type_synonym ('e, 'w, 'x) dcode = "'w ucall \<Rightarrow> ('e, 'w, 'x) duplex_scheme \<Rightarrow> ('e, 'w, 'x) duplex_scheme"

definition duplex_poll_read :: "('e, 'w, 'x) dcode \<Rightarrow> 'w \<Rightarrow> bool \<Rightarrow> byte list \<Rightarrow> ('e, 'w, 'x) duplex_scheme
    \<Rightarrow> (fault + nat \<times> byte list) poll \<times> ('e, 'w, 'x) duplex_scheme" where
  "duplex_poll_read u w e buf = poll_budget u w (\<lambda>s.
     case pipe_poll_read w buf (reads_of e s) of
       (Pending, b, p) \<Rightarrow> (Pending, set_reads e p s)
     | (Ready (Inl f), b, p) \<Rightarrow> (err f, set_reads e p s)
     | (Ready (Inr n), b, p) \<Rightarrow> (ok (n, b), set_reads e p s))"

definition duplex_poll_write :: "('e, 'w, 'x) dcode \<Rightarrow> 'w \<Rightarrow> bool \<Rightarrow> byte list \<Rightarrow> ('e, 'w, 'x) duplex_scheme
    \<Rightarrow> nat io \<times> ('e, 'w, 'x) duplex_scheme" where
  "duplex_poll_write u w e buf = poll_budget u w (\<lambda>s.
     case pipe_poll_write w buf (reads_of (\<not> e) s) of (res, p) \<Rightarrow> (res, set_reads (\<not> e) p s))"

definition duplex_poll_flush :: "('e, 'w, 'x) duplex_scheme \<Rightarrow> unit io \<times> ('e, 'w, 'x) duplex_scheme" where
  "duplex_poll_flush s = (ok (), s)"

definition duplex_poll_close :: "bool \<Rightarrow> ('e, 'w, 'x) duplex_scheme \<Rightarrow> unit io \<times> ('e, 'w, 'x) duplex_scheme" where
  "duplex_poll_close e s = (ok (), set_reads (\<not> e) (close_write (reads_of (\<not> e) s)) s)"

definition duplex_drop :: "bool \<Rightarrow> ('e, 'w, 'x) duplex_scheme \<Rightarrow> ('e, 'w, 'x) duplex_scheme" where
  "duplex_drop e s =
     (let s1 = set_reads (\<not> e) (close_write (reads_of (\<not> e) s)) s
      in set_reads e (close_read (reads_of e s1)) s1)"

text \<open>A simplex pipe is the first of them alone: one end reads it, the other writes it.\<close>

definition simplex :: "nat \<Rightarrow> ('e, 'w, 'x) duplex_scheme \<Rightarrow> ('e, 'w, 'x) duplex_scheme" where
  "simplex max_buf_size s = s\<lparr>ab := pipe_new max_buf_size\<rparr>"

definition simplex_poll_read :: "('e, 'w, 'x) dcode \<Rightarrow> 'w \<Rightarrow> byte list \<Rightarrow> ('e, 'w, 'x) duplex_scheme
    \<Rightarrow> (fault + nat \<times> byte list) poll \<times> ('e, 'w, 'x) duplex_scheme" where
  "simplex_poll_read u w = duplex_poll_read u w False"

definition simplex_poll_write :: "('e, 'w, 'x) dcode \<Rightarrow> 'w \<Rightarrow> byte list \<Rightarrow> ('e, 'w, 'x) duplex_scheme
    \<Rightarrow> nat io \<times> ('e, 'w, 'x) duplex_scheme" where
  "simplex_poll_write u w = duplex_poll_write u w True"

definition simplex_poll_close :: "('e, 'w, 'x) duplex_scheme \<Rightarrow> unit io \<times> ('e, 'w, 'x) duplex_scheme" where
  "simplex_poll_close s = (ok (), s\<lparr>ab := close_write (ab s)\<rparr>)"

definition simplex_reader_drop :: "('e, 'w, 'x) duplex_scheme \<Rightarrow> ('e, 'w, 'x) duplex_scheme" where
  "simplex_reader_drop s = s\<lparr>ab := close_read (ab s)\<rparr>"

definition simplex_writer_drop :: "('e, 'w, 'x) duplex_scheme \<Rightarrow> ('e, 'w, 'x) duplex_scheme" where
  "simplex_writer_drop s = s\<lparr>ab := close_write (ab s)\<rparr>"

text \<open>The polls of a writing end that has budget to spend; a vectored write is the one of \<open>futures-io\<close>, which
  writes the first slice that is not empty.\<close>

definition pipe_writer :: "'w \<Rightarrow> 'w pipe writer" where
  "pipe_writer w =
     \<lparr>poll_write = pipe_poll_write w,
      poll_write_vectored = (\<lambda>bufs. pipe_poll_write w (case filter (\<lambda>b. b \<noteq> []) bufs of [] \<Rightarrow> [] | b # _ \<Rightarrow> b)),
      poll_flush = (\<lambda>p. (ok (), p)),
      poll_close = (\<lambda>p. (ok (), close_write p))\<rparr>"

end
