(* ===== verification/Io_Pipe_Spec.thy ===== *)
theory Io_Pipe_Spec
  imports Io_Pipe
begin

text \<open>
  What the pipes promise: with both sides running, the bytes read are the bytes written, in order, and a
  pending side is woken; alone, a pipe is a source and a sink of bytes.
\<close>

subsection \<open>The ring\<close>

definition span :: "byte list \<Rightarrow> nat \<Rightarrow> nat \<Rightarrow> byte list" where
  "span r a b = map (\<lambda>i. r ! (i mod length r)) [a..<b]"

lemma length_span [simp]: "length (span r a b) = b - a"
  by (simp add: span_def)

lemma span_Nil [simp]: "span r a b = [] \<longleftrightarrow> b \<le> a"
  by (auto simp: span_def)

lemma span_append: "a \<le> b \<Longrightarrow> b \<le> c \<Longrightarrow> span r a b @ span r b c = span r a c"
  unfolding span_def by (metis le_Suc_ex map_append upt_add_eq_append)

lemma take_span: "take n (span r a b) = span r a (min (a + n) b)"
  by (simp add: span_def take_map min_def)

lemma drop_span: "drop n (span r a b) = span r (a + n) b"
  by (simp add: span_def drop_map)

lemma wrapped:
  assumes "k < c" and "0 < c"
  shows "((a :: nat) + k) mod c = (if k < c - a mod c then a mod c + k else k - (c - a mod c))"
proof -
  have m: "a mod c < c" using assms(2) by simp
  have "(a + k) mod c = (a mod c + k) mod c" by (simp add: mod_add_left_eq)
  moreover have "(a mod c + k) mod c = a mod c + k" if "k < c - a mod c"
    using that by (simp add: less_diff_conv add.commute)
  moreover have "(a mod c + k) mod c = k - (c - a mod c)" if "\<not> k < c - a mod c"
  proof -
    have "a mod c + k = (k - (c - a mod c)) + c" "k - (c - a mod c) < c" using that m assms by linarith+
    then show ?thesis by (metis mod_add_self2 mod_less)
  qed
  ultimately show ?thesis by simp
qed

lemma copy_out_span:
  assumes "r \<noteq> []" and "n \<le> length r" and "n \<le> length out"
  shows "copy_out r (a mod length r) n out = span r a (a + n) @ drop n out"
proof -
  let ?c = "length r" and ?at = "a mod length r"
  have at: "?at < ?c" using assms(1) by simp
  let ?f = "min n (?c - ?at)"
  have "take ?f (drop ?at r) @ take (n - ?f) r = span r a (a + n)"
  proof (rule nth_equalityI)
    show "length (take ?f (drop ?at r) @ take (n - ?f) r) = length (span r a (a + n))"
      using assms(2) at by simp
  next
    fix k assume "k < length (take ?f (drop ?at r) @ take (n - ?f) r)"
    then have k: "k < n" using assms(2) at by simp
    then have w: "(a + k) mod ?c = (if k < ?c - ?at then ?at + k else k - (?c - ?at))"
      using wrapped [of k ?c a] assms(1,2) by simp
    show "(take ?f (drop ?at r) @ take (n - ?f) r) ! k = span r a (a + n) ! k"
      using k w at assms(2) by (auto simp: span_def nth_append min_def)
  qed
  then show ?thesis by (simp add: copy_out_def Let_def)
qed

lemma length_copy_in:
  assumes "r \<noteq> []" and "n \<le> length r" and "n \<le> length input" and "at < length r"
  shows "length (copy_in r at n input) = length r"
  using assms by (auto simp: copy_in_def Let_def min_def)

lemma nth_copy_in:
  assumes "n \<le> length r" and "n \<le> length input" and "at < length r" and "j < length r"
  shows "copy_in r at n input ! j =
    (if j < n - (length r - at) then input ! ((length r - at) + j)
     else if at \<le> j \<and> j < at + n then input ! (j - at) else r ! j)"
proof (cases "n \<le> length r - at")
  case True
  then have "copy_in r at n input = take at r @ take n input @ drop (at + n) r" by (simp add: copy_in_def Let_def)
  then show ?thesis using assms True by (cases "j < at") (auto simp: nth_append)
next
  case False
  let ?f = "length r - at"
  have e: "copy_in r at n input = take (n - ?f) (drop ?f input) @ drop (n - ?f) (take at r @ take ?f input)"
    using False assms by (simp add: copy_in_def Let_def min_def)
  have l: "length (take (n - ?f) (drop ?f input)) = n - ?f" using assms by simp
  show ?thesis
  proof (cases "j < n - ?f")
    case True
    then show ?thesis unfolding e nth_append l using assms by simp
  next
    case late: False
    then have "copy_in r at n input ! j = drop (n - ?f) (take at r @ take ?f input) ! (j - (n - ?f))"
      unfolding e nth_append [of "take (n - ?f) (drop ?f input)"] l by (simp only: if_False)
    also have "\<dots> = (take at r @ take ?f input) ! (n - ?f + (j - (n - ?f)))"
      using assms by (intro nth_drop) simp
    also have "n - ?f + (j - (n - ?f)) = j" using late by simp
    finally have v: "copy_in r at n input ! j = (take at r @ take ?f input) ! j" .
    have "j < at + n" using False assms by linarith
    then show ?thesis using v assms late False by (cases "j < at") (simp_all add: nth_append)
  qed
qed

lemma copy_in_at:
  assumes "r \<noteq> []" and "n \<le> length r" and "n \<le> length input" and "k < n"
  shows "copy_in r (a mod length r) n input ! ((a + k) mod length r) = input ! k"
proof -
  have at: "a mod length r < length r" using assms(1) by simp
  have "k < length r" "0 < length r" using assms by auto
  note w = wrapped [OF this, of a]
  have j: "(a + k) mod length r < length r" using assms(1) by simp
  show ?thesis unfolding nth_copy_in [OF assms(2,3) at j] using w at assms by auto
qed

lemma copy_in_not:
  assumes "r \<noteq> []" and "n \<le> length r" and "n \<le> length input" and "n \<le> k" and "k < length r"
  shows "copy_in r (a mod length r) n input ! ((a + k) mod length r) = r ! ((a + k) mod length r)"
proof -
  have at: "a mod length r < length r" using assms(1) by simp
  have "0 < length r" using assms by auto
  note w = wrapped [OF assms(5) this, of a]
  have j: "(a + k) mod length r < length r" using assms(1) by simp
  show ?thesis unfolding nth_copy_in [OF assms(2,3) at j] using w at assms by auto
qed

lemma span_copy_in:
  assumes "r \<noteq> []" and "n \<le> length r" and "n \<le> length input"
  shows "span (copy_in r (a mod length r) n input) a (a + n) = take n input"
proof -
  have "length (copy_in r (a mod length r) n input) = length r" using assms by (simp add: length_copy_in)
  then show ?thesis using copy_in_at [OF assms] assms(3) by (intro nth_equalityI) (auto simp: span_def)
qed

lemma span_copy_in_before:
  assumes "r \<noteq> []" and "n \<le> length input" and "a + n \<le> b + length r" and "b \<le> a" and "c \<le> a"
  shows "span (copy_in r (a mod length r) n input) b c = span r b c"
proof -
  have n: "n \<le> length r" using assms by simp
  have len: "length (copy_in r (a mod length r) n input) = length r" using assms n by (simp add: length_copy_in)
  have "copy_in r (a mod length r) n input ! (i mod length r) = r ! (i mod length r)" if "b \<le> i" "i < c" for i
  proof -
    define k where "k = i + length r - a"
    have k: "n \<le> k" "k < length r" "a + k = i + length r" using that assms by (auto simp: k_def)
    show ?thesis using copy_in_not [OF assms(1) n assms(2) k(1,2), of a] k(3) by simp
  qed
  then show ?thesis by (simp add: span_def len)
qed

subsection \<open>The bytes of a run\<close>

definition contents :: "'w pipe \<Rightarrow> byte list" where
  "contents p = span (ring p) (p_read p) (p_written p)"

definition pipe_ok :: "'w pipe \<Rightarrow> bool" where
  "pipe_ok p \<longleftrightarrow> ring p \<noteq> [] \<and> p_read p \<le> p_written p \<and> p_written p \<le> p_read p + length (ring p)"

text \<open>What a side knows at each access, and the bytes it has moved and not yet accounted for.\<close>

fun r_ok :: "'w reading \<Rightarrow> 'w pipe \<Rightarrow> bool" where
  "r_ok (Rd_read w out) p \<longleftrightarrow> out \<noteq> []"
| "r_ok (Rd_written w out r) p \<longleftrightarrow> out \<noteq> [] \<and> r = p_read p"
| "r_ok (Rd_closed w out r) p \<longleftrightarrow> out \<noteq> [] \<and> r = p_read p"
| "r_ok (Rd_register w out r) p \<longleftrightarrow> out \<noteq> [] \<and> r = p_read p"
| "r_ok (Rd_written_again w out r) p \<longleftrightarrow> out \<noteq> [] \<and> r = p_read p"
| "r_ok (Rd_closed_again w out r) p \<longleftrightarrow> out \<noteq> [] \<and> r = p_read p"
| "r_ok (Rd_copy out r written) p \<longleftrightarrow> out \<noteq> [] \<and> r = p_read p \<and> r < written \<and> written \<le> p_written p"
| "r_ok (Rd_store out r n) p \<longleftrightarrow> r = p_read p \<and> 0 < n \<and> r + n \<le> p_written p \<and> n \<le> length out
     \<and> take n out = span (ring p) r (r + n)"
| "r_ok (Rd_wake out n) p \<longleftrightarrow> n \<le> length out"
| "r_ok (Rd_done (ok n) out) p \<longleftrightarrow> n \<le> length out"
| "r_ok (Rd_done (err e) out) p \<longleftrightarrow> False"
| "r_ok (Rd_close_wake) p \<longleftrightarrow> read_closed p"
| "r_ok (Rd_gone) p \<longleftrightarrow> read_closed p"
| "r_ok _ p \<longleftrightarrow> True"

fun w_ok :: "'w writing \<Rightarrow> 'w pipe \<Rightarrow> bool" where
  "w_ok (Wr_written w input) p \<longleftrightarrow> input \<noteq> [] \<and> \<not> write_closed p"
| "w_ok (Wr_read w input wr) p \<longleftrightarrow> input \<noteq> [] \<and> \<not> write_closed p \<and> wr = p_written p"
| "w_ok (Wr_register w input wr) p \<longleftrightarrow> input \<noteq> [] \<and> \<not> write_closed p \<and> wr = p_written p"
| "w_ok (Wr_read_again w input wr) p \<longleftrightarrow> input \<noteq> [] \<and> \<not> write_closed p \<and> wr = p_written p"
| "w_ok (Wr_closed_again input) p \<longleftrightarrow> \<not> write_closed p"
| "w_ok (Wr_copy input wr rd) p \<longleftrightarrow> input \<noteq> [] \<and> \<not> write_closed p \<and> wr = p_written p \<and> rd \<le> p_read p
     \<and> wr < rd + length (ring p)"
| "w_ok (Wr_store input wr n) p \<longleftrightarrow> \<not> write_closed p \<and> wr = p_written p \<and> 0 < n \<and> wr + n \<le> p_read p + length (ring p)
     \<and> n \<le> length input \<and> span (ring p) wr (wr + n) = take n input"
| "w_ok (Wr_wake input n) p \<longleftrightarrow> \<not> write_closed p \<and> n \<le> length input"
| "w_ok (Wr_done (ok n) input) p \<longleftrightarrow> n \<le> length input"
| "w_ok (Wr_done (err e) input) p \<longleftrightarrow> e = Broken_pipe"
| "w_ok Wr_close_wake p \<longleftrightarrow> write_closed p"
| "w_ok Wr_gone p \<longleftrightarrow> write_closed p"
| "w_ok _ p \<longleftrightarrow> True"

fun in_hand :: "'w reading \<Rightarrow> byte list" where
  "in_hand (Rd_wake out n) = take n out"
| "in_hand (Rd_done (ok n) out) = take n out"
| "in_hand _ = []"

fun published :: "'w writing \<Rightarrow> byte list" where
  "published (Wr_wake input n) = take n input"
| "published (Wr_done (ok n) input) = take n input"
| "published _ = []"

lemma wake_reader_fields [simp]:
  "ring (wake_reader p) = ring p" "p_written (wake_reader p) = p_written p" "p_read (wake_reader p) = p_read p"
  "write_closed (wake_reader p) = write_closed p" "read_closed (wake_reader p) = read_closed p"
  "p_writer (wake_reader p) = p_writer p" "p_reader (wake_reader p) = None"
  by (simp_all add: wake_reader_def)

lemma wake_writer_fields [simp]:
  "ring (wake_writer p) = ring p" "p_written (wake_writer p) = p_written p" "p_read (wake_writer p) = p_read p"
  "write_closed (wake_writer p) = write_closed p" "read_closed (wake_writer p) = read_closed p"
  "p_reader (wake_writer p) = p_reader p" "p_writer (wake_writer p) = None"
  by (simp_all add: wake_writer_def)

text \<open>What a step of a side may change under the other: the reader moves its count on over bytes that are
  there, the writer the ring where it is free and its count on.\<close>

lemma reader_step_frame:
  assumes "reader_step (t, p) = (t', p')" and "r_ok t p"
  shows "ring p' = ring p" and "p_written p' = p_written p" and "write_closed p' = write_closed p"
    and "p_read p \<le> p_read p'" and "pipe_ok p \<Longrightarrow> p_read p' \<le> p_written p"
  using assms by (cases t; auto simp: Let_def pipe_ok_def split: if_splits)+

lemma w_ok_frame:
  assumes "w_ok x p" and "ring p' = ring p" and "p_written p' = p_written p" and "write_closed p' = write_closed p"
    and "p_read p \<le> p_read p'"
  shows "w_ok x p'"
  using assms by (cases "(x, p)" rule: w_ok.cases) auto

lemma reader_step_ok:
  assumes "reader_step (t, p) = (t', p')" and "pipe_ok p" and "r_ok t p"
  shows "pipe_ok p'" and "r_ok t' p'" and "in_hand t' @ contents p' = in_hand t @ contents p"
proof -
  note fr = reader_step_frame [OF assms(1,3)]
  show "pipe_ok p'" using fr assms(2) by (auto simp: pipe_ok_def)
  have "r_ok t' p' \<and> in_hand t' @ contents p' = in_hand t @ contents p"
  proof (cases t)
    case (Rd_copy out r written)
    define n where "n = min (written - r) (length out)"
    have n: "0 < n" "n \<le> length out" "r + n \<le> p_written p" "n \<le> length (ring p)" "ring p \<noteq> []"
      using assms(2,3) Rd_copy by (auto simp: n_def pipe_ok_def)
    have "t' = Rd_store (span (ring p) r (r + n) @ drop n out) r n" "p' = p"
      using assms(1) Rd_copy copy_out_span [of "ring p" n out r] n by (auto simp: n_def [symmetric] Let_def)
    then show ?thesis using n assms(3) Rd_copy by simp
  next
    case (Rd_store out r n)
    have "span (ring p) r (r + n) @ span (ring p) (r + n) (p_written p) = contents p"
      using assms(3) Rd_store span_append [of r "r + n" "p_written p" "ring p"] by (simp add: contents_def)
    then show ?thesis using assms(1,3) Rd_store by (auto simp: contents_def)
  qed (use assms in \<open>auto simp: contents_def pipe_ok_def split: if_splits\<close>)
  then show "r_ok t' p'" "in_hand t' @ contents p' = in_hand t @ contents p" by auto
qed

lemma writer_step_frame:
  assumes "writer_step (t, p) = (t', p')" and "pipe_ok p" and "w_ok t p"
  shows "p_read p' = p_read p" and "read_closed p' = read_closed p" and "p_written p \<le> p_written p'"
    and "p_written p' \<le> p_read p + length (ring p)" and "length (ring p') = length (ring p)"
    and "span (ring p') (p_read p) (p_written p) = span (ring p) (p_read p) (p_written p)"
proof -
  have "length (ring p') = length (ring p) \<and> span (ring p') (p_read p) (p_written p) = span (ring p) (p_read p) (p_written p)"
  proof (cases t)
    case (Wr_copy input wr rd)
    define n where "n = min (length (ring p) - (wr - rd)) (length input)"
    have n: "n \<le> length input" "n \<le> length (ring p)" "wr + n \<le> p_read p + length (ring p)" "ring p \<noteq> []"
      "p_read p \<le> wr" "wr = p_written p"
      using assms(2,3) Wr_copy by (auto simp: n_def pipe_ok_def)
    have "ring p' = copy_in (ring p) (wr mod length (ring p)) n input"
      using assms(1) Wr_copy by (auto simp: n_def Let_def)
    then show ?thesis using n span_copy_in_before [of "ring p" n input wr "p_read p" wr]
      by (simp add: length_copy_in)
  qed (use assms in \<open>auto split: if_splits\<close>)
  then show "length (ring p') = length (ring p)"
    "span (ring p') (p_read p) (p_written p) = span (ring p) (p_read p) (p_written p)" by auto
  show "p_read p' = p_read p" "read_closed p' = read_closed p" "p_written p \<le> p_written p'"
    "p_written p' \<le> p_read p + length (ring p)"
    using assms by (cases t; auto simp: Let_def pipe_ok_def split: if_splits)+
qed

lemma r_ok_frame:
  assumes "r_ok x p" and "p_read p' = p_read p" and "read_closed p' = read_closed p" and "p_written p \<le> p_written p'"
    and "span (ring p') (p_read p) (p_written p) = span (ring p) (p_read p) (p_written p)"
  shows "r_ok x p'"
proof (cases x)
  case (Rd_store out r n)
  have "span (ring p') r (r + n) = span (ring p) r (r + n)"
    using assms(1) Rd_store arg_cong [OF assms(5), of "take n"] by (simp add: take_span)
  then show ?thesis using assms Rd_store by simp
next
  case (Rd_done res out)
  then show ?thesis using assms(1) by (cases res rule: io_cases) auto
qed (use assms in auto)

lemma writer_step_ok:
  assumes "writer_step (t, p) = (t', p')" and "pipe_ok p" and "w_ok t p"
  shows "pipe_ok p'" and "w_ok t' p'" and "\<exists>a. contents p' = contents p @ a \<and> published t' = published t @ a"
proof -
  note fr = writer_step_frame [OF assms]
  show "pipe_ok p'" using fr assms(2) by (fastforce simp: pipe_ok_def)
  have "w_ok t' p' \<and> (\<exists>a. contents p' = contents p @ a \<and> published t' = published t @ a)"
  proof (cases t)
    case (Wr_copy input wr rd)
    define n where "n = min (length (ring p) - (wr - rd)) (length input)"
    have n: "0 < n" "n \<le> length input" "n \<le> length (ring p)" "wr + n \<le> p_read p + length (ring p)" "ring p \<noteq> []"
      using assms(2,3) Wr_copy by (auto simp: n_def pipe_ok_def)
    have t: "t' = Wr_store input wr n" and p: "p' = p\<lparr>ring := copy_in (ring p) (wr mod length (ring p)) n input\<rparr>"
      using assms(1) Wr_copy by (auto simp: n_def Let_def)
    have "contents p' = contents p" using fr by (simp add: contents_def p)
    moreover have "w_ok t' p'"
      using n assms(3) Wr_copy span_copy_in [of "ring p" n input wr] by (simp add: t p length_copy_in)
    moreover have "published t' = published t" by (simp add: t Wr_copy)
    ultimately show ?thesis by simp
  next
    case (Wr_store input wr n)
    have "wr = p_written p" and s: "span (ring p) wr (wr + n) = take n input" using assms(3) Wr_store by auto
    then have "contents p @ take n input = span (ring p) (p_read p) (wr + n)"
      using assms(2) span_append [of "p_read p" wr "wr + n" "ring p"]
      by (simp add: contents_def pipe_ok_def s [symmetric])
    then show ?thesis using assms(1,3) Wr_store by (auto simp: contents_def)
  qed (use assms in \<open>auto simp: contents_def pipe_ok_def split: if_splits\<close>)
  then show "w_ok t' p'" "\<exists>a. contents p' = contents p @ a \<and> published t' = published t @ a" by auto
qed

subsection \<open>Nobody waits for nothing\<close>

text \<open>How far a reader has come in waiting: its waker is in the slot, it has seen the ring empty since, it has
  seen the writer open since.  The same for a writer.\<close>

fun r_phase :: "'w reading option \<Rightarrow> nat" where
  "r_phase None = 3"
| "r_phase (Some (Rd_done Pending out)) = 3"
| "r_phase (Some (Rd_closed_again w out r)) = 2"
| "r_phase (Some (Rd_written_again w out r)) = 1"
| "r_phase _ = 0"

fun w_phase :: "'w writing option \<Rightarrow> nat" where
  "w_phase None = 3"
| "w_phase (Some (Wr_done Pending input)) = 3"
| "w_phase (Some (Wr_closed_again input)) = 2"
| "w_phase (Some (Wr_read_again w input wr)) = 1"
| "w_phase _ = 0"

fun r_named :: "'w reading option \<Rightarrow> 'w option \<Rightarrow> bool" where
  "r_named (Some (Rd_start w out)) x \<longleftrightarrow> x = Some w"
| "r_named (Some (Rd_read w out)) x \<longleftrightarrow> x = Some w"
| "r_named (Some (Rd_written w out r)) x \<longleftrightarrow> x = Some w"
| "r_named (Some (Rd_closed w out r)) x \<longleftrightarrow> x = Some w"
| "r_named (Some (Rd_register w out r)) x \<longleftrightarrow> x = Some w"
| "r_named _ x \<longleftrightarrow> True"

fun w_named :: "'w writing option \<Rightarrow> 'w option \<Rightarrow> bool" where
  "w_named (Some (Wr_start w input)) x \<longleftrightarrow> x = Some w"
| "w_named (Some (Wr_write_closed w input)) x \<longleftrightarrow> x = Some w"
| "w_named (Some (Wr_written w input)) x \<longleftrightarrow> x = Some w"
| "w_named (Some (Wr_read w input wr)) x \<longleftrightarrow> x = Some w"
| "w_named (Some (Wr_register w input wr)) x \<longleftrightarrow> x = Some w"
| "w_named _ x \<longleftrightarrow> True"

text \<open>A side owes a wake between the store that the other waits for and the wake.\<close>

fun owes_bytes :: "'w writing option \<Rightarrow> bool" where
  "owes_bytes (Some (Wr_wake input n)) = True"
| "owes_bytes _ = False"

fun owes_end :: "'w writing option \<Rightarrow> bool" where
  "owes_end (Some Wr_close_wake) = True"
| "owes_end _ = False"

fun owes_room :: "'w reading option \<Rightarrow> bool" where
  "owes_room (Some (Rd_wake out n)) = True"
| "owes_room _ = False"

fun owes_gone :: "'w reading option \<Rightarrow> bool" where
  "owes_gone (Some Rd_close_wake) = True"
| "owes_gone _ = False"

definition reader_awaits :: "'w both \<Rightarrow> bool" where
  "reader_awaits s \<longleftrightarrow> r_named (reading s) (r_waker s) \<and> r_since s \<le> length (p_woken (pipe s)) \<and>
     (\<forall>w. r_waker s = Some w \<longrightarrow> 1 \<le> r_phase (reading s) \<longrightarrow>
        w \<in> set (drop (r_since s) (p_woken (pipe s))) \<or>
        p_reader (pipe s) = Some w
        \<and> (2 \<le> r_phase (reading s) \<longrightarrow> p_read (pipe s) = p_written (pipe s) \<or> owes_bytes (writing s))
        \<and> (3 \<le> r_phase (reading s) \<longrightarrow> \<not> write_closed (pipe s) \<or> owes_end (writing s)))"

definition writer_awaits :: "'w both \<Rightarrow> bool" where
  "writer_awaits s \<longleftrightarrow> w_named (writing s) (w_waker s) \<and> w_since s \<le> length (p_woken (pipe s)) \<and>
     (\<forall>w. w_waker s = Some w \<longrightarrow> 1 \<le> w_phase (writing s) \<longrightarrow>
        w \<in> set (drop (w_since s) (p_woken (pipe s))) \<or>
        p_writer (pipe s) = Some w
        \<and> (2 \<le> w_phase (writing s) \<longrightarrow>
             p_written (pipe s) = p_read (pipe s) + length (ring (pipe s)) \<or> owes_room (reading s))
        \<and> (3 \<le> w_phase (writing s) \<longrightarrow> \<not> read_closed (pipe s) \<or> owes_gone (reading s)))"

definition both_ok :: "'w both \<Rightarrow> bool" where
  "both_ok s \<longleftrightarrow> pipe_ok (pipe s) \<and> (\<forall>t. reading s = Some t \<longrightarrow> r_ok t (pipe s)) \<and> (\<forall>t. writing s = Some t \<longrightarrow> w_ok t (pipe s))
     \<and> got s @ (case reading s of None \<Rightarrow> [] | Some t \<Rightarrow> in_hand t) @ contents (pipe s)
         = gave s @ (case writing s of None \<Rightarrow> [] | Some t \<Rightarrow> published t)"

lemma both_new_ok: "both_ok (both_new capacity)" "reader_awaits (both_new capacity)" "writer_awaits (both_new capacity)"
  by (auto simp: both_ok_def both_new_def pipe_new_def pipe_ok_def contents_def reader_awaits_def writer_awaits_def)

lemma pipe_step_ok:
  assumes "pipe_step s s'" and "both_ok s"
  shows "both_ok s'"
  using assms
proof (induction rule: pipe_step.cases)
  case (read_access s t t' p')
  have t: "pipe_ok (pipe s)" "r_ok t (pipe s)" using read_access by (auto simp: both_ok_def)
  note fr = reader_step_frame [OF read_access(4) t(2)] and keeps = reader_step_ok [OF read_access(4) t]
  have "w_ok x p'" if "writing s = Some x" for x
    using w_ok_frame [of x "pipe s" p'] fr that read_access by (auto simp: both_ok_def)
  then show ?case using read_access keeps by (auto simp: both_ok_def)
next
  case (write_access s t t' p')
  have t: "pipe_ok (pipe s)" "w_ok t (pipe s)" using write_access by (auto simp: both_ok_def)
  note fr = writer_step_frame [OF write_access(4) t] and keeps = writer_step_ok [OF write_access(4) t]
  have r: "r_ok x p'" if "reading s = Some x" for x
    using r_ok_frame [of x "pipe s" p'] fr that write_access by (auto simp: both_ok_def)
  obtain a where a: "contents p' = contents (pipe s) @ a" "published t' = published t @ a" using keeps(3) by auto
  have "got s @ (case reading s of None \<Rightarrow> [] | Some t \<Rightarrow> in_hand t) @ contents (pipe s) = gave s @ published t"
    using write_access by (simp add: both_ok_def)
  then have "got s @ (case reading s of None \<Rightarrow> [] | Some t \<Rightarrow> in_hand t) @ contents p' = gave s @ published t'"
    using a by (metis append.assoc)
  then show ?case using write_access keeps r by (auto simp: both_ok_def)
qed (auto simp: both_ok_def split: sum.splits)

lemma wake_reader_log:
  "p_woken (wake_reader p) = p_woken p @ (case p_reader p of None \<Rightarrow> [] | Some w \<Rightarrow> [w])"
  by (simp add: wake_reader_def)

lemma wake_writer_log:
  "p_woken (wake_writer p) = p_woken p @ (case p_writer p of None \<Rightarrow> [] | Some w \<Rightarrow> [w])"
  by (simp add: wake_writer_def)

lemmas await_simps = reader_awaits_def writer_awaits_def wake_reader_log wake_writer_log Let_def

lemma reader_access_awaits:
  assumes "reading s = Some t" and "reader_step (t, pipe s) = (t', p')" and "both_ok s" and "reader_awaits s" and "writer_awaits s"
  shows "reader_awaits (s\<lparr>pipe := p', reading := Some t'\<rparr>)" and "writer_awaits (s\<lparr>pipe := p', reading := Some t'\<rparr>)"
proof -
  have r: "r_ok t (pipe s)" using assms(1,3) by (simp add: both_ok_def)
  show "reader_awaits (s\<lparr>pipe := p', reading := Some t'\<rparr>)"
    using assms(1,2,4) r by (cases t) (auto simp: await_simps split: if_splits option.splits poll.splits)
  show "writer_awaits (s\<lparr>pipe := p', reading := Some t'\<rparr>)"
    using assms(1,2,5) r by (cases t) (auto simp: await_simps split: if_splits option.splits)
qed

lemma full_exactly:
  assumes "pipe_ok p"
  shows "p_written p - p_read p = length (ring p) \<longleftrightarrow> p_written p = p_read p + length (ring p)"
  using assms by (auto simp: pipe_ok_def)

lemma writer_access_awaits:
  assumes "writing s = Some t" and "writer_step (t, pipe s) = (t', p')" and "both_ok s" and "reader_awaits s" and "writer_awaits s"
  shows "reader_awaits (s\<lparr>pipe := p', writing := Some t'\<rparr>)" and "writer_awaits (s\<lparr>pipe := p', writing := Some t'\<rparr>)"
proof -
  have w: "w_ok t (pipe s)" and p: "pipe_ok (pipe s)" using assms(1,3) by (simp_all add: both_ok_def)
  show "writer_awaits (s\<lparr>pipe := p', writing := Some t'\<rparr>)"
    using assms(1,2,5) w full_exactly [OF p] by (cases t) (auto simp: await_simps split: if_splits option.splits poll.splits)
  show "reader_awaits (s\<lparr>pipe := p', writing := Some t'\<rparr>)"
    using assms(1,2,4) w by (cases t) (auto simp: await_simps split: if_splits option.splits)
qed

lemma pipe_step_awaits:
  assumes "pipe_step s s'" and "both_ok s" and "reader_awaits s" and "writer_awaits s"
  shows "reader_awaits s' \<and> writer_awaits s'"
  using assms
proof (induction rule: pipe_step.cases)
  case (read_access s t t' p')
  then show ?case using reader_access_awaits [of s t t' p'] by simp
next
  case (write_access s t t' p')
  then show ?case using writer_access_awaits [of s t t' p'] by simp
qed (auto simp: reader_awaits_def writer_awaits_def)

definition pipe_inv :: "'w both \<Rightarrow> bool" where
  "pipe_inv s \<longleftrightarrow> both_ok s \<and> reader_awaits s \<and> writer_awaits s"

lemma pipe_run:
  assumes "pipe_step\<^sup>*\<^sup>* (both_new capacity) s"
  shows "pipe_inv s"
  using assms
proof (induction rule: rtranclp_induct)
  case base
  then show ?case by (simp add: pipe_inv_def both_new_ok)
next
  case (step s s')
  then show ?case using pipe_step_ok pipe_step_awaits unfolding pipe_inv_def by blast
qed

lemma read_accesses:
  assumes "reading s = Some t" and "(reader_step ^^ n) (t, pipe s) = (t', p')"
  shows "pipe_step\<^sup>*\<^sup>* s (s\<lparr>pipe := p', reading := Some t'\<rparr>)"
  using assms
proof (induction n arbitrary: t s)
  case 0
  then have "s\<lparr>pipe := p', reading := Some t'\<rparr> = s" by (cases s) auto
  then show ?case by simp
next
  case (Suc n)
  obtain t1 p1 where st: "reader_step (t, pipe s) = (t1, p1)" by fastforce
  let ?s1 = "s\<lparr>pipe := p1, reading := Some t1\<rparr>"
  have "pipe_step s ?s1" using pipe_step.read_access [OF Suc.prems(1) st] .
  moreover have "pipe_step\<^sup>*\<^sup>* ?s1 (?s1\<lparr>pipe := p', reading := Some t'\<rparr>)"
    using Suc.prems(2) st by (intro Suc.IH) (simp_all add: funpow_swap1)
  ultimately show ?case by (simp add: converse_rtranclp_into_rtranclp)
qed

lemma write_accesses:
  assumes "writing s = Some t" and "(writer_step ^^ n) (t, pipe s) = (t', p')"
  shows "pipe_step\<^sup>*\<^sup>* s (s\<lparr>pipe := p', writing := Some t'\<rparr>)"
  using assms
proof (induction n arbitrary: t s)
  case 0
  then have "s\<lparr>pipe := p', writing := Some t'\<rparr> = s" by (cases s) auto
  then show ?case by simp
next
  case (Suc n)
  obtain t1 p1 where st: "writer_step (t, pipe s) = (t1, p1)" by fastforce
  let ?s1 = "s\<lparr>pipe := p1, writing := Some t1\<rparr>"
  have "pipe_step s ?s1" using pipe_step.write_access [OF Suc.prems(1) st] .
  moreover have "pipe_step\<^sup>*\<^sup>* ?s1 (?s1\<lparr>pipe := p', writing := Some t'\<rparr>)"
    using Suc.prems(2) st by (intro Suc.IH) (simp_all add: funpow_swap1)
  ultimately show ?case by (simp add: converse_rtranclp_into_rtranclp)
qed

subsection \<open>One side alone\<close>

lemmas unroll = eval_nat_numeral funpow_Suc_right

lemma pipe_poll_read_nothing: "pipe_poll_read w [] p = (ok 0, [], p)"
  by (simp add: pipe_poll_read_def unroll del: funpow.simps(2))

lemma pipe_poll_read_bytes:
  assumes "pipe_ok p" and "contents p \<noteq> []" and "out \<noteq> []"
  defines "n \<equiv> min (length (contents p)) (length out)"
  shows "pipe_poll_read w out p =
    (ok n, take n (contents p) @ drop n out, wake_writer (p\<lparr>p_read := p_read p + n\<rparr>))"
proof -
  have d: "p_written p \<noteq> p_read p" using assms(2) by (auto simp: contents_def)
  have n: "n = min (p_written p - p_read p) (length out)" "n \<le> length (ring p)" "ring p \<noteq> []" "n \<le> length out"
    using assms(1) by (auto simp: n_def contents_def pipe_ok_def)
  have le: "p_read p + n \<le> p_written p" using assms(1) n(1) by (auto simp: pipe_ok_def)
  have "take n (contents p) = span (ring p) (p_read p) (p_read p + n)"
    using le by (simp add: contents_def take_span min_absorb1)
  then show ?thesis using d assms(3) copy_out_span [OF n(3,2,4)]
    by (simp add: pipe_poll_read_def unroll Let_def n(1) [symmetric] del: funpow.simps(2))
qed

lemma pipe_poll_read_empty:
  assumes "contents p = []" and "pipe_ok p" and "out \<noteq> []"
  shows "pipe_poll_read w out p = (if write_closed p then (ok 0, out, p) else (Pending, out, p\<lparr>p_reader := Some w\<rparr>))"
proof -
  have "p_written p = p_read p" using assms(1,2) by (auto simp: contents_def pipe_ok_def)
  then show ?thesis using assms(3) by (simp add: pipe_poll_read_def unroll del: funpow.simps(2))
qed

lemma pipe_poll_write_room:
  assumes "pipe_ok p" and "\<not> read_closed p" and "\<not> write_closed p" and "input \<noteq> []"
    and "length (contents p) < length (ring p)"
  defines "n \<equiv> min (length (ring p) - length (contents p)) (length input)"
  shows "\<exists>p'. pipe_poll_write w input p = (ok n, p') \<and> contents p' = contents p @ take n input \<and> pipe_ok p'"
proof -
  let ?t = "Wr_copy input (p_written p) (p_read p)"
  have len: "length (contents p) = p_written p - p_read p" by (simp add: contents_def)
  have ok: "w_ok ?t p" using assms(1-5) len by (auto simp: pipe_ok_def)
  obtain t1 p1 where s1: "writer_step (?t, p) = (t1, p1)" by fastforce
  note k1 = writer_step_ok [OF s1 assms(1) ok]
  have t1: "t1 = Wr_store input (p_written p) n" using s1 by (auto simp: n_def len Let_def)
  obtain t2 p2 where s2: "writer_step (t1, p1) = (t2, p2)" by fastforce
  note k2 = writer_step_ok [OF s2 k1(1,2)]
  have t2: "t2 = Wr_wake input n" using s2 t1 by simp
  have run: "pipe_poll_write w input p = (ok n, wake_reader p2)"
    using assms(2-5) s1 s2 t1 t2 len
    by (auto simp: pipe_poll_write_def unroll Let_def n_def simp del: funpow.simps(2))
  have "contents p2 = contents p @ take n input" using k1(3) k2(3) t1 t2 by auto
  then show ?thesis using run k2(1) by (auto simp: contents_def pipe_ok_def)
qed

lemma pipe_poll_write_not:
  assumes "pipe_ok p"
  shows "read_closed p \<or> write_closed p \<Longrightarrow> pipe_poll_write w input p = (err Broken_pipe, p)"
    and "\<not> read_closed p \<Longrightarrow> \<not> write_closed p \<Longrightarrow> pipe_poll_write w [] p = (ok 0, p)"
    and "\<not> read_closed p \<Longrightarrow> \<not> write_closed p \<Longrightarrow> input \<noteq> [] \<Longrightarrow> length (contents p) = length (ring p) \<Longrightarrow>
      pipe_poll_write w input p = (Pending, p\<lparr>p_writer := Some w\<rparr>)"
  by (auto simp: pipe_poll_write_def unroll contents_def simp del: funpow.simps(2))

lemma close_write_contents: "contents (close_write p) = contents p" "pipe_ok (close_write p) = pipe_ok p"
  by (simp_all add: close_write_def unroll contents_def pipe_ok_def del: funpow.simps(2))

lemma pipe_full: "pipe_ok p \<Longrightarrow> length (contents p) \<le> length (ring p)"
  by (auto simp: pipe_ok_def contents_def)

lemma pipe_poll_read_eq:
  assumes "pipe_ok p"
  shows "pipe_poll_read w out p =
    (if out = [] then (ok 0, [], p)
     else if contents p = [] then if write_closed p then (ok 0, out, p) else (Pending, out, p\<lparr>p_reader := Some w\<rparr>)
     else let n = min (length (contents p)) (length out)
          in (ok n, take n (contents p) @ drop n out, wake_writer (p\<lparr>p_read := p_read p + n\<rparr>)))"
  using pipe_poll_read_nothing [of w p] pipe_poll_read_empty [of p out w] pipe_poll_read_bytes [of p out w] assms
  by (simp add: Let_def)

lemma pipe_read_on:
  assumes "pipe_ok p" and "n \<le> length (contents p)"
  shows "contents (wake_writer (p\<lparr>p_read := p_read p + n\<rparr>)) = drop n (contents p)"
    and "pipe_ok (wake_writer (p\<lparr>p_read := p_read p + n\<rparr>))"
  using assms by (auto simp: contents_def pipe_ok_def drop_span)

lemma pipe_waiting:
  "contents (p\<lparr>p_reader := x\<rparr>) = contents p" "pipe_ok (p\<lparr>p_reader := x\<rparr>) = pipe_ok p"
  by (simp_all add: contents_def pipe_ok_def)

lemma pipe_source: "byte_source (pipe_poll_read w) contents pipe_ok"
proof
  fix r buf n b r' assume r: "pipe_ok r" and p: "pipe_poll_read w buf r = (ok n, b, r')"
  show "n \<le> length buf \<and> n \<le> length (contents r) \<and> take n (overlay buf b) = take n (contents r)
      \<and> contents r' = drop n (contents r) \<and> pipe_ok r' \<and> (n = 0 \<longrightarrow> buf = [] \<or> contents r = [])"
    using p r pipe_read_on [OF r, of n] unfolding pipe_poll_read_eq [OF r]
    by (auto simp: Let_def split: if_splits)
next
  fix r buf b r' assume r: "pipe_ok r" and p: "pipe_poll_read w buf r = (Pending, b, r')"
  show "contents r' = contents r \<and> pipe_ok r'"
    using p r unfolding pipe_poll_read_eq [OF r] by (auto simp: Let_def pipe_waiting split: if_splits)
next
  fix r buf e b r' assume r: "pipe_ok r" and p: "pipe_poll_read w buf r = (err e, b, r')"
  show "contents r' = contents r \<and> pipe_ok r' \<and> e \<noteq> Panicked"
    using p r unfolding pipe_poll_read_eq [OF r] by (auto simp: Let_def split: if_splits)
qed

interpretation piped: byte_source "pipe_poll_read w" contents pipe_ok for w
  by (rule pipe_source)

definition pipe_took :: "'w pipe \<Rightarrow> byte list \<Rightarrow> 'w pipe \<Rightarrow> bool" where
  "pipe_took p a p' \<longleftrightarrow> contents p' = contents p @ a"

lemma pipe_write_cases:
  assumes "pipe_ok p" and "pipe_poll_write w b p = (q, p')"
  shows "pipe_ok p' \<and> (case q of Ready (Inr n) \<Rightarrow> n \<le> length b \<and> contents p' = contents p @ take n b
    | Ready (Inl e) \<Rightarrow> e = Broken_pipe \<and> p' = p | Pending \<Rightarrow> contents p' = contents p)"
proof -
  consider "read_closed p \<or> write_closed p" | "\<not> read_closed p" "\<not> write_closed p" "b = []"
    | "\<not> read_closed p" "\<not> write_closed p" "b \<noteq> []" "length (contents p) = length (ring p)"
    | "\<not> read_closed p" "\<not> write_closed p" "b \<noteq> []" "length (contents p) < length (ring p)"
    using pipe_full [OF assms(1)] by fastforce
  then show ?thesis
  proof cases
    case 4
    then show ?thesis using pipe_poll_write_room [OF assms(1) 4, of w] assms(2) by auto
  qed (use assms pipe_poll_write_not(1,3) [OF assms(1), where w = w and input = b] pipe_poll_write_not(2) [OF assms(1), of w]
       in \<open>auto simp: contents_def pipe_ok_def\<close>)
qed

interpretation piping: byte_sink "pipe_writer w" pipe_took pipe_ok for w :: 'w
proof
  fix p :: "'w pipe" and b q p'
  assume p: "pipe_ok p" and r: "poll_write (pipe_writer w) b p = (q, p')" and "\<And>n. q \<noteq> ok n"
  then show "pipe_took p [] p' \<and> pipe_ok p' \<and> q \<noteq> err Panicked"
    using pipe_write_cases [OF p, of w b q p'] by (cases q rule: io_cases) (auto simp: pipe_writer_def pipe_took_def)
next
  fix p :: "'w pipe" and b n p'
  assume p: "pipe_ok p" and r: "poll_write (pipe_writer w) b p = (ok n, p')"
  then show "n \<le> length b \<and> pipe_took p (take n b) p' \<and> pipe_ok p'"
    using pipe_write_cases [OF p, of w b "ok n" p'] by (auto simp: pipe_writer_def pipe_took_def)
qed (auto simp: pipe_took_def pipe_writer_def close_write_contents)

lemma empty_exactly: "pipe_ok p \<Longrightarrow> contents p = [] \<longleftrightarrow> p_read p = p_written p"
  by (auto simp: pipe_ok_def contents_def)

lemma full_contents: "pipe_ok p \<Longrightarrow> length (contents p) = length (ring p) \<longleftrightarrow> p_written p = p_read p + length (ring p)"
  by (auto simp: pipe_ok_def contents_def)

interpretation piped_chain: two_sources "pipe_poll_read v" contents pipe_ok "pipe_poll_read w" contents pipe_ok for v w
  by (intro two_sources.intro pipe_source)

subsection \<open>Properties\<close>

text \<open>C3: A pipe is a queue of bytes, whatever the two sides do and however their accesses interleave: the
  bytes reads have given, then those a read has in hand, then those in the ring, are those that writes
  have taken and one has published, in order, so none is lost, doubled or out of order; and the ring never
  holds more than its capacity.\<close>

theorem pipe_fifo:
  assumes "pipe_step\<^sup>*\<^sup>* (both_new capacity) s"
  shows "got s @ (case reading s of None \<Rightarrow> [] | Some t \<Rightarrow> in_hand t) @ contents (pipe s)
      = gave s @ (case writing s of None \<Rightarrow> [] | Some t \<Rightarrow> published t)
    \<and> length (contents (pipe s)) \<le> length (ring (pipe s))"
  using pipe_run [OF assms] pipe_full [of "pipe s"] by (simp add: pipe_inv_def both_ok_def)

theorem pipe_fifo_witness:
  "\<exists>s. pipe_step\<^sup>*\<^sup>* (both_new 2 :: nat both) s \<and> reading s = Some (Rd_start 5 [0])
     \<and> got s @ contents (pipe s) = gave s"
proof -
  let ?s = "(both_new 2 :: nat both)\<lparr>reading := Some (Rd_start 5 [0]), r_waker := Some 5, r_since := 0\<rparr>"
  have "pipe_step (both_new 2 :: nat both) ?s"
    using pipe_step.read_call [of "both_new 2 :: nat both" 5 "[0]"] by (simp add: both_new_def pipe_new_def)
  then have "pipe_step\<^sup>*\<^sup>* (both_new 2) ?s" by simp
  from pipe_fifo [OF this] this show ?thesis
    by (intro exI [of _ ?s]) (simp add: both_new_def)
qed

text \<open>C6: No wake of a pipe is lost.  After a read that was pending, its waker has been called since the
  read, or it is in its slot, the ring is empty unless the writer is just about to wake, and the writing
  end is open unless the writer is just about to wake.  The same for a write, a full ring and the reading
  end.\<close>

theorem pipe_no_lost_wake:
  assumes "pipe_step\<^sup>*\<^sup>* (both_new capacity) s"
  shows "(reading s = None \<and> r_waker s = Some w \<longrightarrow>
      w \<in> set (drop (r_since s) (p_woken (pipe s))) \<or>
      p_reader (pipe s) = Some w \<and> (contents (pipe s) = [] \<or> owes_bytes (writing s))
      \<and> (\<not> write_closed (pipe s) \<or> owes_end (writing s)))
    \<and> (writing s = None \<and> w_waker s = Some v \<longrightarrow>
      v \<in> set (drop (w_since s) (p_woken (pipe s))) \<or>
      p_writer (pipe s) = Some v \<and> (length (contents (pipe s)) = length (ring (pipe s)) \<or> owes_room (reading s))
      \<and> (\<not> read_closed (pipe s) \<or> owes_gone (reading s)))"
proof -
  have inv: "pipe_ok (pipe s)" "reader_awaits s" "writer_awaits s"
    using pipe_run [OF assms] by (auto simp: pipe_inv_def both_ok_def)
  note looks = empty_exactly [OF inv(1)] full_contents [OF inv(1)]
  show ?thesis (is "(?r \<longrightarrow> ?R) \<and> (?w \<longrightarrow> ?W)")
  proof (intro conjI impI)
    assume ?r
    then have "r_phase (reading s) = 3" "r_waker s = Some w" by simp_all
    then show ?R using inv(2) unfolding reader_awaits_def looks by auto
  next
    assume ?w
    then have "w_phase (writing s) = 3" "w_waker s = Some v" by simp_all
    then show ?W using inv(3) unfolding writer_awaits_def looks by auto
  qed
qed

lemma pending_read_run:
  "\<exists>s. pipe_step\<^sup>*\<^sup>* (both_new 1 :: nat both) s \<and> reading s = None \<and> r_waker s = Some 5 \<and> p_woken (pipe s) = [] \<and> writing s = None"
proof -
  let ?s = "(both_new 1 :: nat both)\<lparr>reading := Some (Rd_start 5 [0]), r_waker := Some 5, r_since := 0\<rparr>"
  have 1: "pipe_step (both_new 1 :: nat both) ?s"
    using pipe_step.read_call [of "both_new 1 :: nat both" 5 "[0]"] by (simp add: both_new_def pipe_new_def)
  let ?p = "(pipe_new 1 :: nat pipe)\<lparr>p_reader := Some 5\<rparr>"
  have "(reader_step ^^ 10) (Rd_start 5 [0], pipe ?s) = (Rd_done Pending [0], ?p)"
    by (simp add: unroll both_new_def pipe_new_def del: funpow.simps(2))
  from read_accesses [OF _ this] have 2: "pipe_step\<^sup>*\<^sup>* ?s (?s\<lparr>pipe := ?p, reading := Some (Rd_done Pending [0])\<rparr>)" by simp
  let ?e = "?s\<lparr>pipe := ?p, reading := None\<rparr>"
  have 3: "pipe_step (?s\<lparr>pipe := ?p, reading := Some (Rd_done Pending [0])\<rparr>) ?e"
    using pipe_step.read_pending [of "?s\<lparr>pipe := ?p, reading := Some (Rd_done Pending [0])\<rparr>" "[0]"] by simp
  have "pipe_step\<^sup>*\<^sup>* (both_new 1) ?e" using 1 2 3 by (meson converse_rtranclp_into_rtranclp rtranclp.rtrancl_into_rtrancl)
  then show ?thesis by (intro exI [of _ ?e]) (simp add: both_new_def pipe_new_def)
qed

theorem pipe_no_lost_wake_witness:
  "\<exists>s. pipe_step\<^sup>*\<^sup>* (both_new 1 :: nat both) s \<and> reading s = None \<and> r_waker s = Some 5 \<and> p_reader (pipe s) = Some 5
     \<and> contents (pipe s) = []"
proof -
  obtain s where s: "pipe_step\<^sup>*\<^sup>* (both_new 1 :: nat both) s" "reading s = None" "r_waker s = Some 5" "p_woken (pipe s) = []"
    "writing s = None"
    using pending_read_run by blast
  then show ?thesis using pipe_no_lost_wake [OF s(1), of 5] by auto
qed

text \<open>C20: The end can come too early.  There is a run in which a read into a nonempty slice answers zero, the
  end of the stream, while a byte that was written before the writing end closed is still in the ring: the
  reader looks at the count before the write and at the closing after it.\<close>

theorem pipe_early_end:
  "\<exists>s. pipe_step\<^sup>*\<^sup>* (both_new 1 :: nat both) s \<and> reading s = Some (Rd_done (ok 0) [0]) \<and> got s = [] \<and> gave s = [7]
     \<and> contents (pipe s) = [7]"
proof -
  let ?p = "pipe_new 1 :: nat pipe"
  let ?q = "?p\<lparr>ring := [7], p_written := 1, p_woken := []\<rparr>"
  let ?a = "(both_new 1 :: nat both)\<lparr>reading := Some (Rd_start 5 [0]), r_waker := Some 5, r_since := 0\<rparr>"
  let ?b = "?a\<lparr>pipe := ?p, reading := Some (Rd_closed 5 [0] 0)\<rparr>"
  let ?c = "?b\<lparr>writing := Some (Wr_start 6 [7]), w_waker := Some 6, w_since := 0\<rparr>"
  let ?d = "?c\<lparr>pipe := ?q, writing := Some (Wr_done (ok 1) [7])\<rparr>"
  let ?e = "?d\<lparr>writing := None, gave := [7], w_waker := None\<rparr>"
  let ?f = "?e\<lparr>writing := Some Wr_close, w_waker := None\<rparr>"
  let ?g = "?f\<lparr>pipe := ?q\<lparr>write_closed := True\<rparr>, writing := Some Wr_gone\<rparr>"
  let ?h = "?g\<lparr>pipe := ?q\<lparr>write_closed := True\<rparr>, reading := Some (Rd_done (ok 0) [0])\<rparr>"
  note sim = both_new_def pipe_new_def unroll copy_in_def Let_def wake_reader_def
  have 1: "pipe_step (both_new 1 :: nat both) ?a"
    using pipe_step.read_call [of "both_new 1 :: nat both" 5 "[0]"] by (simp add: both_new_def pipe_new_def)
  have 2: "pipe_step\<^sup>*\<^sup>* ?a ?b"
    by (rule read_accesses [where n = 3, of ?a "Rd_start 5 [0]"]) (simp_all add: sim del: funpow.simps(2))
  have 3: "pipe_step ?b ?c"
    using pipe_step.write_call [of ?b 6 "[7]"] by (simp add: both_new_def pipe_new_def)
  have 4: "pipe_step\<^sup>*\<^sup>* ?c ?d"
    by (rule write_accesses [where n = 10, of ?c "Wr_start 6 [7]"]) (simp_all add: sim del: funpow.simps(2))
  have 5: "pipe_step ?d ?e"
    using pipe_step.write_ready [of ?d "Inr 1" "[7]"] by (simp add: both_new_def)
  have 6: "pipe_step ?e ?f" using pipe_step.write_close [of ?e] by simp
  have 7: "pipe_step\<^sup>*\<^sup>* ?f ?g"
    by (rule write_accesses [where n = 2, of ?f Wr_close]) (simp_all add: sim del: funpow.simps(2))
  have 8: "pipe_step\<^sup>*\<^sup>* ?g ?h"
    by (rule read_accesses [where n = 1, of ?g "Rd_closed 5 [0] 0"]) (simp_all add: sim del: funpow.simps(2))
  have "pipe_step\<^sup>*\<^sup>* (both_new 1) ?h"
    using r_into_rtranclp [of pipe_step, OF 1] 2 r_into_rtranclp [of pipe_step, OF 3] 4
      r_into_rtranclp [of pipe_step, OF 5] r_into_rtranclp [of pipe_step, OF 6] 7 8
    by (meson rtranclp_trans)
  then show ?thesis
    by (intro exI [of _ ?h]) (simp add: both_new_def pipe_new_def contents_def span_def)
qed

end
