(* ===== verification/Io_Buffered.thy ===== *)
theory Io_Buffered
  imports Io_Pipe_Spec
begin

text \<open>
  Buffering around a reader or a writer, \<open>src/src/io/util/buffered.rs\<close>.  The stream inside is a parameter:
  its polls, and for the seeks its \<open>poll_seek\<close>.  A slice out of range panics.
\<close>

subsection \<open>Slices and seeks\<close>

definition slice :: "nat \<Rightarrow> nat \<Rightarrow> byte list \<Rightarrow> fault + byte list" where
  "slice a b xs = (if a \<le> b \<and> b \<le> length xs then Inr (take (b - a) (drop a xs)) else Inl Panicked)"

lemma slice_ok: "a \<le> b \<Longrightarrow> b \<le> length xs \<Longrightarrow> slice a b xs = Inr (take (b - a) (drop a xs))"
  by (simp add: slice_def)

text \<open>An \<open>i64\<close> is an integer in its range.\<close>

datatype seek_from = Seek_start u64 | Seek_end int | Seek_current int

type_synonym 's seeker = "seek_from \<Rightarrow> 's \<Rightarrow> u64 io \<times> 's"

definition checked_sub :: "int \<Rightarrow> int \<Rightarrow> int option" where
  "checked_sub a b = (if - (2 ^ 63) \<le> a - b \<and> a - b < 2 ^ 63 then Some (a - b) else None)"

subsection \<open>The buffered reader\<close>

definition DEFAULT_CAPACITY :: nat where "DEFAULT_CAPACITY = 8 * 1024"

record 'r buf_reader =
  br_inner :: 'r
  br_buf :: "byte list"
  br_pos :: nat
  br_cap :: nat

definition br_with_capacity :: "nat \<Rightarrow> 'r \<Rightarrow> 'r buf_reader" where
  "br_with_capacity capacity inner = \<lparr>br_inner = inner, br_buf = replicate capacity 0, br_pos = 0, br_cap = 0\<rparr>"

definition br_new :: "'r \<Rightarrow> 'r buf_reader" where
  "br_new inner = br_with_capacity DEFAULT_CAPACITY inner"

definition br_buffer :: "'r buf_reader \<Rightarrow> fault + byte list" where
  "br_buffer t = slice (br_pos t) (br_cap t) (br_buf t)"

definition discard_buffer :: "'r buf_reader \<Rightarrow> 'r buf_reader" where
  "discard_buffer t = t\<lparr>br_pos := 0, br_cap := 0\<rparr>"

definition poll_fill_buf :: "'r reader \<Rightarrow> 'r buf_reader \<Rightarrow> byte list io \<times> 'r buf_reader" where
  "poll_fill_buf rd t =
     (if br_pos t \<ge> br_cap t then
        (case rd (br_buf t) (br_inner t) of
           (p, b, r1) \<Rightarrow>
             (let t1 = t\<lparr>br_inner := r1, br_buf := overlay (br_buf t) b\<rparr>
              in case p of
                   Pending \<Rightarrow> (Pending, t1)
                 | Ready (Inl e) \<Rightarrow> (err e, t1)
                 | Ready (Inr n) \<Rightarrow>
                     (let t2 = t1\<lparr>br_pos := 0, br_cap := n\<rparr>
                      in (Ready (slice (br_pos t2) (br_cap t2) (br_buf t2)), t2))))
      else (Ready (slice (br_pos t) (br_cap t) (br_buf t)), t))"

definition br_consume :: "nat \<Rightarrow> 'r buf_reader \<Rightarrow> 'r buf_reader" where
  "br_consume amount t = t\<lparr>br_pos := min (br_pos t + amount) (br_cap t)\<rparr>"

definition br_poll_read :: "'r reader \<Rightarrow> 'r buf_reader reader" where
  "br_poll_read rd out t =
     (if br_pos t = br_cap t \<and> length out \<ge> length (br_buf t) then
        (case rd out (br_inner t) of
           (p, b, r1) \<Rightarrow>
             (let t1 = t\<lparr>br_inner := r1\<rparr>
              in case p of
                   Pending \<Rightarrow> (Pending, b, t1)
                 | Ready (Inl e) \<Rightarrow> (err e, b, t1)
                 | Ready (Inr n) \<Rightarrow> (ok n, b, discard_buffer t1)))
      else
        (case poll_fill_buf rd t of
           (Pending, t1) \<Rightarrow> (Pending, out, t1)
         | (Ready (Inl e), t1) \<Rightarrow> (err e, out, t1)
         | (Ready (Inr available), t1) \<Rightarrow>
             (let n = min (length available) (length out)
              in (ok n, take n available @ drop n out, br_consume n t1))))"

definition br_poll_seek :: "'r seeker \<Rightarrow> 'r buf_reader seeker" where
  "br_poll_seek sk pos t =
     (let seek = (\<lambda>p t. case sk p (br_inner t) of
                    (Pending, r1) \<Rightarrow> (Pending, t\<lparr>br_inner := r1\<rparr>)
                  | (Ready (Inl e), r1) \<Rightarrow> (err e, t\<lparr>br_inner := r1\<rparr>)
                  | (Ready (Inr at), r1) \<Rightarrow> (ok at, discard_buffer (t\<lparr>br_inner := r1\<rparr>)))
      in case pos of
           Seek_current n \<Rightarrow>
             if br_pos t > br_cap t then (err Panicked, t)
             else (let buffered = int (br_cap t - br_pos t)
                   in case checked_sub n buffered of
                        Some m \<Rightarrow> seek (Seek_current m) t
                      | None \<Rightarrow>
                          (case seek (Seek_current (- buffered)) t of
                             (Ready (Inr at), t1) \<Rightarrow> seek (Seek_current n) t1
                           | (p, t1) \<Rightarrow> (p, t1)))
         | other \<Rightarrow> seek other t)"

text \<open>A writer reached through the stream around it.\<close>

definition through :: "('t \<Rightarrow> 'w) \<Rightarrow> ('w \<Rightarrow> 't \<Rightarrow> 't) \<Rightarrow> ('w \<Rightarrow> 'p \<times> 'w) \<Rightarrow> 't \<Rightarrow> 'p \<times> 't" where
  "through get upd f t = (case f (get t) of (p, w1) \<Rightarrow> (p, upd w1 t))"

definition br_writer :: "'r writer \<Rightarrow> 'r buf_reader writer" where
  "br_writer W =
     (let inner = (\<lambda>w t. t\<lparr>br_inner := w\<rparr>)
      in \<lparr>poll_write = (\<lambda>b. through br_inner inner (poll_write W b)),
          poll_write_vectored = (\<lambda>b. through br_inner inner (poll_write_vectored W b)),
          poll_flush = through br_inner inner (poll_flush W),
          poll_close = through br_inner inner (poll_close W)\<rparr>)"

subsection \<open>The buffered writer\<close>

text \<open>The capacity of the vector is what the allocator gave, \<open>alloc capacity\<close>.\<close>

record 'w buf_writer =
  bw_inner :: 'w
  bw_buf :: "byte list"
  bw_cap :: nat
  bw_written :: nat

definition bw_with_capacity :: "(nat \<Rightarrow> nat) \<Rightarrow> nat \<Rightarrow> 'w \<Rightarrow> 'w buf_writer" where
  "bw_with_capacity alloc capacity inner = \<lparr>bw_inner = inner, bw_buf = [], bw_cap = alloc capacity, bw_written = 0\<rparr>"

definition bw_new :: "(nat \<Rightarrow> nat) \<Rightarrow> 'w \<Rightarrow> 'w buf_writer" where
  "bw_new alloc inner = bw_with_capacity alloc DEFAULT_CAPACITY inner"

definition bw_buffer :: "'w buf_writer \<Rightarrow> fault + byte list" where
  "bw_buffer t = slice (bw_written t) (length (bw_buf t)) (bw_buf t)"

function flush_buf :: "'w writer \<Rightarrow> 'w buf_writer \<Rightarrow> unit io \<times> 'w buf_writer" where
  "flush_buf W t =
     (if bw_written t < length (bw_buf t) then
        (case poll_write W (drop (bw_written t) (bw_buf t)) (bw_inner t) of
           (Pending, w1) \<Rightarrow> (Pending, t\<lparr>bw_inner := w1\<rparr>)
         | (Ready (Inl e), w1) \<Rightarrow> (err e, t\<lparr>bw_inner := w1\<rparr>)
         | (Ready (Inr n), w1) \<Rightarrow>
             if n = 0 then (err Write_zero, t\<lparr>bw_inner := w1\<rparr>)
             else flush_buf W (t\<lparr>bw_inner := w1, bw_written := bw_written t + n\<rparr>))
      else (ok (), t\<lparr>bw_buf := [], bw_written := 0\<rparr>))"
  by pat_completeness auto
termination
  by (relation "measure (\<lambda>(W, t). length (bw_buf t) - bw_written t)") auto

declare flush_buf.simps [simp del]

text \<open>What follows a flush that has to succeed first.\<close>

definition flushed_then :: "'w writer \<Rightarrow> ('w buf_writer \<Rightarrow> 'a io \<times> 'w buf_writer) \<Rightarrow> 'w buf_writer \<Rightarrow> 'a io \<times> 'w buf_writer" where
  "flushed_then W k t =
     (case flush_buf W t of
        (Pending, t1) \<Rightarrow> (Pending, t1)
      | (Ready (Inl e), t1) \<Rightarrow> (err e, t1)
      | (Ready (Inr _), t1) \<Rightarrow> k t1)"

definition bw_poll_write :: "'w writer \<Rightarrow> byte list \<Rightarrow> 'w buf_writer \<Rightarrow> nat io \<times> 'w buf_writer" where
  "bw_poll_write W buf t =
     (let put = (\<lambda>t. if length buf \<ge> bw_cap t then through bw_inner (\<lambda>w t. t\<lparr>bw_inner := w\<rparr>) (poll_write W buf) t
                     else (ok (length buf), t\<lparr>bw_buf := bw_buf t @ buf\<rparr>))
      in if length (bw_buf t) + length buf > bw_cap t then flushed_then W put t else put t)"

definition bw_poll_write_vectored :: "'w writer \<Rightarrow> byte list list \<Rightarrow> 'w buf_writer \<Rightarrow> nat io \<times> 'w buf_writer" where
  "bw_poll_write_vectored W bufs t =
     (let total = sum_list (map length bufs);
          put = (\<lambda>t. if total \<ge> bw_cap t then through bw_inner (\<lambda>w t. t\<lparr>bw_inner := w\<rparr>) (poll_write_vectored W bufs) t
                     else (ok total, t\<lparr>bw_buf := fold (\<lambda>b acc. acc @ b) bufs (bw_buf t)\<rparr>))
      in if length (bw_buf t) + total > bw_cap t then flushed_then W put t else put t)"

definition bw_poll_flush :: "'w writer \<Rightarrow> 'w buf_writer \<Rightarrow> unit io \<times> 'w buf_writer" where
  "bw_poll_flush W = flushed_then W (through bw_inner (\<lambda>w t. t\<lparr>bw_inner := w\<rparr>) (poll_flush W))"

definition bw_poll_close :: "'w writer \<Rightarrow> 'w buf_writer \<Rightarrow> unit io \<times> 'w buf_writer" where
  "bw_poll_close W = flushed_then W (through bw_inner (\<lambda>w t. t\<lparr>bw_inner := w\<rparr>) (poll_close W))"

definition bw_writer :: "'w writer \<Rightarrow> 'w buf_writer writer" where
  "bw_writer W =
     \<lparr>poll_write = bw_poll_write W, poll_write_vectored = bw_poll_write_vectored W,
      poll_flush = bw_poll_flush W, poll_close = bw_poll_close W\<rparr>"

definition bw_poll_read :: "'w reader \<Rightarrow> 'w buf_writer reader" where
  "bw_poll_read rd buf t = (case rd buf (bw_inner t) of (p, b, w1) \<Rightarrow> (p, b, t\<lparr>bw_inner := w1\<rparr>))"

definition bw_poll_seek :: "'w writer \<Rightarrow> 'w seeker \<Rightarrow> 'w buf_writer seeker" where
  "bw_poll_seek W sk pos = flushed_then W (through bw_inner (\<lambda>w t. t\<lparr>bw_inner := w\<rparr>) (sk pos))"

subsection \<open>Both\<close>

type_synonym 's buf_stream = "'s buf_writer buf_reader"

definition bs_with_capacity :: "(nat \<Rightarrow> nat) \<Rightarrow> nat \<Rightarrow> nat \<Rightarrow> 's \<Rightarrow> 's buf_stream" where
  "bs_with_capacity alloc r w stream = br_with_capacity r (bw_with_capacity alloc w stream)"

definition bs_new :: "(nat \<Rightarrow> nat) \<Rightarrow> 's \<Rightarrow> 's buf_stream" where
  "bs_new alloc stream = br_new (bw_new alloc stream)"

definition bs_poll_read :: "'s reader \<Rightarrow> 's buf_stream reader" where
  "bs_poll_read rd = br_poll_read (bw_poll_read rd)"

definition bs_poll_fill_buf :: "'s reader \<Rightarrow> 's buf_stream \<Rightarrow> byte list io \<times> 's buf_stream" where
  "bs_poll_fill_buf rd = poll_fill_buf (bw_poll_read rd)"

definition bs_consume :: "nat \<Rightarrow> 's buf_stream \<Rightarrow> 's buf_stream" where
  "bs_consume = br_consume"

definition bs_writer :: "'s writer \<Rightarrow> 's buf_stream writer" where
  "bs_writer W = br_writer (bw_writer W)"

end
