(* ===== verification/Io_Buffered_Spec.thy ===== *)
theory Io_Buffered_Spec
  imports Io_Buffered
begin

text \<open>
  What the buffers promise.  A buffered reader around a source is a source, of what is in its buffer and then
  what its reader has; it also lends its buffer, which is the contract \<open>buf_source\<close>.  A buffered writer around
  a sink is a sink, whose writer lags behind by what is in its buffer; after a flush it does not.
\<close>

subsection \<open>Buffered readers\<close>

definition br_ok :: "'r buf_reader \<Rightarrow> bool" where
  "br_ok t \<longleftrightarrow> br_pos t \<le> br_cap t \<and> br_cap t \<le> length (br_buf t)"

definition br_avail :: "'r buf_reader \<Rightarrow> byte list" where
  "br_avail t = take (br_cap t - br_pos t) (drop (br_pos t) (br_buf t))"

definition br_left :: "('r \<Rightarrow> byte list) \<Rightarrow> 'r buf_reader \<Rightarrow> byte list" where
  "br_left left t = br_avail t @ left (br_inner t)"

lemma br_avail_Nil: "br_ok t \<Longrightarrow> br_avail t = [] \<longleftrightarrow> br_pos t = br_cap t"
  by (auto simp: br_avail_def br_ok_def)

lemma br_new_ok: "br_ok (br_with_capacity capacity r)" "br_avail (br_with_capacity capacity r) = []"
  by (simp_all add: br_with_capacity_def br_ok_def br_avail_def)

lemma consume_avail:
  assumes "br_ok t" and "n \<le> length (br_avail t)"
  shows "br_ok (br_consume n t)" and "br_avail (br_consume n t) = drop n (br_avail t)"
  using assms by (auto simp: br_consume_def br_ok_def br_avail_def drop_take min_def add.commute)

lemma consume_inner [simp]: "br_inner (br_consume n t) = br_inner t" "length (br_buf (br_consume n t)) = length (br_buf t)"
  by (simp_all add: br_consume_def)

lemma fill_buf_held:
  assumes "br_ok t" and "br_avail t \<noteq> []"
  shows "poll_fill_buf rd t = (ok (br_avail t), t)"
proof -
  have "\<not> br_pos t \<ge> br_cap t" using assms br_avail_Nil [of t] by (auto simp: br_ok_def)
  then show ?thesis using assms(1) by (simp add: poll_fill_buf_def slice_def br_ok_def br_avail_def)
qed

text \<open>The contract of a reader that lends its buffer: what it lends is the next part of what it has, empty
  only at the end, and consuming some of it is what takes it.\<close>

locale buf_source =
  fixes fb :: "'r \<Rightarrow> byte list io \<times> 'r" and use :: "nat \<Rightarrow> 'r \<Rightarrow> 'r" and left lent :: "'r \<Rightarrow> byte list" and sound :: "'r \<Rightarrow> bool"
  assumes fill_ok: "sound r \<Longrightarrow> fb r = (ok b, r') \<Longrightarrow>
      b = lent r' \<and> left r' = left r \<and> sound r' \<and> (b = [] \<longrightarrow> left r = [])"
    and fill_wait: "sound r \<Longrightarrow> fb r = (Pending, r') \<Longrightarrow> left r' = left r \<and> sound r'"
    and fill_err: "sound r \<Longrightarrow> fb r = (err e, r') \<Longrightarrow> left r' = left r \<and> sound r' \<and> e \<noteq> Panicked"
    and lent_next: "sound r \<Longrightarrow> take (length (lent r)) (left r) = lent r"
    and use_ok: "sound r \<Longrightarrow> n \<le> length (lent r) \<Longrightarrow> left (use n r) = drop n (left r) \<and> sound (use n r)"

context byte_source
begin

abbreviation "br_sound \<equiv> (\<lambda>t. br_ok t \<and> sound (br_inner t))"

lemma fill_buf_cases:
  assumes t: "br_ok t" "sound (br_inner t)" and f: "poll_fill_buf rd t = (p, t')"
  shows "br_ok t' \<and> sound (br_inner t') \<and> br_left left t' = br_left left t \<and> length (br_buf t') = length (br_buf t)
    \<and> p \<noteq> err Panicked \<and> (\<forall>b. p = ok b \<longrightarrow> b = br_avail t' \<and> (b = [] \<longrightarrow> br_buf t = [] \<or> br_left left t = []))"
proof (cases "br_avail t = []")
  case False
  then show ?thesis using fill_buf_held [OF t(1), of rd] f t by auto
next
  case True
  then have e: "br_pos t = br_cap t" using br_avail_Nil [OF t(1)] by simp
  obtain q b r1 where q: "rd (br_buf t) (br_inner t) = (q, b, r1)" by (metis prod_cases3)
  show ?thesis
  proof (cases q rule: io_cases)
    case Wait
    then show ?thesis using f q e t True read_wait [OF t(2), of "br_buf t" b r1]
      by (auto simp: poll_fill_buf_def br_ok_def br_left_def br_avail_def Let_def)
  next
    case (Err x)
    then show ?thesis using f q e t True read_err [OF t(2), of "br_buf t" x b r1]
      by (auto simp: poll_fill_buf_def br_ok_def br_left_def br_avail_def Let_def)
  next
    case (Ok n)
    note law = read_ok [OF t(2) q [unfolded Ok]]
    have t': "t' = t\<lparr>br_inner := r1, br_buf := overlay (br_buf t) b, br_pos := 0, br_cap := n\<rparr>"
      and p: "p = ok (take n (overlay (br_buf t) b))"
      using f q e Ok law by (auto simp: poll_fill_buf_def Let_def slice_def)
    have a: "br_avail t' = take n (left (br_inner t))" using law by (simp add: t' br_avail_def)
    show ?thesis using law True p a by (auto simp: t' br_ok_def br_left_def br_avail_def)
  qed
qed

lemma br_source: "byte_source (br_poll_read rd) (br_left left) br_sound"
proof
  fix t out n b t'
  assume t: "br_ok t \<and> sound (br_inner t)" and r: "br_poll_read rd out t = (ok n, b, t')"
  show "n \<le> length out \<and> n \<le> length (br_left left t) \<and> take n (overlay out b) = take n (br_left left t)
    \<and> br_left left t' = drop n (br_left left t) \<and> (br_ok t' \<and> sound (br_inner t')) \<and> (n = 0 \<longrightarrow> out = [] \<or> br_left left t = [])"
  proof (cases "br_pos t = br_cap t \<and> length out \<ge> length (br_buf t)")
    case True
    then obtain r1 where q: "rd out (br_inner t) = (ok n, b, r1)" and t': "t' = discard_buffer (t\<lparr>br_inner := r1\<rparr>)"
      using r by (auto simp: br_poll_read_def Let_def split: prod.splits poll.splits sum.splits)
    have "br_avail t = []" using True t br_avail_Nil [of t] by simp
    then show ?thesis using read_ok [of "br_inner t", OF _ q] t
      by (auto simp: br_left_def t' discard_buffer_def br_avail_def br_ok_def)
  next
    case False
    then obtain a t1 where f: "poll_fill_buf rd t = (ok a, t1)" and n: "n = min (length a) (length out)"
      and b: "b = take n a @ drop n out" and t': "t' = br_consume n t1"
      using r by (auto simp: br_poll_read_def Let_def split: prod.splits poll.splits sum.splits)
    note law = fill_buf_cases [of t, OF _ _ f]
    have a: "a = br_avail t1" "br_ok t1" "sound (br_inner t1)" "br_left left t1 = br_left left t"
      "a = [] \<Longrightarrow> br_buf t = [] \<or> br_left left t = []"
      using law t by auto
    have c: "br_ok t'" "br_avail t' = drop n a" using consume_avail [OF a(2), of n] n a(1) by (auto simp: t')
    have e: "br_left left t = a @ left (br_inner t1)" using a by (simp add: br_left_def)
    have "a = [] \<Longrightarrow> br_left left t = []" using a(5) False a(4) t br_avail_Nil [of t] by (auto simp: br_ok_def)
    moreover have "br_left left t' = drop n a @ left (br_inner t1)" using c(2) by (simp add: br_left_def t')
    ultimately show ?thesis using n c(1) a(3) unfolding e by (auto simp: b t' min_def)
  qed
next
  fix t out b t'
  assume t: "br_ok t \<and> sound (br_inner t)" and r: "br_poll_read rd out t = (Pending, b, t')"
  show "br_left left t' = br_left left t \<and> br_ok t' \<and> sound (br_inner t')"
  proof (cases "br_pos t = br_cap t \<and> length out \<ge> length (br_buf t)")
    case True
    then obtain r1 where q: "rd out (br_inner t) = (Pending, b, r1)" and t': "t' = t\<lparr>br_inner := r1\<rparr>"
      using r by (auto simp: br_poll_read_def Let_def split: prod.splits poll.splits sum.splits)
    then show ?thesis using read_wait [of "br_inner t", OF _ q] t by (auto simp: br_left_def br_avail_def br_ok_def)
  next
    case False
    then have "poll_fill_buf rd t = (Pending, t')"
      using r by (auto simp: br_poll_read_def Let_def split: prod.splits poll.splits sum.splits)
    then show ?thesis using fill_buf_cases [of t Pending t'] t by simp
  qed
next
  fix t out e b t'
  assume t: "br_ok t \<and> sound (br_inner t)" and r: "br_poll_read rd out t = (err e, b, t')"
  show "br_left left t' = br_left left t \<and> (br_ok t' \<and> sound (br_inner t')) \<and> e \<noteq> Panicked"
  proof (cases "br_pos t = br_cap t \<and> length out \<ge> length (br_buf t)")
    case True
    then obtain r1 where q: "rd out (br_inner t) = (err e, b, r1)" and t': "t' = t\<lparr>br_inner := r1\<rparr>"
      using r by (auto simp: br_poll_read_def Let_def split: prod.splits poll.splits sum.splits)
    then show ?thesis using read_err [of "br_inner t", OF _ q] t by (auto simp: br_left_def br_avail_def br_ok_def)
  next
    case False
    then have "poll_fill_buf rd t = (err e, t')"
      using r by (auto simp: br_poll_read_def Let_def split: prod.splits poll.splits sum.splits)
    then show ?thesis using fill_buf_cases [of t "err e" t'] t by simp
  qed
qed

lemma br_buf_source: "buf_source (poll_fill_buf rd) br_consume (br_left left) br_avail (\<lambda>t. br_sound t \<and> br_buf t \<noteq> [])"
proof
  fix t b t' assume t: "br_sound t \<and> br_buf t \<noteq> []" and f: "poll_fill_buf rd t = (ok b, t')"
  have "br_buf t' \<noteq> []" using fill_buf_cases [of t "ok b" t'] t f by (metis length_0_conv)
  then show "b = br_avail t' \<and> br_left left t' = br_left left t \<and> (br_sound t' \<and> br_buf t' \<noteq> []) \<and> (b = [] \<longrightarrow> br_left left t = [])"
    using fill_buf_cases [of t "ok b" t'] t f by simp
next
  fix t t' assume t: "br_sound t \<and> br_buf t \<noteq> []" and f: "poll_fill_buf rd t = (Pending, t')"
  have "br_buf t' \<noteq> []" using fill_buf_cases [of t Pending t'] t f by (metis length_0_conv)
  then show "br_left left t' = br_left left t \<and> br_sound t' \<and> br_buf t' \<noteq> []"
    using fill_buf_cases [of t Pending t'] t f by simp
next
  fix t e t' assume t: "br_sound t \<and> br_buf t \<noteq> []" and f: "poll_fill_buf rd t = (err e, t')"
  have "br_buf t' \<noteq> []" using fill_buf_cases [of t "err e" t'] t f by (metis length_0_conv)
  then show "br_left left t' = br_left left t \<and> (br_sound t' \<and> br_buf t' \<noteq> []) \<and> e \<noteq> Panicked"
    using fill_buf_cases [of t "err e" t'] t f by simp
next
  fix t n assume "br_sound t \<and> br_buf t \<noteq> []" and "n \<le> length (br_avail t)"
  then show "br_left left (br_consume n t) = drop n (br_left left t) \<and> br_sound (br_consume n t) \<and> br_buf (br_consume n t) \<noteq> []"
    using consume_avail [of t n] by (auto simp: br_left_def br_consume_def)
qed (auto simp: br_left_def)

end

subsection \<open>Buffered writers\<close>

definition bw_ok :: "'w buf_writer \<Rightarrow> bool" where
  "bw_ok t \<longleftrightarrow> bw_written t \<le> length (bw_buf t) \<and> length (bw_buf t) \<le> bw_cap t"

definition bw_rest :: "'w buf_writer \<Rightarrow> byte list" where
  "bw_rest t = drop (bw_written t) (bw_buf t)"

definition bw_took :: "('w \<Rightarrow> byte list \<Rightarrow> 'w \<Rightarrow> bool) \<Rightarrow> 'w buf_writer \<Rightarrow> byte list \<Rightarrow> 'w buf_writer \<Rightarrow> bool" where
  "bw_took took t a t' \<longleftrightarrow> (\<exists>c. took (bw_inner t) c (bw_inner t') \<and> c @ bw_rest t' = bw_rest t @ a)"

context byte_sink
begin

abbreviation "bw_sane \<equiv> (\<lambda>t. bw_ok t \<and> sane (bw_inner t))"

lemma bw_took_nothing: "bw_took took t [] t"
  using took_nothing by (auto simp: bw_took_def)

lemma bw_took_both:
  assumes "bw_took took t a t1" and "bw_took took t1 b t2"
  shows "bw_took took t (a @ b) t2"
proof -
  obtain c d where c: "took (bw_inner t) c (bw_inner t1)" "c @ bw_rest t1 = bw_rest t @ a"
    and d: "took (bw_inner t1) d (bw_inner t2)" "d @ bw_rest t2 = bw_rest t1 @ b"
    using assms by (auto simp: bw_took_def)
  have "(c @ d) @ bw_rest t2 = bw_rest t @ (a @ b)" using c(2) d(2) by (metis append.assoc)
  then show ?thesis using took_both [OF c(1) d(1)] by (auto simp: bw_took_def)
qed

lemma flush_buf_took:
  assumes "bw_sane t" and "flush_buf W t = (p, t')"
  shows "bw_took took t [] t' \<and> bw_sane t' \<and> p \<noteq> err Panicked \<and> bw_cap t' = bw_cap t
    \<and> (p = ok () \<longrightarrow> bw_buf t' = [] \<and> bw_written t' = 0)"
  using assms
proof (induction "length (bw_buf t) - bw_written t" arbitrary: t rule: less_induct)
  case less
  show ?case
  proof (cases "bw_written t < length (bw_buf t)")
    case False
    then have "p = ok ()" "t' = t\<lparr>bw_buf := [], bw_written := 0\<rparr>" using less.prems(2) by (auto simp: flush_buf.simps [of W t])
    then show ?thesis using less.prems(1) False took_nothing by (auto simp: bw_took_def bw_rest_def bw_ok_def)
  next
    case True
    obtain q w1 where q: "poll_write W (drop (bw_written t) (bw_buf t)) (bw_inner t) = (q, w1)" by fastforce
    have s: "sane (bw_inner t)" using less.prems(1) by simp
    show ?thesis
    proof (cases "\<exists>n. q = ok n \<and> n \<noteq> 0")
      case False
      note run = less.prems(2) [unfolded flush_buf.simps [of W t], unfolded q, simplified \<open>bw_written t < length (bw_buf t)\<close>]
      have "t' = t\<lparr>bw_inner := w1\<rparr> \<and> p \<noteq> ok () \<and> p \<noteq> err Panicked \<and> took (bw_inner t) [] w1 \<and> sane w1"
      proof (cases q rule: io_cases)
        case Wait
        then show ?thesis using run write_not [OF s q] by simp
      next
        case (Err e)
        then show ?thesis using run write_not [OF s q] by auto
      next
        case (Ok n)
        then show ?thesis using run write_ok [OF s q [unfolded Ok]] False by auto
      qed
      then show ?thesis using less.prems(1) by (auto simp: bw_took_def bw_rest_def bw_ok_def)
    next
      case True
      then obtain n where n: "q = ok n" "n \<noteq> 0" by auto
      note law = write_ok [OF s q [unfolded n(1)]]
      let ?t1 = "t\<lparr>bw_inner := w1, bw_written := bw_written t + n\<rparr>"
      have f: "flush_buf W ?t1 = (p, t')"
        using less.prems(2) q n \<open>bw_written t < length (bw_buf t)\<close> by (simp add: flush_buf.simps [of W t])
      have t1: "bw_sane ?t1" using less.prems(1) law by (auto simp: bw_ok_def)
      have "take n (bw_rest t) @ bw_rest ?t1 = bw_rest t" by (simp add: bw_rest_def) (metis add.commute append_take_drop_id drop_drop)
      then have b: "bw_took took t [] ?t1" using law by (auto simp: bw_took_def bw_rest_def)
      have d: "length (bw_buf ?t1) - bw_written ?t1 < length (bw_buf t) - bw_written t"
        using n \<open>bw_written t < length (bw_buf t)\<close> by simp
      show ?thesis using less.hyps [OF d t1 f] bw_took_both [OF b, of "[]" t'] by simp
    qed
  qed
qed

lemma flushed_then_cases:
  assumes "bw_sane t" and "flushed_then W k t = (p, t')"
  obtains (stuck) "bw_took took t [] t'" "bw_sane t'" "\<And>a. p \<noteq> ok a" "p \<noteq> err Panicked"
  | (through) t1 where "bw_took took t [] t1" "bw_sane t1" "bw_buf t1 = []" "bw_written t1 = 0" "bw_cap t1 = bw_cap t"
      "k t1 = (p, t')"
proof -
  obtain q t1 where q: "flush_buf W t = (q, t1)" by fastforce
  note law = flush_buf_took [OF assms(1) q]
  show thesis
  proof (cases q rule: io_cases)
    case (Ok u)
    then show thesis using through [of t1] law q assms(2) by (simp add: flushed_then_def)
  qed (use stuck law q assms(2) in \<open>auto simp: flushed_then_def\<close>)
qed

lemma bw_put_cases:
  assumes "bw_sane t" and "length (bw_buf t) + length b \<le> bw_cap t \<or> bw_buf t = []"
    and "(if length b \<ge> bw_cap t then through bw_inner (\<lambda>w t. t\<lparr>bw_inner := w\<rparr>) (poll_write W b) t
          else (ok (length b), t\<lparr>bw_buf := bw_buf t @ b\<rparr>)) = (p, t')"
    and "bw_rest t = [] \<or> length b < bw_cap t \<or> b = []"
  shows "bw_sane t' \<and> p \<noteq> err Panicked \<and> (case p of Ready (Inr n) \<Rightarrow> n \<le> length b \<and> bw_took took t (take n b) t'
    | _ \<Rightarrow> bw_took took t [] t')"
proof (cases "length b \<ge> bw_cap t")
  case False
  then have p: "p = ok (length b)" "t' = t\<lparr>bw_buf := bw_buf t @ b\<rparr>" using assms(3) by auto
  have "bw_rest t' = bw_rest t @ b" using assms(1) by (simp add: p bw_rest_def bw_ok_def)
  then show ?thesis using assms(1,2) False took_nothing by (auto simp: p bw_took_def bw_ok_def)
next
  case True
  then obtain w1 where q: "poll_write W b (bw_inner t) = (p, w1)" and t': "t' = t\<lparr>bw_inner := w1\<rparr>"
    using assms(3) by (auto simp: through_def split: prod.splits)
  have s: "sane (bw_inner t)" and r: "bw_rest t' = bw_rest t" using assms(1) by (auto simp: t' bw_rest_def)
  have e: "bw_rest t = [] \<or> b = []" using assms(4) True by auto
  show ?thesis
  proof (cases p rule: io_cases)
    case (Ok n)
    have "n \<le> length b" "took (bw_inner t) (take n b) w1" "sane w1" using write_ok [OF s q [unfolded Ok]] by auto
    then show ?thesis using assms(1) e r by (auto simp: Ok bw_took_def t' bw_ok_def)
  qed (use write_not [OF s q] assms(1) r in \<open>auto simp: bw_took_def t' bw_ok_def\<close>)
qed

lemma bw_poll_write_cases:
  assumes "bw_sane t" and "bw_poll_write W b t = (p, t')"
  shows "bw_sane t' \<and> p \<noteq> err Panicked \<and> (case p of Ready (Inr n) \<Rightarrow> n \<le> length b \<and> bw_took took t (take n b) t'
    | _ \<Rightarrow> bw_took took t [] t')"
proof (cases "length (bw_buf t) + length b > bw_cap t")
  case False
  then have "bw_rest t = [] \<or> length b < bw_cap t \<or> b = []" by (auto simp: bw_rest_def)
  from bw_put_cases [OF assms(1) _ _ this, of p t'] show ?thesis
    using assms(2) False by (simp add: bw_poll_write_def Let_def)
next
  case True
  let ?put = "\<lambda>t. if length b \<ge> bw_cap t then through bw_inner (\<lambda>w t. t\<lparr>bw_inner := w\<rparr>) (poll_write W b) t
          else (ok (length b), t\<lparr>bw_buf := bw_buf t @ b\<rparr>)"
  have "flushed_then W ?put t = (p, t')" using assms(2) True by (simp add: bw_poll_write_def Let_def)
  with assms(1) show ?thesis
  proof (cases rule: flushed_then_cases)
    case stuck
    then show ?thesis by (cases p rule: io_cases) auto
  next
    case (through t1)
    have "bw_rest t1 = [] \<or> length b < bw_cap t1 \<or> b = []" using through by (simp add: bw_rest_def)
    from bw_put_cases [OF through(2) _ through(6) this] through(3)
    have "bw_sane t' \<and> p \<noteq> err Panicked \<and> (case p of Ready (Inr n) \<Rightarrow> n \<le> length b \<and> bw_took took t1 (take n b) t'
      | _ \<Rightarrow> bw_took took t1 [] t')" by simp
    then show ?thesis using bw_took_both [OF through(1)] by (cases p rule: io_cases) fastforce+
  qed
qed

lemma bw_after_flush:
  assumes "bw_sane t" and "flushed_then W (through bw_inner (\<lambda>w t. t\<lparr>bw_inner := w\<rparr>) f) t = (p, t')"
    and law: "\<And>w q w'. sane w \<Longrightarrow> f w = (q, w') \<Longrightarrow> took w [] w' \<and> sane w' \<and> q \<noteq> err Panicked"
  shows "bw_took took t [] t' \<and> bw_sane t' \<and> p \<noteq> err Panicked \<and> (\<forall>x. p = ok x \<longrightarrow> bw_rest t' = [])"
  using assms(1,2)
proof (cases rule: flushed_then_cases)
  case (through t1)
  obtain w1 where q: "f (bw_inner t1) = (p, w1)" and t': "t' = t1\<lparr>bw_inner := w1\<rparr>"
    using through(6) by (auto simp: through_def split: prod.splits)
  have l: "took (bw_inner t1) [] w1 \<and> sane w1 \<and> p \<noteq> err Panicked" using law [OF _ q] through(2) by simp
  then have "bw_took took t1 [] t'" by (auto simp: bw_took_def t' bw_rest_def)
  from bw_took_both [OF through(1) this] show ?thesis using l through(2-5) by (auto simp: t' bw_ok_def bw_rest_def)
qed auto

lemma bw_flush_cases:
  assumes "bw_sane t" and "bw_poll_flush W t = (p, t')"
  shows "bw_took took t [] t' \<and> bw_sane t' \<and> p \<noteq> err Panicked \<and> (\<forall>x. p = ok x \<longrightarrow> bw_rest t' = [])"
  using bw_after_flush [OF assms(1) assms(2) [unfolded bw_poll_flush_def]] flushed by blast

lemma bw_close_cases:
  assumes "bw_sane t" and "bw_poll_close W t = (p, t')"
  shows "bw_took took t [] t' \<and> bw_sane t' \<and> p \<noteq> err Panicked \<and> (\<forall>x. p = ok x \<longrightarrow> bw_rest t' = [])"
  using bw_after_flush [OF assms(1) assms(2) [unfolded bw_poll_close_def]] closed by blast

lemma bw_sink: "byte_sink (bw_writer W) (bw_took took) bw_sane"
proof
  fix t b n t' assume "bw_sane t" and "poll_write (bw_writer W) b t = (ok n, t')"
  then show "n \<le> length b \<and> bw_took took t (take n b) t' \<and> bw_sane t'"
    using bw_poll_write_cases [of t b "ok n" t'] by (simp add: bw_writer_def)
next
  fix t b p t' assume t: "bw_sane t" and r: "poll_write (bw_writer W) b t = (p, t')" and p: "\<And>n. p \<noteq> ok n"
  have "bw_poll_write W b t = (p, t')" using r by (simp add: bw_writer_def)
  note law = bw_poll_write_cases [OF t this]
  show "bw_took took t [] t' \<and> bw_sane t' \<and> p \<noteq> err Panicked"
  proof (cases p rule: io_cases)
    case Wait
    show ?thesis using law unfolding Wait by simp
  next
    case (Err e)
    show ?thesis using law unfolding Err by simp
  next
    case (Ok n)
    then show ?thesis using p [of n] by blast
  qed
next
  fix t q t' assume "bw_sane t" and "poll_flush (bw_writer W) t = (q, t')"
  then show "bw_took took t [] t' \<and> bw_sane t' \<and> q \<noteq> err Panicked"
    using bw_flush_cases [of t q t'] by (simp add: bw_writer_def)
next
  fix t q t' assume "bw_sane t" and "poll_close (bw_writer W) t = (q, t')"
  then show "bw_took took t [] t' \<and> bw_sane t' \<and> q \<noteq> err Panicked"
    using bw_close_cases [of t q t'] by (simp add: bw_writer_def)
qed (auto intro: bw_took_nothing bw_took_both)

end

subsection \<open>Buffers around pipes\<close>

interpretation buffered_pipe: byte_source "br_poll_read (pipe_poll_read w)" "br_left contents" "\<lambda>t. br_ok t \<and> pipe_ok (br_inner t)" for w
  by (rule piped.br_source)

interpretation lent_pipe: buf_source "poll_fill_buf (pipe_poll_read w)" br_consume "br_left contents" br_avail
    "\<lambda>t. (br_ok t \<and> pipe_ok (br_inner t)) \<and> br_buf t \<noteq> []" for w
  by (rule piped.br_buf_source)

interpretation gathering_pipe: byte_sink "bw_writer (pipe_writer w)" "bw_took pipe_took" "\<lambda>t. bw_ok t \<and> pipe_ok (bw_inner t)" for w
  by (rule piping.bw_sink)

subsection \<open>Properties\<close>

text \<open>C23: Reading through a buffer changes nothing: a read gives the next bytes of what is buffered and then of
  the reader, leaves the rest in order, and answers zero to a nonempty slice only when both are at their
  end, whether it went through the buffer or past it.\<close>

theorem buffered_reads:
  assumes "byte_source rd left sound" and "br_ok t" and "sound (br_inner t)" and "br_poll_read rd out t = (ok n, b, t')"
  shows "n \<le> length out \<and> take n (overlay out b) = take n (br_left left t) \<and> br_left left t' = drop n (br_left left t)
    \<and> (n = 0 \<longrightarrow> out = [] \<or> br_left left t = []) \<and> br_ok t'"
  using byte_source.read_ok [OF byte_source.br_source [OF assms(1)] _ assms(4)] assms(2,3) by simp

theorem buffered_reads_witness:
  "\<exists>b t'. br_poll_read slice_read [0, 0] (br_with_capacity 4 [1, 2, 3]) = (ok 2, b, t') \<and> b = [1, 2]
     \<and> br_left (\<lambda>r. r) t' = [3]"
proof -
  let ?t = "br_with_capacity 4 [1, 2, 3] :: byte list buf_reader"
  have r: "br_poll_read slice_read [0, 0] ?t = (ok 2, [1, 2], \<lparr>br_inner = [], br_buf = [1, 2, 3, 0], br_pos = 2, br_cap = 3\<rparr>)"
    by (simp add: br_poll_read_def br_with_capacity_def poll_fill_buf_def slice_read_def overlay_def slice_def br_consume_def
        Let_def eval_nat_numeral)
  from buffered_reads [OF slice_source br_new_ok(1) _ r] show ?thesis
    using r by (auto simp: br_left_def br_avail_def)
qed

text \<open>The bytes a buffered writer took over a run of writes, flushes and closes, whatever each answered.\<close>

datatype bw_op = Bw_write "byte list" | Bw_flush | Bw_close

fun bw_ops :: "'w writer \<Rightarrow> bw_op list \<Rightarrow> 'w buf_writer \<Rightarrow> byte list \<times> 'w buf_writer" where
  "bw_ops W [] t = ([], t)"
| "bw_ops W (Bw_write b # ops) t =
     (case bw_poll_write W b t of
        (p, t1) \<Rightarrow> (case bw_ops W ops t1 of (acc, t2) \<Rightarrow> ((case p of Ready (Inr n) \<Rightarrow> take n b | _ \<Rightarrow> []) @ acc, t2)))"
| "bw_ops W (Bw_flush # ops) t = bw_ops W ops (snd (bw_poll_flush W t))"
| "bw_ops W (Bw_close # ops) t = bw_ops W ops (snd (bw_poll_close W t))"

context byte_sink
begin

lemma bw_ops_took:
  assumes "bw_sane t" and "bw_ops W ops t = (acc, t')"
  shows "bw_took took t acc t' \<and> bw_sane t'"
  using assms
proof (induction ops arbitrary: t acc)
  case Nil
  then show ?case using bw_took_nothing by auto
next
  case (Cons op ops)
  show ?case
  proof (cases op)
    case (Bw_write b)
    obtain p t1 acc1 where q: "bw_poll_write W b t = (p, t1)" and r: "bw_ops W ops t1 = (acc1, t')"
      and acc: "acc = (case p of Ready (Inr n) \<Rightarrow> take n b | _ \<Rightarrow> []) @ acc1"
      using Cons.prems(2) Bw_write by (auto split: prod.splits)
    note law = bw_poll_write_cases [OF Cons.prems(1) q]
    have "bw_took took t (case p of Ready (Inr n) \<Rightarrow> take n b | _ \<Rightarrow> []) t1"
      using law by (cases p rule: io_cases) auto
    then show ?thesis using Cons.IH [OF _ r] law bw_took_both by (auto simp: acc)
  next
    case Bw_flush
    obtain p t1 where q: "bw_poll_flush W t = (p, t1)" by fastforce
    show ?thesis using bw_flush_cases [OF Cons.prems(1) q] Cons.IH [of t1 acc] Cons.prems(2) Bw_flush q
        bw_took_both [of t "[]" t1 acc t'] by simp
  next
    case Bw_close
    obtain p t1 where q: "bw_poll_close W t = (p, t1)" by fastforce
    show ?thesis using bw_close_cases [OF Cons.prems(1) q] Cons.IH [of t1 acc] Cons.prems(2) Bw_close q
        bw_took_both [of t "[]" t1 acc t'] by simp
  qed
qed

end

text \<open>C13: A flush leaves nothing behind.  Whatever writes, flushes and closes a new buffered writer went
  through, and whatever they answered, once a flush succeeds its writer has taken exactly the bytes the
  writes accepted, in order.\<close>

theorem buffered_flush_delivers:
  assumes "byte_sink W took sane" and "sane w" and "bw_ops W ops (bw_with_capacity alloc capacity w) = (acc, t)"
    and "bw_poll_flush W t = (ok (), t')"
  shows "took w acc (bw_inner t') \<and> bw_rest t' = []"
proof -
  have t0: "bw_ok (bw_with_capacity alloc capacity w)" "bw_inner (bw_with_capacity alloc capacity w) = w"
    "bw_rest (bw_with_capacity alloc capacity w) = []"
    by (simp_all add: bw_ok_def bw_with_capacity_def bw_rest_def)
  have r: "bw_took took (bw_with_capacity alloc capacity w) acc t \<and> bw_ok t \<and> sane (bw_inner t)"
    using byte_sink.bw_ops_took [OF assms(1) _ assms(3)] t0 assms(2) by simp
  have f: "bw_took took t [] t' \<and> bw_rest t' = []" using byte_sink.bw_flush_cases [OF assms(1) _ assms(4)] r by simp
  have "bw_took took (bw_with_capacity alloc capacity w) (acc @ []) t'"
    using byte_sink.bw_took_both [OF assms(1)] r f by blast
  then show ?thesis using t0 f by (simp add: bw_took_def)
qed

theorem buffered_flush_delivers_witness:
  "\<exists>t t'. bw_ops (pipe_writer (5 :: nat)) [Bw_write [1], Bw_write [2]] (bw_with_capacity (\<lambda>c. c) 4 (pipe_new 8)) = ([1, 2], t)
     \<and> bw_poll_flush (pipe_writer 5) t = (ok (), t') \<and> contents (bw_inner t') = [1, 2]"
proof -
  let ?w = "pipe_new 8 :: nat pipe" and ?W = "pipe_writer (5 :: nat)"
  let ?t = "\<lparr>bw_inner = ?w, bw_buf = [1, 2], bw_cap = 4, bw_written = 0\<rparr>"
  have o: "bw_ops ?W [Bw_write [1], Bw_write [2]] (bw_with_capacity (\<lambda>c. c) 4 ?w) = ([1, 2], ?t)"
    by (simp add: bw_poll_write_def bw_with_capacity_def Let_def)
  have w: "pipe_ok ?w" "contents ?w = []" by (simp_all add: pipe_new_def pipe_ok_def contents_def)
  obtain p' where p': "pipe_poll_write 5 [1, 2] ?w = (ok 2, p')"
    using pipe_poll_write_room [OF w(1), of "[1, 2]" 5] w(2) by (auto simp: pipe_new_def eval_nat_numeral)
  have f: "bw_poll_flush ?W ?t = (ok (), \<lparr>bw_inner = p', bw_buf = [], bw_cap = 4, bw_written = 0\<rparr>)"
    using p' by (simp add: bw_poll_flush_def flushed_then_def flush_buf.simps pipe_writer_def through_def)
  show ?thesis
    using buffered_flush_delivers [OF piping.byte_sink_axioms w(1) o f] o f w(2) by (auto simp: pipe_took_def)
qed

end
