(* ===== verification/Io_Bufread.thy ===== *)
theory Io_Bufread
  imports Io_Buffered_Spec
begin

text \<open>
  The reads every buffered reader gets, \<open>src/src/io/util/buf_read_ext.rs\<close>: up to a byte, a line, line by line
  and segment by segment, and the read to a string of \<open>read_ext.rs\<close>.  The buffered reader is a parameter, its
  \<open>poll_fill_buf\<close> and its \<open>consume\<close>.  Each future keeps what it has read so far, so that a pending poll loses
  nothing.
\<close>

subsection \<open>UTF-8\<close>

text \<open>The check of \<open>String::from_utf8\<close>: how long the first character is, if it is one.\<close>

definition utf8_cont :: "byte \<Rightarrow> bool" where
  "utf8_cont b \<longleftrightarrow> 0x80 \<le> b \<and> b \<le> 0xBF"

fun utf8_char :: "byte list \<Rightarrow> nat option" where
  "utf8_char [] = None"
| "utf8_char (a # bs) =
     (if a < 0x80 then Some 1
      else case bs of
        [] \<Rightarrow> None
      | b # cs \<Rightarrow>
          if 0xC2 \<le> a \<and> a \<le> 0xDF then (if utf8_cont b then Some 2 else None)
          else case cs of
            [] \<Rightarrow> None
          | c # ds \<Rightarrow>
              if a = 0xE0 \<and> 0xA0 \<le> b \<and> b \<le> 0xBF \<or> 0xE1 \<le> a \<and> a \<le> 0xEC \<and> utf8_cont b
                 \<or> a = 0xED \<and> 0x80 \<le> b \<and> b \<le> 0x9F \<or> 0xEE \<le> a \<and> a \<le> 0xEF \<and> utf8_cont b
              then (if utf8_cont c then Some 3 else None)
              else case ds of
                [] \<Rightarrow> None
              | d # _ \<Rightarrow>
                  if (a = 0xF0 \<and> 0x90 \<le> b \<and> b \<le> 0xBF \<or> 0xF1 \<le> a \<and> a \<le> 0xF3 \<and> utf8_cont b
                      \<or> a = 0xF4 \<and> 0x80 \<le> b \<and> b \<le> 0x8F) \<and> utf8_cont c \<and> utf8_cont d
                  then Some 4 else None)"

lemma utf8_char_some:
  assumes "utf8_char bs = Some n"
  shows "0 < n \<and> n \<le> length bs"
  using assms by (cases bs) (auto split: if_splits list.splits)

function utf8_valid :: "byte list \<Rightarrow> bool" where
  "utf8_valid bs = (bs = [] \<or> (case utf8_char bs of None \<Rightarrow> False | Some n \<Rightarrow> utf8_valid (drop n bs)))"
  by pat_completeness auto
termination
  by (relation "measure length") (auto dest: utf8_char_some)

declare utf8_valid.simps [simp del]

subsection \<open>Up to a byte\<close>

fun memchr :: "byte \<Rightarrow> byte list \<Rightarrow> nat option" where
  "memchr byte [] = None"
| "memchr byte (b # bs) = (if b = byte then Some 0 else map_option Suc (memchr byte bs))"

partial_function (option) read_until :: "('r \<Rightarrow> byte list io \<times> 'r) \<Rightarrow> (nat \<Rightarrow> 'r \<Rightarrow> 'r) \<Rightarrow> byte \<Rightarrow> byte list \<Rightarrow> nat \<Rightarrow> 'r
    \<Rightarrow> (nat io \<times> byte list \<times> nat \<times> 'r) option" where
  "read_until fb use byte buf read r =
     (case fb r of
        (p, r1) \<Rightarrow>
          (case p of
             Pending \<Rightarrow> Some (Pending, buf, read, r1)
           | Ready res \<Rightarrow>
               (case res of
                  Inl e \<Rightarrow> Some (err e, buf, read, r1)
                | Inr available \<Rightarrow>
                    (case memchr byte available of
                       Some i \<Rightarrow> Some (ok (read + (i + 1)), buf @ take (i + 1) available, 0, use (i + 1) r1)
                     | None \<Rightarrow>
                         if available = [] then Some (ok read, buf, 0, use 0 r1)
                         else read_until fb use byte (buf @ available) (read + length available)
                                (use (length available) r1)))))"

declare read_until.simps [code]

definition read_until_poll :: "('r \<Rightarrow> byte list io \<times> 'r) \<Rightarrow> (nat \<Rightarrow> 'r \<Rightarrow> 'r) \<Rightarrow> byte \<Rightarrow> byte list \<Rightarrow> nat \<Rightarrow> 'r
    \<Rightarrow> (nat io \<times> byte list \<times> nat \<times> 'r) option" where
  "read_until_poll fb use byte buf read r = read_until fb use byte buf read r"

subsection \<open>A line into a string\<close>

record read_line =
  rl_buf :: "byte list"
  rl_bytes :: "byte list"
  rl_read :: nat

definition read_line_new :: "byte list \<Rightarrow> read_line" where
  "read_line_new buf = \<lparr>rl_buf = buf, rl_bytes = [], rl_read = 0\<rparr>"

definition read_line_poll :: "('r \<Rightarrow> byte list io \<times> 'r) \<Rightarrow> (nat \<Rightarrow> 'r \<Rightarrow> 'r) \<Rightarrow> read_line \<Rightarrow> 'r \<Rightarrow> (nat io \<times> read_line \<times> 'r) option" where
  "read_line_poll fb use t r =
     map_option (\<lambda>(p, bytes, read, r1).
       (let t1 = t\<lparr>rl_bytes := bytes, rl_read := read\<rparr>
        in case p of
             Pending \<Rightarrow> (Pending, t1, r1)
           | Ready (Inl e) \<Rightarrow> (err e, t1, r1)
           | Ready (Inr n) \<Rightarrow>
               (let t2 = t1\<lparr>rl_bytes := []\<rparr>
                in if utf8_valid bytes then (ok n, t2\<lparr>rl_buf := rl_buf t2 @ bytes\<rparr>, r1)
                   else (err Invalid_data, t2, r1))))
       (read_until fb use 10 (rl_bytes t) (rl_read t) r)"

subsection \<open>Lines\<close>

record 'r lines =
  ln_reader :: 'r
  ln_bytes :: "byte list"
  ln_read :: nat

definition lines_new :: "'r \<Rightarrow> 'r lines" where
  "lines_new r = \<lparr>ln_reader = r, ln_bytes = [], ln_read = 0\<rparr>"

definition chomp :: "byte list \<Rightarrow> byte list" where
  "chomp bytes =
     (if bytes \<noteq> [] \<and> last bytes = 10 then
        (let b1 = butlast bytes in if b1 \<noteq> [] \<and> last b1 = 13 then butlast b1 else b1)
      else bytes)"

definition poll_next_line :: "('r \<Rightarrow> byte list io \<times> 'r) \<Rightarrow> (nat \<Rightarrow> 'r \<Rightarrow> 'r) \<Rightarrow> 'r lines \<Rightarrow> (byte list option io \<times> 'r lines) option" where
  "poll_next_line fb use t =
     map_option (\<lambda>(p, bytes, read, r1).
       (let t1 = t\<lparr>ln_reader := r1, ln_bytes := bytes, ln_read := read\<rparr>
        in case p of
             Pending \<Rightarrow> (Pending, t1)
           | Ready (Inl e) \<Rightarrow> (err e, t1)
           | Ready (Inr n) \<Rightarrow>
               if n = 0 \<and> bytes = [] then (ok None, t1)
               else
                 (let t2 = t1\<lparr>ln_bytes := []\<rparr>; line = chomp bytes
                  in if utf8_valid line then (ok (Some line), t2) else (err Invalid_data, t2))))
       (read_until fb use 10 (ln_bytes t) (ln_read t) (ln_reader t))"

subsection \<open>Segments\<close>

record 'r split =
  sp_reader :: 'r
  sp_byte :: byte
  sp_buf :: "byte list"
  sp_read :: nat

definition split_new :: "byte \<Rightarrow> 'r \<Rightarrow> 'r split" where
  "split_new byte r = \<lparr>sp_reader = r, sp_byte = byte, sp_buf = [], sp_read = 0\<rparr>"

definition poll_next_segment :: "('r \<Rightarrow> byte list io \<times> 'r) \<Rightarrow> (nat \<Rightarrow> 'r \<Rightarrow> 'r) \<Rightarrow> 'r split \<Rightarrow> (byte list option io \<times> 'r split) option" where
  "poll_next_segment fb use t =
     map_option (\<lambda>(p, buf, read, r1).
       (let t1 = t\<lparr>sp_reader := r1, sp_buf := buf, sp_read := read\<rparr>
        in case p of
             Pending \<Rightarrow> (Pending, t1)
           | Ready (Inl e) \<Rightarrow> (err e, t1)
           | Ready (Inr n) \<Rightarrow>
               if n = 0 \<and> buf = [] then (ok None, t1)
               else (ok (Some (if buf \<noteq> [] \<and> last buf = sp_byte t then butlast buf else buf)), t1\<lparr>sp_buf := []\<rparr>)))
       (read_until fb use (sp_byte t) (sp_buf t) (sp_read t) (sp_reader t))"

subsection \<open>The buffer itself, and seeks\<close>

text \<open>The future that lends the buffer holds the reader until it completes.\<close>

definition fill_buf_future :: "('r \<Rightarrow> byte list io \<times> 'r) \<Rightarrow> bool \<Rightarrow> 'r \<Rightarrow> byte list io \<times> bool \<times> 'r" where
  "fill_buf_future fb held r =
     (if \<not> held then (err Panicked, held, r)
      else
        (case fb r of
           (Ready (Inr b), r1) \<Rightarrow> (ok b, False, r1)
         | (Ready (Inl e), r1) \<Rightarrow> (err e, False, r1)
         | (Pending, r1) \<Rightarrow> (Pending, True, r1)))"

definition seek_poll :: "'s seeker \<Rightarrow> seek_from \<Rightarrow> 's \<Rightarrow> u64 io \<times> 's" where
  "seek_poll sk pos s = sk pos s"

definition rewind_pos :: seek_from where
  "rewind_pos = Seek_start 0"

definition stream_position_pos :: seek_from where
  "stream_position_pos = Seek_current 0"

subsection \<open>All of a reader into a string\<close>

record read_string =
  rs_buf :: "byte list"
  rs_bytes :: vec
  rs_zeroed :: nat

definition read_to_string_poll :: "(nat \<Rightarrow> nat \<Rightarrow> nat) \<Rightarrow> 'r reader \<Rightarrow> read_string \<Rightarrow> 'r
    \<Rightarrow> (nat io mem \<times> read_string \<times> 'r) option" where
  "read_to_string_poll grow rd t r =
     map_option (\<lambda>(p, v, z, r1).
       (let t1 = t\<lparr>rs_bytes := v, rs_zeroed := z\<rparr>
        in case p of
             Uninit \<Rightarrow> (Uninit, t1, r1)
           | Init Pending \<Rightarrow> (Init Pending, t1, r1)
           | Init (Ready (Inl e)) \<Rightarrow> (Init (err e), t1, r1)
           | Init (Ready (Inr _)) \<Rightarrow>
               (let t2 = t1\<lparr>rs_bytes := vec_of [] 0\<rparr>
                in case vec_bytes v of
                     Uninit \<Rightarrow> (Uninit, t2, r1)
                   | Init bytes \<Rightarrow>
                       if utf8_valid bytes then (Init (ok (length bytes)), t2\<lparr>rs_buf := rs_buf t2 @ bytes\<rparr>, r1)
                       else (Init (err Invalid_data), t2, r1))))
       (read_to_end grow rd (rs_bytes t) (rs_zeroed t) r)"

end
