(* ===== verification/Io_Bufread_Spec.thy ===== *)
theory Io_Bufread_Spec
  imports Io_Bufread
begin

text \<open>
  What the reads of a buffered reader promise, for every reader that lends its buffer by the contract
  \<open>buf_source\<close>: a read up to a byte returns and takes exactly the bytes up to it, over any number of pending
  polls; the segments are those of the whole text; strings stay UTF-8.
\<close>

subsection \<open>Up to a byte\<close>

fun up_to :: "byte \<Rightarrow> byte list \<Rightarrow> byte list" where
  "up_to byte [] = []"
| "up_to byte (b # bs) = (if b = byte then [b] else b # up_to byte bs)"

lemma memchr_some: "memchr byte bs = Some i \<Longrightarrow> i < length bs \<and> up_to byte (bs @ cs) = take (Suc i) bs"
  by (induction bs arbitrary: i) (auto split: if_splits)

lemma memchr_none: "memchr byte bs = None \<longleftrightarrow> byte \<notin> set bs"
  by (induction bs) auto

lemma up_to_append: "byte \<notin> set bs \<Longrightarrow> up_to byte (bs @ cs) = bs @ up_to byte cs"
  by (induction bs) auto

lemma up_to_whole: "byte \<notin> set bs \<Longrightarrow> up_to byte bs = bs"
  using up_to_append [of byte bs "[]"] by simp

lemma up_to_cases:
  obtains (found) a c where "bs = a @ byte # c" "byte \<notin> set a" "up_to byte bs = a @ [byte]"
  | (whole) "byte \<notin> set bs" "up_to byte bs = bs"
proof (cases "byte \<in> set bs")
  case True
  then obtain a c where "bs = a @ byte # c" "byte \<notin> set a" by (metis split_list_first)
  then show thesis using found up_to_append [of byte a "byte # c"] by simp
qed (use whole up_to_whole in auto)

text \<open>What a poll of a read up to a byte has done.\<close>

definition until_done :: "byte \<Rightarrow> byte list \<Rightarrow> nat \<Rightarrow> byte list \<Rightarrow> nat io \<Rightarrow> byte list \<Rightarrow> nat \<Rightarrow> byte list \<Rightarrow> bool" where
  "until_done byte buf read text p buf' read' text' \<longleftrightarrow>
     (\<exists>a. text = a @ text' \<and> buf' = buf @ a \<and> p \<noteq> err Panicked
        \<and> (case p of Ready (Inr n) \<Rightarrow> a = up_to byte text \<and> n = read + length a \<and> read' = 0
           | _ \<Rightarrow> byte \<notin> set a \<and> read' = read + length a))"

lemma until_done_more:
  assumes "until_done byte (buf @ c) (read + length c) text p buf' read' text'" and "byte \<notin> set c"
  shows "until_done byte buf read (c @ text) p buf' read' text'"
proof -
  obtain a where a: "text = a @ text'" "buf' = buf @ c @ a" "p \<noteq> err Panicked"
    and r: "case p of Ready (Inr n) \<Rightarrow> a = up_to byte text \<and> n = read + length c + length a \<and> read' = 0
           | _ \<Rightarrow> byte \<notin> set a \<and> read' = read + length c + length a"
    using assms(1) by (auto simp: until_done_def)
  then show ?thesis unfolding until_done_def using assms(2) up_to_append [OF assms(2), of "text"]
    by (intro exI [of _ "c @ a"]) (cases p rule: io_cases; auto)
qed

context buf_source
begin

lemma lent_split: "sound r \<Longrightarrow> left r = lent r @ drop (length (lent r)) (left r)"
  using lent_next [of r] by (metis append_take_drop_id)

lemma read_until_reads:
  assumes "sound r"
  shows "\<exists>p buf' read' r'. read_until fb use byte buf read r = Some (p, buf', read', r') \<and> sound r'
    \<and> until_done byte buf read (left r) p buf' read' (left r')"
  using assms
proof (induction "length (left r)" arbitrary: r buf read rule: less_induct)
  case less
  obtain q r1 where q: "fb r = (q, r1)" by fastforce
  show ?case
  proof (cases q rule: io_cases)
    case Wait
    then show ?thesis using q fill_wait [OF less.prems, of r1]
      by (subst read_until.simps) (simp add: until_done_def)
  next
    case (Err e)
    then show ?thesis using q fill_err [OF less.prems, of e r1]
      by (subst read_until.simps) (simp add: until_done_def)
  next
    case (Ok b)
    note law = fill_ok [OF less.prems q [unfolded Ok]]
    have s: "sound r1" and l: "left r = b @ drop (length b) (left r)"
      using law lent_split [of r1] by auto
    show ?thesis
    proof (cases "memchr byte b")
      case (Some i)
      have i: "i < length b" "up_to byte (left r) = take (Suc i) b"
        using memchr_some [OF Some, of "drop (length b) (left r)"] l by simp_all
      have u: "left (use (Suc i) r1) = drop (Suc i) (left r)" "sound (use (Suc i) r1)"
        using use_ok [OF s, of "Suc i"] i law by auto
      have "take (Suc i) (left r) = take (Suc i) b" using i(1) by (subst l) simp
      then have "left r = take (Suc i) b @ drop (Suc i) (left r)" by (metis append_take_drop_id)
      then show ?thesis using q Ok Some i u
        by (subst read_until.simps) (auto simp: until_done_def)
    next
      case None
      then have n: "byte \<notin> set b" by (simp add: memchr_none)
      show ?thesis
      proof (cases "b = []")
        case True
        then show ?thesis using q Ok None law use_ok [OF s, of 0]
          by (subst read_until.simps) (auto simp: until_done_def)
      next
        case False
        let ?r2 = "use (length b) r1"
        have u: "left ?r2 = drop (length b) (left r)" "sound ?r2" using use_ok [OF s, of "length b"] law by auto
        have "length (left ?r2) < length (left r)" using False l u by (metis length_append length_greater_0_conv less_add_same_cancel2)
        from less.hyps [OF this u(2), of "buf @ b" "read + length b"]
        obtain p buf' read' r' where r: "read_until fb use byte (buf @ b) (read + length b) ?r2 = Some (p, buf', read', r')"
          "sound r'" "until_done byte (buf @ b) (read + length b) (left ?r2) p buf' read' (left r')" by blast
        have "read_until fb use byte buf read r = Some (p, buf', read', r')"
          using q Ok None False r(1) by (subst read_until.simps) simp
        moreover have "until_done byte buf read (left r) p buf' read' (left r')"
          using until_done_more [OF r(3) n] l u(1) by simp
        ultimately show ?thesis using r(2) by blast
      qed
    qed
  qed
qed

end

subsection \<open>Segments and lines\<close>

definition seg_ok :: "'r split \<Rightarrow> bool" where
  "seg_ok t \<longleftrightarrow> sp_byte t \<notin> set (sp_buf t) \<and> sp_read t = length (sp_buf t)"

definition seg_text :: "('r \<Rightarrow> byte list) \<Rightarrow> 'r split \<Rightarrow> byte list" where
  "seg_text left t = sp_buf t @ left (sp_reader t)"

definition lines_ok :: "'r lines \<Rightarrow> bool" where
  "lines_ok t \<longleftrightarrow> 10 \<notin> set (ln_bytes t) \<and> ln_read t = length (ln_bytes t)"

definition lines_text :: "('r \<Rightarrow> byte list) \<Rightarrow> 'r lines \<Rightarrow> byte list" where
  "lines_text left t = ln_bytes t @ left (ln_reader t)"

lemma until_done_cases:
  assumes "until_done byte buf read txt p buf' read' txt'" and "byte \<notin> set buf" and "read = length buf"
  shows "p \<noteq> err Panicked" and "p = ok n \<Longrightarrow> buf' = up_to byte (buf @ txt) \<and> buf @ txt = buf' @ txt' \<and> n = length buf' \<and> read' = 0"
    and "p = Pending \<or> p = err e \<Longrightarrow> buf' @ txt' = buf @ txt \<and> byte \<notin> set buf' \<and> read' = length buf'"
proof -
  obtain a where a: "txt = a @ txt'" "buf' = buf @ a" and p: "p \<noteq> err Panicked"
    and r: "case p of Ready (Inr n) \<Rightarrow> a = up_to byte txt \<and> n = read + length a \<and> read' = 0
        | _ \<Rightarrow> byte \<notin> set a \<and> read' = read + length a"
    using assms(1) by (auto simp: until_done_def)
  show "p \<noteq> err Panicked" by (rule p)
  show "p = ok n \<Longrightarrow> buf' = up_to byte (buf @ txt) \<and> buf @ txt = buf' @ txt' \<and> n = length buf' \<and> read' = 0"
    using a r assms(2,3) up_to_append [OF assms(2), of "txt"] by simp
  show "p = Pending \<or> p = err e \<Longrightarrow> buf' @ txt' = buf @ txt \<and> byte \<notin> set buf' \<and> read' = length buf'"
    using a r assms(2,3) by auto
qed

lemma segment_of:
  assumes "up_to byte txt = buf" and "txt = buf @ txt'" and "buf \<noteq> []"
  defines "seg \<equiv> if buf \<noteq> [] \<and> last buf = byte then butlast buf else buf"
  shows "byte \<notin> set seg \<and> (txt = seg @ [byte] @ txt' \<or> txt = seg \<and> seg \<noteq> [] \<and> txt' = [])"
proof (cases "txt" byte rule: up_to_cases)
  case (found a c)
  have b: "buf = a @ [byte]" using assms(1) found(3) by simp
  then have "txt' = c" using assms(2) found(1) by simp
  then show ?thesis using found b by (simp add: seg_def)
next
  case whole
  have b: "buf = txt" using assms(1) whole(2) by simp
  then have "txt' = []" using assms(2) by simp
  with b whole(1) show ?thesis using assms(3) by (auto simp: seg_def)
qed

context buf_source
begin

lemma next_segment_gives:
  assumes "sound (sp_reader t)" and "seg_ok t"
  shows "\<exists>p t'. poll_next_segment fb use t = Some (p, t') \<and> sound (sp_reader t') \<and> seg_ok t' \<and> sp_byte t' = sp_byte t
    \<and> p \<noteq> err Panicked \<and> (case p of
        Ready (Inr None) \<Rightarrow> seg_text left t = [] \<and> seg_text left t' = []
      | Ready (Inr (Some seg)) \<Rightarrow> sp_byte t \<notin> set seg \<and>
          (seg_text left t = seg @ [sp_byte t] @ seg_text left t' \<or> seg_text left t = seg \<and> seg \<noteq> [] \<and> seg_text left t' = [])
      | _ \<Rightarrow> seg_text left t' = seg_text left t)"
proof -
  obtain q buf' read' r' where r: "read_until fb use (sp_byte t) (sp_buf t) (sp_read t) (sp_reader t) = Some (q, buf', read', r')"
    "sound r'" and u: "until_done (sp_byte t) (sp_buf t) (sp_read t) (left (sp_reader t)) q buf' read' (left r')"
    using read_until_reads [OF assms(1), of "sp_byte t" "sp_buf t" "sp_read t"] by blast
  note law = until_done_cases [OF u]
  have o: "sp_byte t \<notin> set (sp_buf t)" "sp_read t = length (sp_buf t)" using assms(2) by (auto simp: seg_ok_def)
  let ?t1 = "t\<lparr>sp_reader := r', sp_buf := buf', sp_read := read'\<rparr>"
  show ?thesis
  proof (cases q rule: io_cases)
    case Wait
    have "buf' @ left r' = seg_text left t \<and> sp_byte t \<notin> set buf' \<and> read' = length buf'"
      using law(3) [OF o] Wait unfolding seg_text_def by blast
    then show ?thesis using r Wait by (simp add: poll_next_segment_def seg_ok_def seg_text_def)
  next
    case (Err e)
    have "buf' @ left r' = seg_text left t \<and> sp_byte t \<notin> set buf' \<and> read' = length buf'"
      using law(3) [OF o] Err unfolding seg_text_def by blast
    then show ?thesis using r Err law(1) [OF o] by (simp add: poll_next_segment_def seg_ok_def seg_text_def)
  next
    case (Ok n)
    have b: "buf' = up_to (sp_byte t) (seg_text left t)" "seg_text left t = buf' @ left r'" "n = length buf'" "read' = 0"
      unfolding seg_text_def using law(2) [OF o Ok] by blast+
    show ?thesis
    proof (cases "buf' = []")
      case True
      then have "seg_text left t = []" using b(1) by (cases "seg_text left t") (auto split: if_splits)
      then show ?thesis using r Ok True b(3,4) arg_cong [OF b(2), of length] by (simp add: poll_next_segment_def seg_ok_def seg_text_def)
    next
      case False
      show ?thesis using r(1,2) Ok False b(3,4) segment_of [OF b(1) [symmetric] b(2) False]
        by (simp add: poll_next_segment_def seg_ok_def seg_text_def [of _ "_\<lparr>sp_buf := []\<rparr>"])
    qed
  qed
qed

lemma next_line_gives:
  assumes "sound (ln_reader t)" and "lines_ok t"
  shows "\<exists>p t'. poll_next_line fb use t = Some (p, t') \<and> sound (ln_reader t') \<and> lines_ok t' \<and> p \<noteq> err Panicked
    \<and> (let txt = lines_text left t; txt' = lines_text left t'; raw = up_to 10 txt in case p of
        Ready (Inr None) \<Rightarrow> txt = [] \<and> txt' = []
      | Ready (Inr (Some line)) \<Rightarrow> txt \<noteq> [] \<and> line = chomp raw \<and> utf8_valid line \<and> txt = raw @ txt'
      | Ready (Inl e) \<Rightarrow> txt' = txt \<or> e = Invalid_data \<and> \<not> utf8_valid (chomp raw) \<and> txt = raw @ txt'
      | Pending \<Rightarrow> txt' = txt)"
proof -
  obtain q buf' read' r' where r: "read_until fb use 10 (ln_bytes t) (ln_read t) (ln_reader t) = Some (q, buf', read', r')"
    "sound r'" and u: "until_done 10 (ln_bytes t) (ln_read t) (left (ln_reader t)) q buf' read' (left r')"
    using read_until_reads [OF assms(1), of 10 "ln_bytes t" "ln_read t"] by blast
  note law = until_done_cases [OF u]
  have o: "10 \<notin> set (ln_bytes t)" "ln_read t = length (ln_bytes t)" using assms(2) by (auto simp: lines_ok_def)
  show ?thesis
  proof (cases q rule: io_cases)
    case Wait
    have "buf' @ left r' = lines_text left t \<and> 10 \<notin> set buf' \<and> read' = length buf'"
      using law(3) [OF o] Wait unfolding lines_text_def by blast
    then show ?thesis using r Wait by (simp add: poll_next_line_def lines_ok_def lines_text_def)
  next
    case (Err e)
    have "buf' @ left r' = lines_text left t \<and> 10 \<notin> set buf' \<and> read' = length buf'"
      using law(3) [OF o] Err unfolding lines_text_def by blast
    then show ?thesis using r Err law(1) [OF o] by (simp add: poll_next_line_def lines_ok_def lines_text_def)
  next
    case (Ok n)
    have b: "buf' = up_to 10 (lines_text left t)" "lines_text left t = buf' @ left r'" "n = length buf'" "read' = 0"
      unfolding lines_text_def using law(2) [OF o Ok] by blast+
    have e: "buf' = [] \<longleftrightarrow> lines_text left t = []" using b(1) by (cases "lines_text left t") auto
    show ?thesis
    proof (cases "buf' = []")
      case True
      then show ?thesis using r Ok b(3,4) e arg_cong [OF b(2), of length]
        by (simp add: poll_next_line_def lines_ok_def lines_text_def)
    next
      case False
      let ?t = "t\<lparr>ln_reader := r', ln_bytes := [], ln_read := 0\<rparr>"
      have run: "poll_next_line fb use t = Some (if utf8_valid (chomp buf') then ok (Some (chomp buf')) else err Invalid_data, ?t)"
        using r(1) Ok False b(3,4) by (simp add: poll_next_line_def Let_def)
      have t: "lines_text left ?t = left r'" "lines_ok ?t" "sound (ln_reader ?t)" using r(2) by (simp_all add: lines_text_def lines_ok_def)
      have ne: "lines_text left t \<noteq> []" using e False by simp
      note raw = b(1) [symmetric]
      show ?thesis
      proof (cases "utf8_valid (chomp buf')")
        case True
        then show ?thesis unfolding run raw Let_def using t ne b(2) raw
          by (intro exI [of _ "ok (Some (chomp buf'))"] exI [of _ ?t]) simp
      next
        case False
        then show ?thesis unfolding run raw Let_def using t ne b(2)
          by (intro exI [of _ "err Invalid_data"] exI [of _ ?t]) simp
      qed
    qed
  qed
qed

end

subsection \<open>Strings\<close>

lemma utf8_char_short:
  "utf8_char [x] = Some n \<Longrightarrow> utf8_char (x # b) = Some n"
  "utf8_char [x, y] = Some n \<Longrightarrow> utf8_char (x # y # b) = Some n"
  "utf8_char [x, y, z] = Some n \<Longrightarrow> utf8_char (x # y # z # b) = Some n"
  by (simp_all only: utf8_char.simps list.case split: if_split_asm) (simp_all only: if_True if_False option.distinct simp_thms)

lemma utf8_char_append:
  assumes "utf8_char a = Some n"
  shows "utf8_char (a @ b) = Some n"
proof -
  consider "a = []" | x where "a = [x]" | x y where "a = [x, y]" | x y z where "a = [x, y, z]" | x y z w v where "a = x # y # z # w # v"
    by (metis list.exhaust)
  then show ?thesis
  proof cases
    case 1
    then show ?thesis using assms by (simp only: utf8_char.simps option.distinct)
  next
    case 2
    show ?thesis using utf8_char_short(1) [OF assms [unfolded 2]] by (simp only: 2 append_Cons append_Nil)
  next
    case 3
    show ?thesis using utf8_char_short(2) [OF assms [unfolded 3]] by (simp only: 3 append_Cons append_Nil)
  next
    case 4
    show ?thesis using utf8_char_short(3) [OF assms [unfolded 4]] by (simp only: 4 append_Cons append_Nil)
  next
    case 5
    then show ?thesis using assms by (simp only: utf8_char.simps list.case append_Cons)
  qed
qed

lemma utf8_valid_append:
  assumes "utf8_valid a" and "utf8_valid b"
  shows "utf8_valid (a @ b)"
  using assms(1)
proof (induction a rule: utf8_valid.induct)
  case (1 a)
  show ?case
  proof (cases "a = []")
    case False
    then obtain n where n: "utf8_char a = Some n" "utf8_valid (drop n a)"
      using 1(2) by (auto simp: utf8_valid.simps [of a] split: option.splits)
    have "utf8_valid (drop n a @ b)" using 1(1) [OF n(1) n(2)] .
    then show ?thesis using utf8_char_append [OF n(1), of b] utf8_char_some [OF n(1)]
      by (subst utf8_valid.simps) simp
  qed (use assms(2) in simp)
qed

lemma read_line_string:
  assumes "utf8_valid (rl_buf t)" and "read_line_poll fb use t r = Some (p, t', r')"
  shows "utf8_valid (rl_buf t') \<and> (\<exists>a. rl_buf t' = rl_buf t @ a) \<and> ((\<forall>n. p \<noteq> ok n) \<longrightarrow> rl_buf t' = rl_buf t)"
proof -
  obtain q bytes read r1 where u: "read_until fb use 10 (rl_bytes t) (rl_read t) r = Some (q, bytes, read, r1)"
    using assms(2) by (auto simp: read_line_poll_def)
  note run = assms(2) [unfolded read_line_poll_def u]
  show ?thesis
  proof (cases q rule: io_cases)
    case (Ok n)
    then show ?thesis using run assms(1) utf8_valid_append [OF assms(1), of bytes]
      by (cases "utf8_valid bytes") auto
  qed (use run assms(1) in auto)
qed

lemma read_to_string_string:
  assumes "utf8_valid (rs_buf t)" and "read_to_string_poll grow rd t r = Some (p, t', r')"
  shows "utf8_valid (rs_buf t') \<and> (\<exists>a. rs_buf t' = rs_buf t @ a) \<and> ((\<forall>n. p \<noteq> Init (ok n)) \<longrightarrow> rs_buf t' = rs_buf t)"
proof -
  obtain m v z r1 where u: "read_to_end grow rd (rs_bytes t) (rs_zeroed t) r = Some (m, v, z, r1)"
    using assms(2) by (auto simp: read_to_string_poll_def)
  note run = assms(2) [unfolded read_to_string_poll_def u]
  show ?thesis
  proof (cases m)
    case (Init q)
    show ?thesis
    proof (cases q rule: io_cases)
      case (Ok n)
      show ?thesis
      proof (cases "vec_bytes v")
        case inner: (Init bytes)
        then show ?thesis using run assms(1) Init Ok utf8_valid_append [OF assms(1), of bytes]
          by (cases "utf8_valid bytes") auto
      qed (use run assms(1) Init Ok in auto)
    qed (use run assms(1) Init in auto)
  qed (use run assms(1) in auto)
qed

subsection \<open>Properties\<close>

text \<open>C21: A read up to a byte returns and is exact: for a buffered reader that behaves, a poll has appended
  the bytes it took, in order; when it is done they are those up to the byte and with it, or all there are
  when the byte does not come, and it answers how many there were since the read began; when it is not
  done the byte has not come yet.\<close>

theorem read_until_exact:
  assumes "buf_source fb use left lent sound" and "sound r"
  shows "\<exists>p buf' read' r' a. read_until fb use byte buf read r = Some (p, buf', read', r')
    \<and> left r = a @ left r' \<and> buf' = buf @ a
    \<and> (case p of Ready (Inr n) \<Rightarrow> a = up_to byte (left r) \<and> n = read + length a \<and> read' = 0
       | _ \<Rightarrow> byte \<notin> set a \<and> read' = read + length a)"
  using buf_source.read_until_reads [OF assms, of byte buf read] unfolding until_done_def by blast

theorem read_until_exact_witness:
  "\<exists>p buf' read' r' a. read_until (poll_fill_buf slice_read) br_consume 9 [] 0 (br_with_capacity 2 [1, 2, 3, 9, 4]) = Some (p, buf', read', r')
     \<and> [1, 2, 3, 9, 4] = a @ br_left (\<lambda>r. r) r' \<and> buf' = a"
proof -
  have s: "buf_source (poll_fill_buf slice_read) br_consume (br_left (\<lambda>r. r)) br_avail (\<lambda>t. (br_ok t \<and> True) \<and> br_buf t \<noteq> [])"
    by (rule byte_source.br_buf_source [OF slice_source])
  let ?t = "br_with_capacity 2 [1, 2, 3, 9, 4] :: byte list buf_reader"
  have t: "(br_ok ?t \<and> True) \<and> br_buf ?t \<noteq> []" using br_new_ok(1) [of 2 "[1, 2, 3, 9, 4]"] by (simp add: br_with_capacity_def)
  have l: "br_left (\<lambda>r. r) ?t = [1, 2, 3, 9, 4]" by (simp add: br_left_def br_new_ok br_with_capacity_def br_avail_def)
  show ?thesis using read_until_exact [OF s t, of 9 "[]" 0] unfolding l by fastforce
qed

text \<open>C22: The segments are those of the text, over any number of pending and failed polls.  A poll returns; when
  it gives a segment the rest of the text is that segment, without the byte, and either the byte and the
  text after the poll or the end; when it gives none there is none; otherwise nothing is lost.\<close>

theorem segments_exact:
  assumes "buf_source fb use left lent sound" and "sound (sp_reader t)" and "seg_ok t"
  shows "\<exists>p t'. poll_next_segment fb use t = Some (p, t') \<and> sound (sp_reader t') \<and> seg_ok t'
    \<and> (case p of
        Ready (Inr None) \<Rightarrow> seg_text left t = [] \<and> seg_text left t' = []
      | Ready (Inr (Some seg)) \<Rightarrow> sp_byte t \<notin> set seg \<and>
          (seg_text left t = seg @ [sp_byte t] @ seg_text left t' \<or> seg_text left t = seg \<and> seg \<noteq> [] \<and> seg_text left t' = [])
      | _ \<Rightarrow> seg_text left t' = seg_text left t)"
  using buf_source.next_segment_gives [OF assms] by blast

theorem segments_exact_witness:
  "\<exists>p t'. poll_next_segment (poll_fill_buf slice_read) br_consume (split_new 9 (br_with_capacity 2 [1, 9, 4])) = Some (p, t') \<and> seg_ok t'"
proof -
  have s: "buf_source (poll_fill_buf slice_read) br_consume (br_left (\<lambda>r. r)) br_avail (\<lambda>t. (br_ok t \<and> True) \<and> br_buf t \<noteq> [])"
    by (rule byte_source.br_buf_source [OF slice_source])
  let ?t = "split_new 9 (br_with_capacity 2 [1, 9, 4] :: byte list buf_reader)"
  have t: "(br_ok (sp_reader ?t) \<and> True) \<and> br_buf (sp_reader ?t) \<noteq> []"
    using br_new_ok(1) [of 2 "[1, 9, 4]"] by (simp add: br_with_capacity_def split_new_def)
  have o: "seg_ok ?t" by (simp add: split_new_def seg_ok_def)
  show ?thesis using segments_exact [OF s t o] by blast
qed

text \<open>C27: Strings stay UTF-8, whatever the reader does: a line or a whole stream read into a string leaves it
  UTF-8, and as it was unless the read succeeds, which adds to its end.\<close>

theorem strings_stay_utf8:
  assumes "utf8_valid (rl_buf t)" and "read_line_poll fb use t r = Some (p, t', r')"
    and "utf8_valid (rs_buf s)" and "read_to_string_poll grow rd s q = Some (m, s', q')"
  shows "utf8_valid (rl_buf t') \<and> (\<exists>a. rl_buf t' = rl_buf t @ a) \<and> ((\<forall>n. p \<noteq> ok n) \<longrightarrow> rl_buf t' = rl_buf t)
    \<and> utf8_valid (rs_buf s') \<and> (\<exists>a. rs_buf s' = rs_buf s @ a) \<and> ((\<forall>n. m \<noteq> Init (ok n)) \<longrightarrow> rs_buf s' = rs_buf s)"
  using read_line_string [OF assms(1,2)] read_to_string_string [OF assms(3,4)] by blast

theorem strings_stay_utf8_witness:
  "\<exists>t' r'. read_line_poll (poll_fill_buf slice_read) br_consume (read_line_new [104]) (br_with_capacity 4 [105, 10]) = Some (ok 2, t', r')
     \<and> utf8_valid (rl_buf t')"
proof -
  have v: "utf8_valid []" "utf8_valid [104]" "utf8_valid [105, 10]"
    by (simp_all add: utf8_valid.simps)
  let ?r = "br_with_capacity 4 [105, 10] :: byte list buf_reader"
  have z: "replicate 4 (0 :: byte) = [0, 0, 0, 0]" by (simp add: eval_nat_numeral)
  have l: "\<exists>r'. read_line_poll (poll_fill_buf slice_read) br_consume (read_line_new [104]) ?r = Some (ok 2, read_line_new [104, 105, 10], r')"
    using v by (simp add: read_line_poll_def read_line_new_def read_until.simps poll_fill_buf_def br_with_capacity_def slice_read_def
        overlay_def slice_def Let_def z)
  have g: "grows (\<lambda>c n. n)" and o: "vec_ok (vec_of [] 0) 0" by (simp_all add: grows_def vec_ok_def vec_of_def)
  let ?s = "\<lparr>rs_buf = [], rs_bytes = vec_of [] 0, rs_zeroed = 0\<rparr>"
  have "read_to_string_poll (\<lambda>c n. n) slice_read ?s [] \<noteq> None"
    using byte_source.read_to_end_reads [OF slice_source _ g o, of "[]"] by (auto simp: read_to_string_poll_def)
  then obtain m s' q' where m: "read_to_string_poll (\<lambda>c n. n) slice_read ?s [] = Some (m, s', q')"
    by (metis not_None_eq prod_cases3)
  obtain r' where l': "read_line_poll (poll_fill_buf slice_read) br_consume (read_line_new [104]) ?r = Some (ok 2, read_line_new [104, 105, 10], r')"
    using l by blast
  from strings_stay_utf8 [OF _ l' _ m] l' v show ?thesis by (auto simp: read_line_new_def)
qed

end
