(* ===== verification/Io_Copy.thy ===== *)
theory Io_Copy
  imports Io_Bufread_Spec
begin

text \<open>
  Copying from a reader to a writer, \<open>src/src/io/util/copy.rs\<close>, and the streams with nothing behind them,
  \<open>src/src/io/util/misc.rs\<close>.  The copy loops as long as both streams are ready, so its poll is a partial
  function; one round of the loop is a function of its own, whose result is either what the poll answers or
  the state the next round starts from.
\<close>

subsection \<open>One direction\<close>

definition DEFAULT_BUF_SIZE :: nat where "DEFAULT_BUF_SIZE = 8 * 1024"

record copy_buffer =
  read_done :: bool
  need_flush :: bool
  cb_pos :: nat
  cb_cap :: nat
  cb_amount :: u64
  cb_buf :: "byte list"

definition copy_new :: "nat \<Rightarrow> copy_buffer" where
  "copy_new n = \<lparr>read_done = False, need_flush = False, cb_pos = 0, cb_cap = 0, cb_amount = 0, cb_buf = replicate (max n 1) 0\<rparr>"

type_synonym ('r, 'w) copying = "copy_buffer \<times> 'r \<times> 'w"

definition copy_read :: "'r reader \<Rightarrow> 'w writer \<Rightarrow> copy_buffer \<Rightarrow> 'r \<Rightarrow> 'w
    \<Rightarrow> (u64 io \<times> ('r, 'w) copying) + ('r, 'w) copying" where
  "copy_read rd W c r w =
     (if cb_pos c = cb_cap c \<and> \<not> read_done c then
        (case rd (cb_buf c) r of
           (p, b, r1) \<Rightarrow>
             (let c1 = c\<lparr>cb_buf := overlay (cb_buf c) b\<rparr>
              in case p of
                   Ready (Inr n) \<Rightarrow>
                     if n = 0 then Inr (c1\<lparr>read_done := True\<rparr>, r1, w) else Inr (c1\<lparr>cb_pos := 0, cb_cap := n\<rparr>, r1, w)
                 | Ready (Inl e) \<Rightarrow> Inl (err e, c1, r1, w)
                 | Pending \<Rightarrow>
                     if need_flush c1 then
                       (case poll_flush W w of
                          (Pending, w1) \<Rightarrow> Inl (Pending, c1, r1, w1)
                        | (Ready (Inl e), w1) \<Rightarrow> Inl (err e, c1, r1, w1)
                        | (Ready (Inr _), w1) \<Rightarrow> Inl (Pending, c1\<lparr>need_flush := False\<rparr>, r1, w1))
                     else Inl (Pending, c1, r1, w)))
      else Inr (c, r, w))"

function copy_write :: "'w writer \<Rightarrow> copy_buffer \<Rightarrow> 'w \<Rightarrow> (u64 io \<times> copy_buffer \<times> 'w) + (copy_buffer \<times> 'w)" where
  "copy_write W c w =
     (if cb_pos c < cb_cap c then
        (case slice (cb_pos c) (cb_cap c) (cb_buf c) of
           Inl e \<Rightarrow> Inl (err e, c, w)
         | Inr b \<Rightarrow>
             (case poll_write W b w of
                (Pending, w1) \<Rightarrow> Inl (Pending, c, w1)
              | (Ready (Inl e), w1) \<Rightarrow> Inl (err e, c, w1)
              | (Ready (Inr n), w1) \<Rightarrow>
                  if n = 0 then Inl (err Write_zero, c, w1)
                  else copy_write W (c\<lparr>cb_pos := cb_pos c + n, cb_amount := cb_amount c + of_nat n, need_flush := True\<rparr>) w1))
      else Inr (c, w))"
  by pat_completeness auto
termination
  by (relation "measure (\<lambda>(W, c, w). cb_cap c - cb_pos c)") auto

declare copy_write.simps [simp del]

definition copy_round :: "'r reader \<Rightarrow> 'w writer \<Rightarrow> copy_buffer \<Rightarrow> 'r \<Rightarrow> 'w
    \<Rightarrow> (u64 io \<times> ('r, 'w) copying) + ('r, 'w) copying" where
  "copy_round rd W c r w =
     (case copy_read rd W c r w of
        Inl done \<Rightarrow> Inl done
      | Inr (c1, r1, w1) \<Rightarrow>
          (case copy_write W c1 w1 of
             Inl (p, c2, w2) \<Rightarrow> Inl (p, c2, r1, w2)
           | Inr (c2, w2) \<Rightarrow>
               if cb_pos c2 = cb_cap c2 \<and> read_done c2 then
                 (case poll_flush W w2 of
                    (Pending, w3) \<Rightarrow> Inl (Pending, c2, r1, w3)
                  | (Ready (Inl e), w3) \<Rightarrow> Inl (err e, c2, r1, w3)
                  | (Ready (Inr _), w3) \<Rightarrow> Inl (ok (cb_amount c2), c2, r1, w3))
               else Inr (c2, r1, w2)))"

partial_function (option) poll_copy :: "'r reader \<Rightarrow> 'w writer \<Rightarrow> copy_buffer \<Rightarrow> 'r \<Rightarrow> 'w \<Rightarrow> (u64 io \<times> ('r, 'w) copying) option" where
  "poll_copy rd W c r w =
     (case copy_round rd W c r w of
        Inl done \<Rightarrow> Some done
      | Inr s \<Rightarrow> (case s of (c1, s1) \<Rightarrow> (case s1 of (r1, w1) \<Rightarrow> poll_copy rd W c1 r1 w1)))"

declare poll_copy.simps [code]

definition copy :: "'r \<Rightarrow> 'w \<Rightarrow> ('r, 'w) copying" where
  "copy reader writer = (copy_new DEFAULT_BUF_SIZE, reader, writer)"

text \<open>From a buffered reader, out of its own buffer.\<close>

partial_function (option) copy_buf_poll :: "('r \<Rightarrow> byte list io \<times> 'r) \<Rightarrow> (nat \<Rightarrow> 'r \<Rightarrow> 'r) \<Rightarrow> 'w writer \<Rightarrow> u64 \<Rightarrow> 'r \<Rightarrow> 'w
    \<Rightarrow> (u64 io \<times> u64 \<times> 'r \<times> 'w) option" where
  "copy_buf_poll fb use W amount r w =
     (case fb r of
        (p, r1) \<Rightarrow>
          (case p of
             Pending \<Rightarrow> Some (Pending, amount, r1, w)
           | Ready res \<Rightarrow>
               (case res of
                  Inl e \<Rightarrow> Some (err e, amount, r1, w)
                | Inr available \<Rightarrow>
                    if available = [] then
                      (case poll_flush W w of
                         (q, w1) \<Rightarrow>
                           Some (case q of Pending \<Rightarrow> Pending | Ready (Inl e) \<Rightarrow> err e | Ready (Inr _) \<Rightarrow> ok amount, amount, r1, w1))
                    else
                      (case poll_write W available w of
                         (q, w1) \<Rightarrow>
                           (case q of
                              Pending \<Rightarrow> Some (Pending, amount, r1, w1)
                            | Ready res1 \<Rightarrow>
                                (case res1 of
                                   Inl e \<Rightarrow> Some (err e, amount, r1, w1)
                                 | Inr n \<Rightarrow>
                                     if n = 0 then Some (err Write_zero, amount, r1, w1)
                                     else copy_buf_poll fb use W (amount + of_nat n) (use n r1) w1))))))"

declare copy_buf_poll.simps [code]

subsection \<open>Both directions\<close>

datatype transfer = Running copy_buffer | Shutting_down u64 | Done u64

definition poll_after_copy :: "'w writer \<Rightarrow> transfer \<Rightarrow> 'w \<Rightarrow> u64 io \<times> transfer \<times> 'w" where
  "poll_after_copy W t w =
     (case t of
        Shutting_down amount \<Rightarrow>
          (case poll_close W w of
             (Pending, w1) \<Rightarrow> (Pending, t, w1)
           | (Ready (Inl e), w1) \<Rightarrow> (err e, t, w1)
           | (Ready (Inr _), w1) \<Rightarrow> (ok amount, Done amount, w1))
      | Done amount \<Rightarrow> (ok amount, t, w)
      | Running _ \<Rightarrow> (Pending, t, w))"

definition transfer_poll :: "'r reader \<Rightarrow> 'w writer \<Rightarrow> transfer \<Rightarrow> 'r \<Rightarrow> 'w \<Rightarrow> (u64 io \<times> transfer \<times> 'r \<times> 'w) option" where
  "transfer_poll rd W t r w =
     (case t of
        Running c \<Rightarrow>
          map_option (\<lambda>(p, c1, r1, w1).
            (case p of
               Pending \<Rightarrow> (Pending, Running c1, r1, w1)
             | Ready (Inl e) \<Rightarrow> (err e, Running c1, r1, w1)
             | Ready (Inr amount) \<Rightarrow>
                 (case poll_after_copy W (Shutting_down amount) w1 of (q, t1, w2) \<Rightarrow> (q, t1, r1, w2))))
            (poll_copy rd W c r w)
      | _ \<Rightarrow> (case poll_after_copy W t w of (q, t1, w1) \<Rightarrow> Some (q, t1, r, w1)))"

text \<open>Two streams, each a reader and a writer on one state.\<close>

definition bidirectional_new :: "nat \<Rightarrow> nat \<Rightarrow> transfer \<times> transfer" where
  "bidirectional_new a_to_b b_to_a = (Running (copy_new a_to_b), Running (copy_new b_to_a))"

definition bidirectional_poll :: "'a reader \<Rightarrow> 'a writer \<Rightarrow> 'b reader \<Rightarrow> 'b writer \<Rightarrow> transfer \<Rightarrow> transfer \<Rightarrow> 'a \<Rightarrow> 'b
    \<Rightarrow> ((u64 \<times> u64) io \<times> transfer \<times> transfer \<times> 'a \<times> 'b) option" where
  "bidirectional_poll ra wa rb wb forward backward a b =
     (case transfer_poll ra wb forward a b of
        None \<Rightarrow> None
      | Some (Ready (Inl e), f1, a1, b1) \<Rightarrow> Some (err e, f1, backward, a1, b1)
      | Some (p, f1, a1, b1) \<Rightarrow>
          (case transfer_poll rb wa backward b1 a1 of
             None \<Rightarrow> None
           | Some (Ready (Inl e), k1, b2, a2) \<Rightarrow> Some (err e, f1, k1, a2, b2)
           | Some (q, k1, b2, a2) \<Rightarrow>
               Some (case (p, q) of (Ready (Inr x), Ready (Inr y)) \<Rightarrow> ok (x, y) | _ \<Rightarrow> Pending, f1, k1, a2, b2)))"

subsection \<open>Streams with nothing behind them\<close>

definition empty_poll_read :: "unit reader" where
  "empty_poll_read buf s = (ok 0, buf, s)"

definition empty_fill_buf :: "unit \<Rightarrow> byte list io \<times> unit" where
  "empty_fill_buf s = (ok [], s)"

definition empty_consume :: "nat \<Rightarrow> unit \<Rightarrow> unit" where
  "empty_consume n s = s"

definition empty_writer :: "unit writer" where
  "empty_writer =
     \<lparr>poll_write = (\<lambda>b s. (ok (length b), s)),
      poll_write_vectored = (\<lambda>bs s. (ok (length (case filter (\<lambda>b. b \<noteq> []) bs of [] \<Rightarrow> [] | b # _ \<Rightarrow> b)), s)),
      poll_flush = (\<lambda>s. (ok (), s)), poll_close = (\<lambda>s. (ok (), s))\<rparr>"

text \<open>The reader that repeats a byte and the writer that keeps none spend budget, so their state is the task's.\<close>

definition repeat_poll_read :: "('w ucall \<Rightarrow> ('e, 'x) ctx_scheme \<Rightarrow> ('e, 'x) ctx_scheme) \<Rightarrow> 'w \<Rightarrow> byte
    \<Rightarrow> ('e, 'x) ctx_scheme reader" where
  "repeat_poll_read u w byte buf s =
     (case poll_budget u w (\<lambda>s. (Ready (Inr (length buf)), s)) s of
        (Pending, s1) \<Rightarrow> (Pending, buf, s1)
      | (Ready res, s1) \<Rightarrow> (Ready res, replicate (length buf) byte, s1))"

definition sink_poll_write :: "('w ucall \<Rightarrow> ('e, 'x) ctx_scheme \<Rightarrow> ('e, 'x) ctx_scheme) \<Rightarrow> 'w \<Rightarrow> byte list
    \<Rightarrow> ('e, 'x) ctx_scheme \<Rightarrow> nat io \<times> ('e, 'x) ctx_scheme" where
  "sink_poll_write u w buf = poll_budget u w (\<lambda>s. (Ready (Inr (length buf)), s))"

definition sink_poll_flush :: "'s \<Rightarrow> unit io \<times> 's" where
  "sink_poll_flush s = (ok (), s)"

definition sink_poll_close :: "'s \<Rightarrow> unit io \<times> 's" where
  "sink_poll_close s = (ok (), s)"

end
