(* ===== verification/Io_Copy_Spec.thy ===== *)
theory Io_Copy_Spec
  imports Io_Copy
begin

text \<open>
  What a copy promises between a source and a sink: its poll returns, the writer has taken what the reader
  gave and the buffer does not hold, and a copy that is done has left nothing.
\<close>

definition cb_ok :: "copy_buffer \<Rightarrow> bool" where
  "cb_ok c \<longleftrightarrow> cb_pos c \<le> cb_cap c \<and> cb_cap c \<le> length (cb_buf c) \<and> cb_buf c \<noteq> []"

definition cb_rest :: "copy_buffer \<Rightarrow> byte list" where
  "cb_rest c = take (cb_cap c - cb_pos c) (drop (cb_pos c) (cb_buf c))"

lemma copy_new_ok: "cb_ok (copy_new n)" "cb_rest (copy_new n) = []" "cb_amount (copy_new n) = 0" "\<not> read_done (copy_new n)"
  by (simp_all add: copy_new_def cb_ok_def cb_rest_def)

lemma cb_rest_Nil: "cb_ok c \<Longrightarrow> cb_rest c = [] \<longleftrightarrow> cb_pos c = cb_cap c"
  by (auto simp: cb_ok_def cb_rest_def)

lemma cb_rest_on:
  assumes "cb_ok c" and "n \<le> length (cb_rest c)"
  shows "cb_rest c = take n (cb_rest c) @ cb_rest (c\<lparr>cb_pos := cb_pos c + n, cb_amount := a, need_flush := f\<rparr>)"
    and "cb_ok (c\<lparr>cb_pos := cb_pos c + n, cb_amount := a, need_flush := f\<rparr>)"
proof -
  have "cb_rest (c\<lparr>cb_pos := cb_pos c + n, cb_amount := a, need_flush := f\<rparr>) = drop n (cb_rest c)"
    by (simp add: cb_rest_def drop_take add.commute)
  then show "cb_rest c = take n (cb_rest c) @ cb_rest (c\<lparr>cb_pos := cb_pos c + n, cb_amount := a, need_flush := f\<rparr>)" by simp
  show "cb_ok (c\<lparr>cb_pos := cb_pos c + n, cb_amount := a, need_flush := f\<rparr>)"
    using assms by (auto simp: cb_ok_def cb_rest_def)
qed

locale copying = src: byte_source rd left sound + snk: byte_sink W took sane
  for rd :: "'r reader" and left sound and W :: "'w writer" and took sane
begin

text \<open>From one state of a copy to another by moving bytes on: the reader's to the buffer, the buffer's to the
  writer.\<close>

definition copied :: "copy_buffer \<Rightarrow> 'r \<Rightarrow> 'w \<Rightarrow> copy_buffer \<Rightarrow> 'r \<Rightarrow> 'w \<Rightarrow> bool" where
  "copied c r w c' r' w' \<longleftrightarrow>
     (\<exists>a. took w a w' \<and> a @ cb_rest c' @ left r' = cb_rest c @ left r \<and> cb_amount c' = cb_amount c + of_nat (length a))"

definition copy_ok :: "copy_buffer \<Rightarrow> 'r \<Rightarrow> 'w \<Rightarrow> bool" where
  "copy_ok c r w \<longleftrightarrow> cb_ok c \<and> sound r \<and> sane w \<and> (read_done c \<longrightarrow> left r = [])"

lemma copied_both: "copied c r w c1 r1 w1 \<Longrightarrow> copied c1 r1 w1 c2 r2 w2 \<Longrightarrow> copied c r w c2 r2 w2"
proof -
  assume "copied c r w c1 r1 w1" and "copied c1 r1 w1 c2 r2 w2"
  then obtain a b where a: "took w a w1" "a @ cb_rest c1 @ left r1 = cb_rest c @ left r" "cb_amount c1 = cb_amount c + of_nat (length a)"
    and b: "took w1 b w2" "b @ cb_rest c2 @ left r2 = cb_rest c1 @ left r1" "cb_amount c2 = cb_amount c1 + of_nat (length b)"
    by (auto simp: copied_def)
  have "(a @ b) @ cb_rest c2 @ left r2 = cb_rest c @ left r" using a(2) b(2) by simp
  then show ?thesis using snk.took_both [OF a(1) b(1)] a(3) b(3) unfolding copied_def
    by (intro exI [of _ "a @ b"]) simp
qed

lemma copied_still:
  assumes "took w [] w'" and "cb_rest c' @ left r' = cb_rest c @ left r" and "cb_amount c' = cb_amount c"
  shows "copied c r w c' r' w'"
  using assms by (auto simp: copied_def)

text \<open>The rounds.\<close>

lemma cb_overlay:
  fixes b :: "byte list"
  assumes "cb_ok c"
  defines "c1 \<equiv> c\<lparr>cb_buf := overlay (cb_buf c) b\<rparr>"
  shows "cb_ok c1" and "cb_pos c = cb_cap c \<Longrightarrow> cb_rest c1 = [] \<and> cb_rest c = []" and "cb_amount c1 = cb_amount c"
  using assms by (auto simp: cb_ok_def cb_rest_def)

lemma copy_read_stops:
  assumes "copy_ok c r w" and run: "copy_read rd W c r w = Inl (p, c', r', w')"
  shows "copied c r w c' r' w' \<and> copy_ok c' r' w' \<and> p \<noteq> err Panicked \<and> (\<forall>n. p \<noteq> ok n)"
proof -
  have o: "cb_ok c" "sound r" "sane w" "read_done c \<longrightarrow> left r = []" using assms(1) by (auto simp: copy_ok_def)
  obtain q b r1 where q: "rd (cb_buf c) r = (q, b, r1)" by (metis prod_cases3)
  let ?c1 = "c\<lparr>cb_buf := overlay (cb_buf c) b\<rparr>"
  note c1 = cb_overlay [OF o(1), of b]
  have g: "cb_pos c = cb_cap c" "\<not> read_done c" using run by (auto simp: copy_read_def split: if_splits)
  show ?thesis
  proof (cases q rule: io_cases)
    case (Err e)
    have "p = err e" "c' = ?c1" "r' = r1" "w' = w" using run g q Err by (auto simp: copy_read_def Let_def)
    then show ?thesis using src.read_err [OF o(2) q [unfolded Err]] c1 o g snk.took_nothing
      by (auto simp: copy_ok_def intro!: copied_still)
  next
    case (Ok n)
    then show ?thesis using run g q by (auto simp: copy_read_def Let_def split: if_splits)
  next
    case Wait
    note law = src.read_wait [OF o(2) q [unfolded Wait]]
    show ?thesis
    proof (cases "need_flush c")
      case False
      then have "p = Pending" "c' = ?c1" "r' = r1" "w' = w" using run g q Wait by (auto simp: copy_read_def Let_def)
      then show ?thesis using law c1 o g snk.took_nothing by (auto simp: copy_ok_def intro!: copied_still)
    next
      case True
      obtain f w1 where f: "poll_flush W w = (f, w1)" by fastforce
      note fl = snk.flushed [OF o(3) f]
      have "(p = Pending \<or> (\<exists>e. p = err e \<and> f = err e)) \<and> (c' = ?c1 \<or> c' = ?c1\<lparr>need_flush := False\<rparr>) \<and> r' = r1 \<and> w' = w1"
        using run g q Wait True f by (cases f rule: io_cases) (auto simp: copy_read_def Let_def)
      moreover have "cb_ok (?c1\<lparr>need_flush := False\<rparr>)" "cb_rest (?c1\<lparr>need_flush := False\<rparr>) = cb_rest ?c1"
        using c1 by (simp_all add: cb_ok_def cb_rest_def)
      ultimately show ?thesis using law c1 o g fl by (auto simp: copy_ok_def intro!: copied_still)
    qed
  qed
qed

lemma copy_read_on:
  assumes "copy_ok c r w" and run: "copy_read rd W c r w = Inr (c', r', w')"
  shows "copied c r w c' r' w' \<and> copy_ok c' r' w' \<and> length (left r') \<le> length (left r)
      \<and> (cb_pos c = cb_cap c \<and> \<not> read_done c' \<longrightarrow> length (left r') < length (left r))"
proof (cases "cb_pos c = cb_cap c \<and> \<not> read_done c")
  case False
  then have "c' = c" "r' = r" "w' = w" using run by (auto simp: copy_read_def)
  then show ?thesis using assms(1) False snk.took_nothing by (auto intro!: copied_still)
next
  case True
  have o: "cb_ok c" "sound r" "sane w" "read_done c \<longrightarrow> left r = []" using assms(1) by (auto simp: copy_ok_def)
  obtain q b r1 where q: "rd (cb_buf c) r = (q, b, r1)" by (metis prod_cases3)
  let ?c1 = "c\<lparr>cb_buf := overlay (cb_buf c) b\<rparr>"
  note c1 = cb_overlay [OF o(1), of b]
  obtain n where n: "q = ok n" using run q True
    by (cases q rule: io_cases) (auto simp: copy_read_def Let_def split: if_splits prod.splits poll.splits sum.splits)
  note law = src.read_ok [OF o(2) q [unfolded n]]
  show ?thesis
  proof (cases "n = 0")
    case zero: True
    then have "c' = ?c1\<lparr>read_done := True\<rparr>" "r' = r1" "w' = w" using run True q n by (auto simp: copy_read_def Let_def)
    moreover have "cb_ok (?c1\<lparr>read_done := True\<rparr>)" "cb_rest (?c1\<lparr>read_done := True\<rparr>) = cb_rest ?c1"
      using c1 by (simp_all add: cb_ok_def cb_rest_def)
    ultimately show ?thesis using law zero c1 o True snk.took_nothing
      by (auto simp: copy_ok_def cb_ok_def intro!: copied_still)
  next
    case False
    let ?c2 = "?c1\<lparr>cb_pos := 0, cb_cap := n\<rparr>"
    have "c' = ?c2" "r' = r1" "w' = w" using run True q n False by (auto simp: copy_read_def Let_def)
    moreover have "cb_rest ?c2 = take n (left r)" "cb_ok ?c2" using law o(1) by (auto simp: cb_rest_def cb_ok_def)
    ultimately show ?thesis using law False c1 o True snk.took_nothing
      by (auto simp: copy_ok_def intro!: copied_still)
  qed
qed

definition wrote :: "copy_buffer \<Rightarrow> 'r \<Rightarrow> 'w \<Rightarrow> (u64 io \<times> copy_buffer \<times> 'w) + (copy_buffer \<times> 'w) \<Rightarrow> bool" where
  "wrote c r w x \<longleftrightarrow>
     (case x of
        Inl (p, c', w') \<Rightarrow> copied c r w c' r w' \<and> copy_ok c' r w' \<and> p \<noteq> err Panicked \<and> (\<forall>n. p \<noteq> ok n)
      | Inr (c', w') \<Rightarrow> copied c r w c' r w' \<and> copy_ok c' r w' \<and> cb_pos c' = cb_cap c' \<and> read_done c' = read_done c)"

lemma wrote_more:
  assumes "copied c r w c1 r w1" and "wrote c1 r w1 x" and "read_done c1 = read_done c"
  shows "wrote c r w x"
  using assms copied_both [OF assms(1)] by (auto simp: wrote_def split: sum.splits)

lemma copy_write_law:
  assumes "copy_ok c r w"
  shows "wrote c r w (copy_write W c w)"
  using assms
proof (induction "cb_cap c - cb_pos c" arbitrary: c w rule: less_induct)
  case less
  have o: "cb_ok c" "sane w" using less.prems by (auto simp: copy_ok_def)
  show ?case
  proof (cases "cb_pos c < cb_cap c")
    case False
    then have "copy_write W c w = Inr (c, w)" "cb_pos c = cb_cap c" using o(1) by (auto simp: copy_write.simps [of W c] cb_ok_def)
    then show ?thesis using less.prems snk.took_nothing by (auto simp: wrote_def intro!: copied_still)
  next
    case True
    obtain q w1 where q: "poll_write W (cb_rest c) w = (q, w1)" by fastforce
    have sl: "slice (cb_pos c) (cb_cap c) (cb_buf c) = Inr (cb_rest c)" using o(1) by (simp add: slice_def cb_ok_def cb_rest_def)
    have run: "copy_write W c w =
      (case q of Pending \<Rightarrow> Inl (Pending, c, w1) | Ready (Inl e) \<Rightarrow> Inl (err e, c, w1)
       | Ready (Inr n) \<Rightarrow> if n = 0 then Inl (err Write_zero, c, w1)
           else copy_write W (c\<lparr>cb_pos := cb_pos c + n, cb_amount := cb_amount c + of_nat n, need_flush := True\<rparr>) w1)"
      using True by (subst copy_write.simps) (simp add: sl q)
    show ?thesis
    proof (cases q rule: io_cases)
      case Wait
      then show ?thesis using run snk.write_not [OF o(2) q] less.prems by (auto simp: wrote_def copy_ok_def intro!: copied_still)
    next
      case (Err e)
      then show ?thesis using run snk.write_not [OF o(2) q] less.prems by (auto simp: wrote_def copy_ok_def intro!: copied_still)
    next
      case (Ok n)
      note law = snk.write_ok [OF o(2) q [unfolded Ok]]
      let ?c1 = "c\<lparr>cb_pos := cb_pos c + n, cb_amount := cb_amount c + of_nat n, need_flush := True\<rparr>"
      have on: "cb_rest c = take n (cb_rest c) @ cb_rest ?c1" "cb_ok ?c1" using cb_rest_on [OF o(1)] law by blast+
      have l: "length (take n (cb_rest c)) = n" using law by simp
      have cp: "copied c r w ?c1 r w1" unfolding copied_def using law on(1) l
        by (intro exI [of _ "take n (cb_rest c)"]) (simp flip: append.assoc)
      have ok1: "copy_ok ?c1 r w1" using on(2) law less.prems by (simp add: copy_ok_def)
      show ?thesis
      proof (cases "n = 0")
        case True
        then show ?thesis using run Ok law less.prems by (auto simp: wrote_def copy_ok_def intro!: copied_still)
      next
        case False
        have "cb_cap ?c1 - cb_pos ?c1 < cb_cap c - cb_pos c" using False True by simp
        from wrote_more [OF cp less.hyps [OF this ok1]] show ?thesis using run Ok False by simp
      qed
    qed
  qed
qed

text \<open>A round that goes on has brought the copy closer to its end.\<close>

definition to_go :: "copy_buffer \<Rightarrow> 'r \<Rightarrow> nat" where
  "to_go c r = 2 * length (left r) + (if cb_pos c = cb_cap c then 0 else 1)"

definition round_done :: "copy_buffer \<Rightarrow> 'r \<Rightarrow> 'w \<Rightarrow> u64 io \<Rightarrow> copy_buffer \<Rightarrow> 'r \<Rightarrow> 'w \<Rightarrow> bool" where
  "round_done c r w p c' r' w' \<longleftrightarrow> copied c r w c' r' w' \<and> copy_ok c' r' w' \<and> p \<noteq> err Panicked
     \<and> (\<forall>n. p = ok n \<longrightarrow> n = cb_amount c' \<and> cb_rest c' = [] \<and> left r' = [])"

lemma copy_round_stops:
  assumes "copy_ok c r w" and "copy_round rd W c r w = Inl (p, c', r', w')"
  shows "round_done c r w p c' r' w'"
proof (cases "copy_read rd W c r w")
  case (Inl x)
  then show ?thesis using assms(2) copy_read_stops [OF assms(1)] by (auto simp: copy_round_def round_done_def)
next
  case (Inr y)
  obtain c1 r1 w1 where y: "copy_read rd W c r w = Inr (c1, r1, w1)" using Inr by (metis prod_cases3)
  have rl: "copied c r w c1 r1 w1" "copy_ok c1 r1 w1" using copy_read_on [OF assms(1) y] by auto
  note wl = copy_write_law [OF rl(2)]
  show ?thesis
  proof (cases "copy_write W c1 w1")
    case (Inl z)
    then show ?thesis using assms(2) y wl copied_both [OF rl(1)] by (auto simp: copy_round_def round_done_def wrote_def)
  next
    case (Inr z)
    obtain c2 w2 where z: "copy_write W c1 w1 = Inr (c2, w2)" using Inr by (metis surj_pair)
    have w: "copied c1 r1 w1 c2 r1 w2" "copy_ok c2 r1 w2" "cb_pos c2 = cb_cap c2" using wl z by (auto simp: wrote_def)
    have rd2: "read_done c2" using assms(2) y z w(3) by (auto simp: copy_round_def split: if_splits)
    obtain f w3 where f: "poll_flush W w2 = (f, w3)" by fastforce
    have s: "sane w2" "left r1 = []" "cb_rest c2 = []" using w rd2 cb_rest_Nil [of c2] by (auto simp: copy_ok_def)
    have cp: "copied c r w c2 r1 w3"
      using copied_both [OF rl(1) copied_both [OF w(1) copied_still]] snk.flushed [OF s(1) f] by blast
    have "c' = c2 \<and> r' = r1 \<and> w' = w3 \<and> (p = Pending \<or> p = ok (cb_amount c2) \<or> (\<exists>e. p = err e \<and> f = err e))"
      using assms(2) y z w(3) rd2 f by (cases f rule: io_cases) (auto simp: copy_round_def)
    then show ?thesis using cp w(2) s snk.flushed [OF s(1) f] by (auto simp: round_done_def copy_ok_def)
  qed
qed

lemma copy_round_on:
  assumes "copy_ok c r w" and "copy_round rd W c r w = Inr (c', r', w')"
  shows "copied c r w c' r' w' \<and> copy_ok c' r' w' \<and> to_go c' r' < to_go c r"
proof -
  obtain c1 r1 w1 where y: "copy_read rd W c r w = Inr (c1, r1, w1)"
    using assms(2) by (auto simp: copy_round_def split: sum.splits)
  obtain c2 w2 where z: "copy_write W c1 w1 = Inr (c2, w2)"
    using assms(2) y by (auto simp: copy_round_def split: sum.splits)
  note rl = copy_read_on [OF assms(1) y]
  have w: "copied c1 r1 w1 c2 r1 w2" "copy_ok c2 r1 w2" "cb_pos c2 = cb_cap c2" "read_done c2 = read_done c1"
    using copy_write_law [of c1 r1 w1] rl z by (auto simp: wrote_def)
  have e: "c' = c2" "r' = r1" "w' = w2" "\<not> read_done c2"
    using assms(2) y z w(3) by (auto simp: copy_round_def split: if_splits prod.splits poll.splits sum.splits)
  have "to_go c' r' < to_go c r" using rl w(3,4) e by (auto simp: to_go_def)
  then show ?thesis using copied_both [OF _ w(1)] rl w(2) e by auto
qed

lemma poll_copy_copies:
  assumes "copy_ok c r w"
  shows "\<exists>p c' r' w'. poll_copy rd W c r w = Some (p, c', r', w') \<and> round_done c r w p c' r' w'"
  using assms
proof (induction "to_go c r" arbitrary: c r w rule: less_induct)
  case less
  show ?case
  proof (cases "copy_round rd W c r w")
    case (Inl x)
    obtain p c' r' w' where x: "copy_round rd W c r w = Inl (p, c', r', w')" using Inl by (metis prod_cases4)
    then show ?thesis using copy_round_stops [OF less.prems x] by (subst poll_copy.simps) auto
  next
    case (Inr y)
    obtain c1 r1 w1 where y: "copy_round rd W c r w = Inr (c1, r1, w1)" using Inr by (metis prod_cases3)
    note on = copy_round_on [OF less.prems y]
    then obtain p c' r' w' where p: "poll_copy rd W c1 r1 w1 = Some (p, c', r', w')" "round_done c1 r1 w1 p c' r' w'"
      using less.hyps [of c1 r1 w1] by blast
    then show ?thesis using y on copied_both [of c r w c1 r1 w1]
      by (subst poll_copy.simps) (auto simp: round_done_def)
  qed
qed

end

interpretation pipe_to_pipe: copying "pipe_poll_read v" contents pipe_ok "pipe_writer w" pipe_took pipe_ok for v w
  by (intro copying.intro pipe_source piping.byte_sink_axioms)

subsection \<open>Properties\<close>

text \<open>C11: A copy copies.  From a reader that behaves to a writer that behaves, a poll of a copy returns; the
  bytes the writer took, then those in the buffer, then those the reader has left, are those in the buffer
  and those the reader had before, in order; the count has grown by what the writer took; and when the copy
  answers that it is done, with that count, nothing is left in the buffer or the reader.\<close>

theorem copy_copies:
  assumes "byte_source rd left sound" and "byte_sink W took sane" and "cb_ok c" and "sound r" and "sane w"
    and "\<not> read_done c"
  shows "\<exists>p c' r' w' a. poll_copy rd W c r w = Some (p, c', r', w') \<and> took w a w'
    \<and> a @ cb_rest c' @ left r' = cb_rest c @ left r \<and> cb_amount c' = cb_amount c + of_nat (length a)
    \<and> p \<noteq> err Panicked \<and> (\<forall>n. p = ok n \<longrightarrow> n = cb_amount c' \<and> cb_rest c' = [] \<and> left r' = [])"
proof -
  have l: "copying rd left sound W took sane" using assms(1,2) by (intro copying.intro)
  have "copying.copy_ok left sound sane c r w" using assms(3-6) by (simp add: copying.copy_ok_def [OF l])
  from copying.poll_copy_copies [OF l this] show ?thesis
    unfolding copying.round_done_def [OF l] copying.copied_def [OF l] by blast
qed

theorem copy_copies_witness:
  "\<exists>p c' r' w' a. poll_copy slice_read (pipe_writer (5 :: nat)) (copy_new 4) [1, 2, 3] (pipe_new 8) = Some (p, c', r', w')
     \<and> contents w' = a \<and> a @ cb_rest c' @ r' = [1, 2, 3]"
proof -
  have w: "pipe_ok (pipe_new 8 :: nat pipe)" "contents (pipe_new 8 :: nat pipe) = []"
    by (simp_all add: pipe_new_def pipe_ok_def contents_def)
  from copy_copies [OF slice_source piping.byte_sink_axioms copy_new_ok(1) _ w(1) copy_new_ok(4), where r = "[1, 2, 3]"]
  show ?thesis using w(2) copy_new_ok(2) unfolding pipe_took_def by (metis append_Nil)
qed

end
