(* ===== verification/Atomic_Waker.thy ===== *)
theory Atomic_Waker
  imports Coop
begin

text \<open>
  The cell for one waker that any thread may wake, \<open>src/src/sync/atomic_waker.rs\<close>.  An operation is cut at its
  accesses of the state word and of the slot: \<open>register_step\<close> and \<open>take_step\<close> make one access and answer the
  wakers they call.  The relation \<open>cell_step\<close> runs one task that registers against any number of threads that
  wake, in the use the cell is for: a thread sets the flag the task waits for and then wakes, the task
  registers and then looks at the flag.  The relation \<open>shared_step\<close> runs any number of registrations at once, as the
  module's contract allows.  Accesses are sequentially consistent.  Code of the user that a step
  calls (a waker's clone, wake and drop) can do what other threads can, so it is among their steps; a clone
  may panic.  Whether two wakers wake the same task, \<open>will_wake\<close>, is the parameter \<open>alike\<close>.
\<close>

unbundle bit_operations_syntax

subsection \<open>The cell\<close>

definition WAITING :: u64 where "WAITING = 0"
definition REGISTERING :: u64 where "REGISTERING = 1"
definition WAKING :: u64 where "WAKING = 2"

record 'w cell =
  aw_state :: u64
  aw_slot :: "'w option"

definition cell_new :: "'w cell" where
  "cell_new = \<lparr>aw_state = WAITING, aw_slot = None\<rparr>"

subsection \<open>Registering\<close>

text \<open>The three calls: \<open>register\<close> drops a different waker it replaces, \<open>register_displacing\<close> wakes it, and
  \<open>try_register_displacing\<close> also leaves its own waker alone when the cell is in use.\<close>

datatype register_kind = Plain | Displacing | Trying

text \<open>Each counter is named by the access it is about to make.  \<open>Rg_back\<close> is a registration that has returned to
  its task, \<open>Rg_in_use\<close> one that found the cell in use and left it alone; \<open>Ab_\<close> is what the unwinding of a
  clone that panics does.\<close>

datatype 'w registering =
    Rg_cas register_kind 'w
  | Rg_slot register_kind 'w
  | Rg_publish register_kind 'w "'w option"
  | Rw_take 'w "'w option"
  | Rw_swap 'w "'w option" "'w option"
  | Rw_wake 'w "'w option" "'w option"
  | Ab_cas
  | Ab_take
  | Ab_swap "'w option"
  | Ab_wake "'w option"
  | Rg_back 'w
  | Rg_in_use
  | Rg_unwound

definition woken_of :: "'w option \<Rightarrow> 'w list" where
  "woken_of x = (case x of None \<Rightarrow> [] | Some w \<Rightarrow> [w])"

fun register_step :: "('w \<Rightarrow> 'w \<Rightarrow> bool) \<Rightarrow> bool \<Rightarrow> 'w registering \<times> 'w cell \<Rightarrow> 'w registering \<times> 'w cell \<times> 'w list" where
  "register_step alike panics (Rg_cas d w, c) =
     (if aw_state c = WAITING then (Rg_slot d w, c\<lparr>aw_state := REGISTERING\<rparr>, [])
      else if d = Trying then (Rg_in_use, c, []) else (Rg_back w, c, [w]))"
| "register_step alike panics (Rg_slot d w, c) =
     (case aw_slot c of
        Some old \<Rightarrow>
          if alike old w then (Rg_publish d w None, c, [])
          else if panics then (Ab_cas, c, []) else (Rg_publish d w (Some old), c\<lparr>aw_slot := Some w\<rparr>, [])
      | None \<Rightarrow> if panics then (Ab_cas, c, []) else (Rg_publish d w None, c\<lparr>aw_slot := Some w\<rparr>, []))"
| "register_step alike panics (Rg_publish d w displaced, c) =
     (if aw_state c = REGISTERING
      then (Rg_back w, c\<lparr>aw_state := WAITING\<rparr>, if d = Plain then [] else woken_of displaced)
      else (Rw_take w displaced, c, []))"
| "register_step alike panics (Rw_take w displaced, c) = (Rw_swap w (aw_slot c) displaced, c\<lparr>aw_slot := None\<rparr>, [])"
| "register_step alike panics (Rw_swap w taken displaced, c) = (Rw_wake w taken displaced, c\<lparr>aw_state := WAITING\<rparr>, [])"
| "register_step alike panics (Rw_wake w taken displaced, c) = (Rg_back w, c, woken_of taken @ woken_of displaced)"
| "register_step alike panics (Ab_cas, c) =
     (if aw_state c = REGISTERING then (Rg_unwound, c\<lparr>aw_state := WAITING\<rparr>, []) else (Ab_take, c, []))"
| "register_step alike panics (Ab_take, c) = (Ab_swap (aw_slot c), c\<lparr>aw_slot := None\<rparr>, [])"
| "register_step alike panics (Ab_swap taken, c) = (Ab_wake taken, c\<lparr>aw_state := WAITING\<rparr>, [])"
| "register_step alike panics (Ab_wake taken, c) = (Rg_unwound, c, woken_of taken)"
| "register_step alike panics (Rg_back w, c) = (Rg_back w, c, [])"
| "register_step alike panics (Rg_in_use, c) = (Rg_in_use, c, [])"
| "register_step alike panics (Rg_unwound, c) = (Rg_unwound, c, [])"

subsection \<open>Waking\<close>

datatype 'w waking =
    Tk_or
  | Tk_slot
  | Tk_and "'w option"
  | Tk_wake "'w option"
  | Tk_done

fun take_step :: "'w waking \<times> 'w cell \<Rightarrow> 'w waking \<times> 'w cell \<times> 'w list" where
  "take_step (Tk_or, c) =
     (if aw_state c \<noteq> WAITING then Tk_done else Tk_slot, c\<lparr>aw_state := aw_state c OR WAKING\<rparr>, [])"
| "take_step (Tk_slot, c) = (Tk_and (aw_slot c), c\<lparr>aw_slot := None\<rparr>, [])"
| "take_step (Tk_and taken, c) = (Tk_wake taken, c\<lparr>aw_state := aw_state c AND NOT WAKING\<rparr>, [])"
| "take_step (Tk_wake taken, c) = (Tk_done, c, woken_of taken)"
| "take_step (Tk_done, c) = (Tk_done, c, [])"

subsection \<open>The cell in use\<close>

datatype 'w task = Idle | In_register "'w registering" | Parked 'w

record 'w aw =
  aw_cell :: "'w cell"
  aw_task :: "'w task"
  aw_threads :: "nat \<Rightarrow> 'w waking option"
  aw_ready :: bool
  aw_woken :: "'w list"
  aw_since :: nat

inductive cell_step :: "('w \<Rightarrow> 'w \<Rightarrow> bool) \<Rightarrow> 'w aw \<Rightarrow> 'w aw \<Rightarrow> bool" for alike where
  register_call: "aw_task s = Idle \<or> aw_task s = Parked v \<Longrightarrow>
    cell_step alike s (s\<lparr>aw_task := In_register (Rg_cas d w), aw_since := length (aw_woken s)\<rparr>)"
| register_access: "aw_task s = In_register t \<Longrightarrow> register_step alike panics (t, aw_cell s) = (t', c', ws) \<Longrightarrow>
    cell_step alike s (s\<lparr>aw_cell := c', aw_task := In_register t', aw_woken := aw_woken s @ ws\<rparr>)"
| unwound: "aw_task s = In_register Rg_unwound \<or> aw_task s = In_register Rg_in_use \<Longrightarrow> cell_step alike s (s\<lparr>aw_task := Idle\<rparr>)"
| look_ready: "aw_task s = In_register (Rg_back w) \<Longrightarrow> aw_ready s \<Longrightarrow>
    cell_step alike s (s\<lparr>aw_task := Idle, aw_ready := False\<rparr>)"
| look_not: "aw_task s = In_register (Rg_back w) \<Longrightarrow> \<not> aw_ready s \<Longrightarrow> cell_step alike s (s\<lparr>aw_task := Parked w\<rparr>)"
| wake_call: "aw_threads s i = None \<Longrightarrow>
    cell_step alike s (s\<lparr>aw_ready := True, aw_threads := (aw_threads s)(i \<mapsto> Tk_or)\<rparr>)"
| wake_access: "aw_threads s i = Some t \<Longrightarrow> take_step (t, aw_cell s) = (t', c', ws) \<Longrightarrow>
    cell_step alike s (s\<lparr>aw_cell := c', aw_threads := (aw_threads s)(i \<mapsto> t'), aw_woken := aw_woken s @ ws\<rparr>)"
| wake_return: "aw_threads s i = Some Tk_done \<Longrightarrow>
    cell_step alike s (s\<lparr>aw_threads := (aw_threads s)(i := None)\<rparr>)"

definition aw_new :: "'w aw" where
  "aw_new = \<lparr>aw_cell = cell_new, aw_task = Idle, aw_threads = (\<lambda>_. None), aw_ready = False, aw_woken = [], aw_since = 0\<rparr>"

subsection \<open>The cell shared by several registrants\<close>

text \<open>Any number of registrations and of wakes at once; the contract of the module allows a second registrant.\<close>

record 'w shared =
  sh_cell :: "'w cell"
  sh_regs :: "nat \<Rightarrow> 'w registering option"
  sh_threads :: "nat \<Rightarrow> 'w waking option"

inductive shared_step :: "('w \<Rightarrow> 'w \<Rightarrow> bool) \<Rightarrow> 'w shared \<Rightarrow> 'w shared \<Rightarrow> bool" for alike where
  register_call: "sh_regs s i = None \<Longrightarrow> shared_step alike s (s\<lparr>sh_regs := (sh_regs s)(i \<mapsto> Rg_cas d w)\<rparr>)"
| register_access: "sh_regs s i = Some t \<Longrightarrow> register_step alike panics (t, sh_cell s) = (t', c', ws) \<Longrightarrow>
    shared_step alike s (s\<lparr>sh_cell := c', sh_regs := (sh_regs s)(i \<mapsto> t')\<rparr>)"
| register_return: "sh_regs s i = Some t \<Longrightarrow> t = Rg_back w \<or> t = Rg_in_use \<or> t = Rg_unwound \<Longrightarrow>
    shared_step alike s (s\<lparr>sh_regs := (sh_regs s)(i := None)\<rparr>)"
| wake_call: "sh_threads s i = None \<Longrightarrow> shared_step alike s (s\<lparr>sh_threads := (sh_threads s)(i \<mapsto> Tk_or)\<rparr>)"
| wake_access: "sh_threads s i = Some t \<Longrightarrow> take_step (t, sh_cell s) = (t', c', ws) \<Longrightarrow>
    shared_step alike s (s\<lparr>sh_cell := c', sh_threads := (sh_threads s)(i \<mapsto> t')\<rparr>)"
| wake_return: "sh_threads s i = Some Tk_done \<Longrightarrow> shared_step alike s (s\<lparr>sh_threads := (sh_threads s)(i := None)\<rparr>)"

definition shared_new :: "'w shared" where
  "shared_new = \<lparr>sh_cell = cell_new, sh_regs = (\<lambda>_. None), sh_threads = (\<lambda>_. None)\<rparr>"

end
