(* ===== verification/Atomic_Waker_Spec.thy ===== *)
theory Atomic_Waker_Spec
  imports Atomic_Waker
begin

text \<open>
  What the cell promises: the slot is one thread's at a time, a wake that the task waits for reaches it, and
  every operation ends after a fixed number of its own accesses.
\<close>

subsection \<open>Who has the slot\<close>

fun reg_has :: "'w task \<Rightarrow> bool" where
  "reg_has (In_register (Rg_slot d w)) = True"
| "reg_has (In_register (Rg_publish d w x)) = True"
| "reg_has (In_register (Rw_take w x)) = True"
| "reg_has (In_register (Rw_swap w t x)) = True"
| "reg_has (In_register Ab_cas) = True"
| "reg_has (In_register Ab_take) = True"
| "reg_has (In_register (Ab_swap t)) = True"
| "reg_has _ = False"

text \<open>A registration that a wake has met.\<close>

fun reg_met :: "'w task \<Rightarrow> bool" where
  "reg_met (In_register (Rw_take w x)) = True"
| "reg_met (In_register (Rw_swap w t x)) = True"
| "reg_met (In_register Ab_take) = True"
| "reg_met (In_register (Ab_swap t)) = True"
| "reg_met _ = False"

definition tk_has :: "'w waking option \<Rightarrow> bool" where
  "tk_has t \<longleftrightarrow> t = Some Tk_slot \<or> (\<exists>x. t = Some (Tk_and x))"

lemma tk_has_simps [simp]:
  "\<not> tk_has None" "\<not> tk_has (Some Tk_or)" "tk_has (Some Tk_slot)" "tk_has (Some (Tk_and x))"
  "\<not> tk_has (Some (Tk_wake x))" "\<not> tk_has (Some Tk_done)"
  by (auto simp: tk_has_def)

definition cell_inv :: "u64 \<Rightarrow> 'w option \<Rightarrow> bool \<Rightarrow> bool \<Rightarrow> (nat \<Rightarrow> 'w waking option) \<Rightarrow> bool" where
  "cell_inv st slot reg met th \<longleftrightarrow>
     (if reg then st = 1 \<or> st = 3 else st = 0 \<or> st = 2) \<and> (met \<longrightarrow> st = 3)
     \<and> (\<forall>i. tk_has (th i) \<longrightarrow> st = 2) \<and> (st = 2 \<longrightarrow> (\<exists>i. tk_has (th i)))
     \<and> (\<forall>i j. tk_has (th i) \<longrightarrow> tk_has (th j) \<longrightarrow> i = j)
     \<and> (\<forall>i x. th i = Some (Tk_and x) \<longrightarrow> slot = None)"

definition cell_ok :: "'w aw \<Rightarrow> bool" where
  "cell_ok s \<longleftrightarrow> cell_inv (aw_state (aw_cell s)) (aw_slot (aw_cell s)) (reg_has (aw_task s)) (reg_met (aw_task s)) (aw_threads s)"

lemmas aw_words = WAITING_def REGISTERING_def WAKING_def

lemma cell_new_ok: "cell_ok aw_new"
  by (simp add: cell_ok_def cell_inv_def aw_new_def cell_new_def aw_words)

text \<open>How the state word moves.\<close>

lemma cell_taken: "cell_inv 0 slot reg False th \<Longrightarrow> cell_inv 1 slot True False th"
  by (auto simp: cell_inv_def)

lemma cell_written: "cell_inv st slot True met th \<Longrightarrow> cell_inv st slot' True met th"
  by (auto simp: cell_inv_def) (metis tk_has_simps(4))+

lemma cell_given: "cell_inv 1 slot True met th \<Longrightarrow> cell_inv 0 slot False False th"
  by (auto simp: cell_inv_def)

lemma cell_met: "cell_inv st slot True met th \<Longrightarrow> st \<noteq> 1 \<Longrightarrow> cell_inv st slot True True th"
  by (auto simp: cell_inv_def)

lemma cell_back: "cell_inv st slot True met th \<Longrightarrow> cell_inv 0 slot False False th"
  by (auto simp: cell_inv_def)

lemma register_access_cell:
  assumes "cell_ok s" and "aw_task s = In_register t" and "register_step alike panics (t, aw_cell s) = (t', c', ws)"
  shows "cell_ok (s\<lparr>aw_cell := c', aw_task := In_register t', aw_woken := w\<rparr>)"
proof (cases t)
  case (Rg_cas d w)
  then show ?thesis using assms by (auto simp: cell_ok_def aw_words cell_taken split: if_splits)
next
  case (Rg_slot d w)
  then show ?thesis using assms by (auto simp: cell_ok_def cell_written split: if_splits option.splits)
next
  case (Rg_publish d w x)
  then show ?thesis using assms by (auto simp: cell_ok_def aw_words cell_given cell_met split: if_splits)
next
  case (Rw_take w x)
  then show ?thesis using assms by (auto simp: cell_ok_def cell_written)
next
  case (Rw_swap w tk x)
  then show ?thesis using assms by (auto simp: cell_ok_def aw_words cell_back)
next
  case Ab_cas
  then show ?thesis using assms by (auto simp: cell_ok_def aw_words cell_given cell_met split: if_splits)
next
  case Ab_take
  then show ?thesis using assms by (auto simp: cell_ok_def cell_written)
next
  case (Ab_swap tk)
  then show ?thesis using assms by (auto simp: cell_ok_def aw_words cell_back)
qed (use assms in \<open>auto simp: cell_ok_def\<close>)

lemma cell_invD:
  assumes "cell_inv st slot reg met th"
  shows "tk_has (th i) \<Longrightarrow> st = 2 \<and> \<not> reg" and "tk_has (th i) \<Longrightarrow> tk_has (th j) \<Longrightarrow> i = j"
    and "th i = Some (Tk_and x) \<Longrightarrow> slot = None" and "st = 2 \<Longrightarrow> \<exists>i. tk_has (th i)"
    and "if reg then st = 1 \<or> st = 3 else st = 0 \<or> st = 2" and "met \<Longrightarrow> st = 3"
  using assms by (auto simp: cell_inv_def split: if_splits)

lemma cell_inv_same:
  assumes "cell_inv st slot reg met th" and "\<And>j. tk_has (th' j) = tk_has (th j)"
    and "\<And>j x. th' j = Some (Tk_and x) \<Longrightarrow> slot' = None"
  shows "cell_inv st slot' reg met th'"
  using cell_invD [OF assms(1)] assms(2,3) unfolding cell_inv_def by blast

lemma cell_or_free:
  assumes "cell_inv 0 slot reg met th"
  shows "cell_inv 2 slot reg met (th(i \<mapsto> Tk_slot))"
proof -
  have n: "\<not> tk_has (th j)" for j using cell_invD(1) [OF assms, of j] by auto
  then have "th j \<noteq> Some (Tk_and x)" for j x by (metis tk_has_simps(4))
  then show ?thesis using n cell_invD(5,6) [OF assms] by (auto simp: cell_inv_def split: if_splits)
qed

lemma cell_or_busy:
  assumes "cell_inv st slot reg met th" and "th i = Some Tk_or" and "st \<noteq> 0"
  shows "cell_inv (st OR 2) slot reg met (th(i \<mapsto> Tk_done))"
proof -
  have st: "st OR 2 = (if reg then 3 else st)" using cell_invD(5) [OF assms(1)] assms(3) by (auto split: if_splits)
  have r: "reg \<Longrightarrow> \<not> tk_has (th j)" for j using cell_invD(1) [OF assms(1), of j] by auto
  have "cell_inv (st OR 2) slot reg met th"
    unfolding st using cell_invD [OF assms(1)] r unfolding cell_inv_def by (cases reg) auto
  then show ?thesis by (rule cell_inv_same) (use assms cell_invD(3) in \<open>auto split: if_splits\<close>)
qed

lemma cell_release:
  assumes "cell_inv st slot reg met th" and "th i = Some (Tk_and x)"
  shows "st = 2" and "cell_inv 0 slot reg met (th(i \<mapsto> Tk_wake x))"
proof -
  show st: "st = 2" using cell_invD(1) [OF assms(1), of i] assms(2) by simp
  have n: "\<not> tk_has ((th(i \<mapsto> Tk_wake x)) j)" for j using cell_invD(2) [OF assms(1), of i j] assms(2) by auto
  have "\<not> reg" "\<not> met" using cell_invD(1) [OF assms(1), of i] cell_invD(6) [OF assms(1)] assms(2) st by auto
  moreover have "(th(i \<mapsto> Tk_wake x)) j \<noteq> Some (Tk_and y)" for j y using n [of j] by (metis tk_has_simps(4))
  ultimately show "cell_inv 0 slot reg met (th(i \<mapsto> Tk_wake x))" using n by (simp add: cell_inv_def)
qed

lemma wake_access_inv:
  assumes inv: "cell_inv (aw_state c) (aw_slot c) reg met th" and t: "th i = Some t" and run: "take_step (t, c) = (t', c', ws)"
  shows "cell_inv (aw_state c') (aw_slot c') reg met (th(i \<mapsto> t'))"
proof (cases t)
  case Tk_or
  show ?thesis
  proof (cases "aw_state c = 0")
    case True
    then show ?thesis using inv run Tk_or cell_or_free [of _ _ _ th i] by (auto simp: aw_words)
  next
    case False
    then show ?thesis using cell_or_busy [OF inv t [unfolded Tk_or] False] run Tk_or by (auto simp: aw_words)
  qed
next
  case Tk_slot
  then have "t' = Tk_and (aw_slot c)" "c' = c\<lparr>aw_slot := None\<rparr>" using run by auto
  then show ?thesis using t Tk_slot by (auto intro!: cell_inv_same [OF inv] split: if_splits)
next
  case (Tk_and x)
  have e: "t' = Tk_wake x" "c' = c\<lparr>aw_state := aw_state c AND NOT WAKING\<rparr>" using run Tk_and by auto
  have "aw_state c AND NOT WAKING = 0" using cell_release(1) [OF inv t [unfolded Tk_and]] by (simp add: aw_words)
  then show ?thesis using cell_release(2) [OF inv t [unfolded Tk_and]] by (simp add: e)
next
  case (Tk_wake x)
  then have "t' = Tk_done" "c' = c" using run by auto
  then show ?thesis using t Tk_wake cell_invD(3) [OF inv] by (auto intro!: cell_inv_same [OF inv] split: if_splits)
next
  case Tk_done
  then have "t' = Tk_done" "c' = c" using run by auto
  then show ?thesis using t Tk_done cell_invD(3) [OF inv] by (auto intro!: cell_inv_same [OF inv] split: if_splits)
qed

lemma wake_access_cell:
  assumes "cell_ok s" and "aw_threads s i = Some t" and "take_step (t, aw_cell s) = (t', c', ws)"
  shows "cell_ok (s\<lparr>aw_cell := c', aw_threads := (aw_threads s)(i \<mapsto> t'), aw_woken := w\<rparr>)"
  using wake_access_inv [where th = "aw_threads s", OF _ assms(2,3)] assms(1) by (simp add: cell_ok_def)

lemma cell_step_ok:
  assumes "cell_step alike s s'" and "cell_ok s"
  shows "cell_ok s'"
  using assms
proof (induction rule: cell_step.cases)
  case (register_call s v d w)
  then show ?case by (auto simp: cell_ok_def)
next
  case (register_access s t panics t' c' ws)
  then show ?case using register_access_cell [of s t alike panics t' c' ws] by simp
next
  case (wake_call r i)
  have inv: "cell_inv (aw_state (aw_cell r)) (aw_slot (aw_cell r)) (reg_has (aw_task r)) (reg_met (aw_task r)) (aw_threads r)"
    using wake_call by (simp add: cell_ok_def)
  have "cell_inv (aw_state (aw_cell r)) (aw_slot (aw_cell r)) (reg_has (aw_task r)) (reg_met (aw_task r)) (aw_threads s')"
    using wake_call cell_invD(3) [OF inv] by (intro cell_inv_same [OF inv]) (auto split: if_splits)
  then show ?case using wake_call by (simp add: cell_ok_def)
next
  case (wake_access s i t t' c' ws)
  then show ?case using wake_access_cell [of s i t t' c' ws] by simp
next
  case (wake_return r i)
  have inv: "cell_inv (aw_state (aw_cell r)) (aw_slot (aw_cell r)) (reg_has (aw_task r)) (reg_met (aw_task r)) (aw_threads r)"
    using wake_return by (simp add: cell_ok_def)
  have "cell_inv (aw_state (aw_cell r)) (aw_slot (aw_cell r)) (reg_has (aw_task r)) (reg_met (aw_task r)) (aw_threads s')"
    using wake_return cell_invD(3) [OF inv] by (intro cell_inv_same [OF inv]) (auto split: if_splits)
  then show ?case using wake_return by (simp add: cell_ok_def)
qed (auto simp: cell_ok_def)

subsection \<open>Where the task's waker is\<close>

definition same :: "('w \<Rightarrow> 'w \<Rightarrow> bool) \<Rightarrow> 'w \<Rightarrow> 'w option \<Rightarrow> bool" where
  "same alike w x \<longleftrightarrow> (\<exists>v. x = Some v \<and> (v = w \<or> alike v w))"

definition woken_since :: "('w \<Rightarrow> 'w \<Rightarrow> bool) \<Rightarrow> 'w \<Rightarrow> 'w aw \<Rightarrow> bool" where
  "woken_since alike w s \<longleftrightarrow> (\<exists>v \<in> set (drop (aw_since s) (aw_woken s)). same alike w (Some v))"

text \<open>A thread that has taken the waker and will wake it, and one that will take it.\<close>

definition carried :: "('w \<Rightarrow> 'w \<Rightarrow> bool) \<Rightarrow> 'w \<Rightarrow> 'w aw \<Rightarrow> bool" where
  "carried alike w s \<longleftrightarrow> (\<exists>i x. (aw_threads s i = Some (Tk_and x) \<or> aw_threads s i = Some (Tk_wake x)) \<and> same alike w x)"

definition comes :: "'w aw \<Rightarrow> bool" where
  "comes s \<longleftrightarrow> (\<exists>i. aw_threads s i = Some Tk_or \<or> aw_threads s i = Some Tk_slot)"

definition slot_has :: "('w \<Rightarrow> 'w \<Rightarrow> bool) \<Rightarrow> 'w \<Rightarrow> 'w aw \<Rightarrow> bool" where
  "slot_has alike w s \<longleftrightarrow> same alike w (aw_slot (aw_cell s))"

definition reached :: "('w \<Rightarrow> 'w \<Rightarrow> bool) \<Rightarrow> 'w \<Rightarrow> 'w aw \<Rightarrow> bool" where
  "reached alike w s \<longleftrightarrow> woken_since alike w s \<or> carried alike w s"

fun task_ok :: "('w \<Rightarrow> 'w \<Rightarrow> bool) \<Rightarrow> 'w aw \<Rightarrow> 'w task \<Rightarrow> bool" where
  "task_ok alike s (In_register (Rg_publish d w x)) \<longleftrightarrow> slot_has alike w s"
| "task_ok alike s (In_register (Rw_take w x)) \<longleftrightarrow> slot_has alike w s"
| "task_ok alike s (In_register (Rw_swap w t x)) \<longleftrightarrow> same alike w t"
| "task_ok alike s (In_register (Rw_wake w t x)) \<longleftrightarrow> same alike w t"
| "task_ok alike s (In_register (Rg_back w)) \<longleftrightarrow> reached alike w s \<or> slot_has alike w s"
| "task_ok alike s (Parked w) \<longleftrightarrow> reached alike w s \<or> slot_has alike w s \<and> (aw_ready s \<longrightarrow> comes s)"
| "task_ok alike s _ \<longleftrightarrow> True"

definition aw_inv :: "('w \<Rightarrow> 'w \<Rightarrow> bool) \<Rightarrow> 'w aw \<Rightarrow> bool" where
  "aw_inv alike s \<longleftrightarrow> cell_ok s \<and> aw_since s \<le> length (aw_woken s) \<and> task_ok alike s (aw_task s)"

lemma woken_more:
  assumes "aw_since s \<le> length (aw_woken s)"
  shows "woken_since alike w (s\<lparr>aw_cell := c, aw_task := t, aw_woken := aw_woken s @ ws\<rparr>) \<longleftrightarrow>
    woken_since alike w s \<or> (\<exists>v \<in> set ws. same alike w (Some v))"
  using assms by (auto simp: woken_since_def)

lemma same_woken: "same alike w x \<Longrightarrow> \<exists>v \<in> set (woken_of x). same alike w (Some v)"
  by (auto simp: same_def woken_of_def)

lemma register_access_task:
  assumes "aw_inv alike s" and "aw_task s = In_register t" and "register_step alike panics (t, aw_cell s) = (t', c', ws)"
  defines "s' \<equiv> s\<lparr>aw_cell := c', aw_task := In_register t', aw_woken := aw_woken s @ ws\<rparr>"
  shows "task_ok alike s' (In_register t')"
proof -
  have ok: "aw_since s \<le> length (aw_woken s)" "task_ok alike s (In_register t)" using assms(1,2) by (auto simp: aw_inv_def)
  have c: "carried alike w s' = carried alike w s" for w by (simp add: carried_def s'_def)
  note m = woken_more [OF ok(1), where alike = alike and c = c' and t = "In_register t'" and ws = ws, folded s'_def]
  show ?thesis
  proof (cases t)
    case (Rg_cas d w)
    then show ?thesis using assms(3) m [where w = w] by (auto simp: reached_def same_def split: if_splits)
  next
    case (Rg_slot d w)
    then show ?thesis using assms(3) by (auto simp: slot_has_def s'_def same_def split: if_splits option.splits)
  next
    case (Rg_publish d w x)
    then show ?thesis using assms(3) ok(2) by (auto simp: slot_has_def s'_def split: if_splits)
  next
    case (Rw_take w x)
    then show ?thesis using assms(3) ok(2) by (auto simp: slot_has_def)
  next
    case (Rw_wake w y x)
    then show ?thesis using assms(3) ok(2) m [where w = w] same_woken [of alike w y] by (auto simp: reached_def)
  next
    case (Rg_back w)
    then show ?thesis using assms(3) ok(2) m [where w = w] c [of w] by (auto simp: reached_def slot_has_def s'_def)
  qed (use assms(3) ok(2) in \<open>auto split: if_splits\<close>)
qed

lemma wake_access_reached:
  assumes "aw_since s \<le> length (aw_woken s)" and t: "aw_threads s i = Some t" and run: "take_step (t, aw_cell s) = (t', c', ws)"
    and "reached alike w s"
  defines "s' \<equiv> s\<lparr>aw_cell := c', aw_threads := (aw_threads s)(i \<mapsto> t'), aw_woken := aw_woken s @ ws\<rparr>"
  shows "reached alike w s'"
proof (cases "woken_since alike w s")
  case True
  then show ?thesis using assms(1) by (auto simp: reached_def woken_since_def s'_def)
next
  case False
  then obtain j x where x: "aw_threads s j = Some (Tk_and x) \<or> aw_threads s j = Some (Tk_wake x)" "same alike w x"
    using assms(4) by (auto simp: reached_def carried_def)
  show ?thesis
  proof (cases "j = i \<and> aw_threads s j = Some (Tk_wake x)")
    case True
    then have "ws = woken_of x" using t run by auto
    then show ?thesis using same_woken [OF x(2)] assms(1) by (auto simp: reached_def woken_since_def s'_def)
  next
    case False
    then have "aw_threads s' j = Some (Tk_and x) \<or> aw_threads s' j = Some (Tk_wake x)" using x(1) t run by (auto simp: s'_def)
    then show ?thesis using x(2) by (auto simp: reached_def carried_def)
  qed
qed

lemma wake_access_slot:
  assumes t: "aw_threads s i = Some t" and run: "take_step (t, aw_cell s) = (t', c', ws)" and "slot_has alike w s"
  defines "s' \<equiv> s\<lparr>aw_cell := c', aw_threads := (aw_threads s)(i \<mapsto> t'), aw_woken := aw_woken s @ ws\<rparr>"
  shows "if t = Tk_slot then reached alike w s' else slot_has alike w s'"
proof (cases "t = Tk_slot")
  case True
  then have "aw_threads s' i = Some (Tk_and (aw_slot (aw_cell s)))" using run by (auto simp: s'_def)
  then show ?thesis using assms(3) True by (auto simp: reached_def carried_def slot_has_def)
next
  case False
  then have "aw_slot c' = aw_slot (aw_cell s)" using run by (cases t) auto
  then show ?thesis using assms(3) False by (simp add: slot_has_def s'_def)
qed

lemma wake_access_comes:
  assumes ok: "cell_ok s" "\<not> reg_has (aw_task s)" and t: "aw_threads s i = Some t" "t \<noteq> Tk_slot"
    and run: "take_step (t, aw_cell s) = (t', c', ws)" and "slot_has alike w s" and "comes s"
  defines "s' \<equiv> s\<lparr>aw_cell := c', aw_threads := (aw_threads s)(i \<mapsto> t'), aw_woken := aw_woken s @ ws\<rparr>"
  shows "comes s'"
proof (cases "t = Tk_or")
  case False
  obtain j where j: "aw_threads s j = Some Tk_or \<or> aw_threads s j = Some Tk_slot" using assms(7) by (auto simp: comes_def)
  then have "j \<noteq> i" using t False by auto
  then show ?thesis using j by (auto simp: comes_def s'_def)
next
  case True
  note inv = ok(1) [unfolded cell_ok_def]
  show ?thesis
  proof (cases "aw_state (aw_cell s) = 0")
    case free: True
    then have "t' = Tk_slot" using run True by (auto simp: aw_words)
    then show ?thesis by (auto simp: comes_def s'_def)
  next
    case False
    then have "aw_state (aw_cell s) = 2" using cell_invD(5) [OF inv] ok(2) by (auto split: if_splits)
    then obtain j where j: "tk_has (aw_threads s j)" using cell_invD(4) [OF inv] by auto
    have "aw_threads s j = Some Tk_slot"
      using j cell_invD(3) [OF inv, of j] assms(6) by (auto simp: tk_has_def slot_has_def same_def)
    moreover have "j \<noteq> i" using j t True by auto
    ultimately show ?thesis by (auto simp: comes_def s'_def)
  qed
qed

lemma wake_access_task:
  assumes "aw_inv alike s" and t: "aw_threads s i = Some t" and run: "take_step (t, aw_cell s) = (t', c', ws)"
  defines "s' \<equiv> s\<lparr>aw_cell := c', aw_threads := (aw_threads s)(i \<mapsto> t'), aw_woken := aw_woken s @ ws\<rparr>"
  shows "task_ok alike s' (aw_task s)"
proof -
  have ok: "cell_ok s" "aw_since s \<le> length (aw_woken s)" "task_ok alike s (aw_task s)" using assms(1) by (auto simp: aw_inv_def)
  have free: "t = Tk_slot \<Longrightarrow> \<not> reg_has (aw_task s)" using cell_invD(1) [OF ok(1) [unfolded cell_ok_def], of i] t by simp
  note keep = wake_access_reached [OF ok(2) t run, of alike, folded s'_def] and slot = wake_access_slot [OF t run, of alike, folded s'_def]
  show ?thesis
  proof (cases "aw_task s")
    case Idle
    then show ?thesis by simp
  next
    case (In_register r)
    show ?thesis
    proof (cases r)
      case (Rg_publish d w x)
      then show ?thesis using In_register ok(3) slot [of w] free by (auto split: if_splits)
    next
      case (Rw_take w x)
      then show ?thesis using In_register ok(3) slot [of w] free by (auto split: if_splits)
    next
      case (Rg_back w)
      then show ?thesis using In_register ok(3) slot [of w] keep [of w] by (auto split: if_splits)
    qed (use In_register ok(3) in auto)
  next
    case (Parked w)
    have r: "\<not> reg_has (aw_task s)" using Parked by simp
    note more = wake_access_comes [OF ok(1) r t _ run, of alike w, folded s'_def]
    have e: "aw_ready s' = aw_ready s" by (simp add: s'_def)
    from ok(3) Parked consider "reached alike w s" | "slot_has alike w s" "t = Tk_slot" | "slot_has alike w s" "t \<noteq> Tk_slot" "aw_ready s \<longrightarrow> comes s"
      by auto
    then show ?thesis
    proof cases
      case 1
      then show ?thesis using keep [of w] Parked by simp
    next
      case 2
      then show ?thesis using slot [of w] Parked by simp
    next
      case 3
      then show ?thesis using slot [of w] more Parked e by simp
    qed
  qed
qed

lemma task_ok_threads:
  assumes "task_ok alike r t" and "\<And>w. carried alike w r \<Longrightarrow> carried alike w r'" and "aw_cell r' = aw_cell r"
    and "aw_woken r' = aw_woken r" and "aw_since r' = aw_since r" and "(aw_ready r \<longrightarrow> comes r) \<Longrightarrow> (aw_ready r' \<longrightarrow> comes r')"
  shows "task_ok alike r' t"
  using assms by (cases "(alike, r, t)" rule: task_ok.cases) (auto simp: slot_has_def reached_def woken_since_def)

lemma carried_upd:
  assumes "carried alike w r" and "aw_threads r i = None \<or> aw_threads r i = Some Tk_done"
    and "aw_threads r' = (aw_threads r)(i := x)"
  shows "carried alike w r'"
proof -
  obtain j y where j: "aw_threads r j = Some (Tk_and y) \<or> aw_threads r j = Some (Tk_wake y)" "same alike w y"
    using assms(1) by (auto simp: carried_def)
  then have "j \<noteq> i" using assms(2) by auto
  then show ?thesis using j assms(3) by (auto simp: carried_def)
qed

lemma comes_upd:
  assumes "comes r" and "aw_threads r i = Some Tk_done" and "aw_threads r' = (aw_threads r)(i := x)"
  shows "comes r'"
proof -
  obtain j where j: "aw_threads r j = Some Tk_or \<or> aw_threads r j = Some Tk_slot" using assms(1) by (auto simp: comes_def)
  then have "j \<noteq> i" using assms(2) by auto
  then show ?thesis using j assms(3) by (auto simp: comes_def)
qed

lemma cell_step_inv:
  assumes "cell_step alike s s'" and "aw_inv alike s"
  shows "aw_inv alike s'"
proof -
  have c: "cell_ok s'" using cell_step_ok [OF assms(1)] assms(2) by (simp add: aw_inv_def)
  have "aw_since s' \<le> length (aw_woken s') \<and> task_ok alike s' (aw_task s')"
    using assms
  proof (induction rule: cell_step.cases)
    case (register_access r t panics t' c' ws)
    then show ?case using register_access_task [of alike r t panics t' c' ws] by (auto simp: aw_inv_def)
  next
    case (wake_access r i t t' c' ws)
    then show ?case using wake_access_task [of alike r i t t' c' ws] by (auto simp: aw_inv_def)
  next
    case (wake_call r i)
    have "comes s'" using wake_call(2) unfolding comes_def by (intro exI [of _ i]) simp
    moreover have "carried alike w r \<Longrightarrow> carried alike w s'" for w using carried_upd [of alike w r i s' "Some Tk_or"] wake_call by simp
    moreover have "task_ok alike r (aw_task r)" using wake_call by (simp add: aw_inv_def)
    ultimately have "task_ok alike s' (aw_task r)"
      using task_ok_threads [of alike r "aw_task r" s'] wake_call(2) by simp
    then show ?case using wake_call by (simp add: aw_inv_def)
  next
    case (wake_return r i)
    have "comes r \<Longrightarrow> comes s'" using comes_upd [of r i s' None] wake_return by simp
    moreover have "carried alike w r \<Longrightarrow> carried alike w s'" for w using carried_upd [of alike w r i s' "None"] wake_return by simp
    moreover have "task_ok alike r (aw_task r)" using wake_return by (simp add: aw_inv_def)
    ultimately have "task_ok alike s' (aw_task r)"
      using task_ok_threads [of alike r "aw_task r" s'] wake_return(2) by simp
    then show ?case using wake_return by (simp add: aw_inv_def)
  qed (auto simp: aw_inv_def slot_has_def reached_def woken_since_def carried_def)
  then show ?thesis using c by (simp add: aw_inv_def)
qed

lemma cell_run:
  assumes "(cell_step alike)\<^sup>*\<^sup>* aw_new s"
  shows "aw_inv alike s"
  using assms
proof (induction rule: rtranclp_induct)
  case base
  then show ?case using cell_new_ok by (simp add: aw_inv_def aw_new_def)
next
  case (step s s')
  then show ?case using cell_step_inv by blast
qed

subsection \<open>Several registrants\<close>

definition rg_has :: "'w registering option \<Rightarrow> bool" where
  "rg_has t \<longleftrightarrow> (\<exists>r. t = Some r \<and> reg_has (In_register r))"

definition rg_met :: "'w registering option \<Rightarrow> bool" where
  "rg_met t \<longleftrightarrow> (\<exists>r. t = Some r \<and> reg_met (In_register r))"

lemma rg_simps [simp]:
  "\<not> rg_has None" "\<not> rg_met None" "rg_has (Some r) = reg_has (In_register r)" "rg_met (Some r) = reg_met (In_register r)"
  by (simp_all add: rg_has_def rg_met_def)

lemma rg_met_has: "rg_met t \<Longrightarrow> rg_has t"
  by (auto simp: rg_met_def rg_has_def elim: reg_met.elims)

text \<open>The invariant of the cell, with one registration at most that has the slot.\<close>

definition shared_ok :: "'w shared \<Rightarrow> bool" where
  "shared_ok s \<longleftrightarrow>
     cell_inv (aw_state (sh_cell s)) (aw_slot (sh_cell s)) (\<exists>i. rg_has (sh_regs s i)) (\<exists>i. rg_met (sh_regs s i)) (sh_threads s)
     \<and> (\<forall>i j. rg_has (sh_regs s i) \<longrightarrow> rg_has (sh_regs s j) \<longrightarrow> i = j)"

fun at_slot :: "'w shared \<Rightarrow> nat + nat \<Rightarrow> bool" where
  "at_slot s (Inl i) \<longleftrightarrow> (\<exists>d w x. sh_regs s i \<in> {Some (Rg_slot d w), Some (Rw_take w x), Some Ab_take})"
| "at_slot s (Inr i) \<longleftrightarrow> sh_threads s i = Some Tk_slot"

lemma at_slot_has: "at_slot s p \<Longrightarrow> (case p of Inl i \<Rightarrow> rg_has (sh_regs s i) | Inr i \<Rightarrow> tk_has (sh_threads s i))"
  by (cases p) auto

lemma shared_one:
  assumes ok: "shared_ok s" and p: "case p of Inl i \<Rightarrow> rg_has (sh_regs s i) | Inr i \<Rightarrow> tk_has (sh_threads s i)"
    and q: "case q of Inl i \<Rightarrow> rg_has (sh_regs s i) | Inr i \<Rightarrow> tk_has (sh_threads s i)"
  shows "p = q"
proof -
  note inv = cell_invD [OF ok [unfolded shared_ok_def, THEN conjunct1]]
  show ?thesis using p q inv(1,2) ok by (cases p; cases q) (auto simp: shared_ok_def)
qed

text \<open>A registration's step is the single registrant's: the others do not have the slot while it has, or is given, it.\<close>

lemma shared_register:
  assumes ok: "shared_ok s" and t: "sh_regs s i = Some t" and run: "register_step alike panics (t, sh_cell s) = (t', c', ws)"
  shows "shared_ok (s\<lparr>sh_cell := c', sh_regs := (sh_regs s)(i \<mapsto> t')\<rparr>)"
proof (cases "reg_has (In_register t) \<or> reg_has (In_register t')")
  case False
  then have "c' = sh_cell s" using run by (cases t) (auto split: if_splits option.splits)
  moreover have "rg_has (((sh_regs s)(i \<mapsto> t')) j) = rg_has (sh_regs s j)" "rg_met (((sh_regs s)(i \<mapsto> t')) j) = rg_met (sh_regs s j)" for j
    using False t rg_met_has [of "Some t"] rg_met_has [of "Some t'"] by auto
  ultimately show ?thesis using ok by (simp add: shared_ok_def)
next
  case True
  define r :: "'a aw" where "r = \<lparr>aw_cell = sh_cell s, aw_task = In_register t, aw_threads = sh_threads s,
    aw_ready = False, aw_woken = [], aw_since = 0\<rparr>"
  have inv: "cell_inv (aw_state (sh_cell s)) (aw_slot (sh_cell s)) (\<exists>i. rg_has (sh_regs s i)) (\<exists>i. rg_met (sh_regs s i)) (sh_threads s)"
    and one: "\<And>i j. rg_has (sh_regs s i) \<Longrightarrow> rg_has (sh_regs s j) \<Longrightarrow> i = j" using ok by (auto simp: shared_ok_def)
  have others: "\<not> rg_has (sh_regs s j)" if "j \<noteq> i" for j
  proof (cases "reg_has (In_register t)")
    case True
    then show ?thesis using one [of i j] that t by auto
  next
    case False
    then have "aw_state (sh_cell s) = 0" using True run by (cases t) (auto simp: aw_words split: if_splits option.splits)
    then show ?thesis using cell_invD(5) [OF inv] by (auto split: if_splits)
  qed
  have "(\<exists>j. rg_has (sh_regs s j)) = reg_has (In_register t)" "(\<exists>j. rg_met (sh_regs s j)) = reg_met (In_register t)"
    using others t rg_met_has by (metis rg_simps(3), metis rg_simps(4))
  then have "cell_ok r" using inv by (simp add: cell_ok_def r_def)
  from register_access_cell [OF this, of t alike panics t' c' ws "[]"] run
  have n: "cell_inv (aw_state c') (aw_slot c') (reg_has (In_register t')) (reg_met (In_register t')) (sh_threads s)"
    by (simp add: cell_ok_def r_def)
  have "(\<exists>j. rg_has (((sh_regs s)(i \<mapsto> t')) j)) = reg_has (In_register t')" "(\<exists>j. rg_met (((sh_regs s)(i \<mapsto> t')) j)) = reg_met (In_register t')"
    using others rg_met_has by (metis fun_upd_other fun_upd_same rg_simps(3), metis fun_upd_other fun_upd_same rg_simps(4))
  then show ?thesis using n others by (auto simp: shared_ok_def)
qed

lemma shared_idle_register:
  assumes "shared_ok s" and "\<not> rg_has (sh_regs s i)" and "\<not> rg_has x"
  shows "shared_ok (s\<lparr>sh_regs := (sh_regs s)(i := x)\<rparr>)"
proof -
  have "rg_has (((sh_regs s)(i := x)) j) = rg_has (sh_regs s j)" "rg_met (((sh_regs s)(i := x)) j) = rg_met (sh_regs s j)" for j
    using assms(2,3) rg_met_has [of x] rg_met_has [of "sh_regs s i"] by auto
  then show ?thesis using assms(1) by (simp add: shared_ok_def)
qed

lemma shared_wake:
  assumes "shared_ok s" and "sh_threads s i = Some t" and "take_step (t, sh_cell s) = (t', c', ws)"
  shows "shared_ok (s\<lparr>sh_cell := c', sh_threads := (sh_threads s)(i \<mapsto> t')\<rparr>)"
  using wake_access_inv [where th = "sh_threads s", OF _ assms(2,3)] assms(1) by (simp add: shared_ok_def)

lemma shared_idle_wake:
  assumes ok: "shared_ok s" and "\<not> tk_has (sh_threads s i)" and "\<not> tk_has x"
  shows "shared_ok (s\<lparr>sh_threads := (sh_threads s)(i := x)\<rparr>)"
proof -
  note inv = ok [unfolded shared_ok_def, THEN conjunct1]
  have "tk_has (((sh_threads s)(i := x)) j) = tk_has (sh_threads s j)" for j using assms(2,3) by auto
  moreover have "aw_slot (sh_cell s) = None" if "((sh_threads s)(i := x)) j = Some (Tk_and y)" for j y
    using that assms(3) cell_invD(3) [OF inv, of j y] by (auto split: if_splits)
  ultimately have "cell_inv (aw_state (sh_cell s)) (aw_slot (sh_cell s)) (\<exists>i. rg_has (sh_regs s i)) (\<exists>i. rg_met (sh_regs s i))
      ((sh_threads s)(i := x))"
    by (intro cell_inv_same [OF inv])
  then show ?thesis using ok by (simp add: shared_ok_def)
qed

lemma shared_step_ok: "shared_step alike s s' \<Longrightarrow> shared_ok s \<Longrightarrow> shared_ok s'"
  by (induction rule: shared_step.induct)
    (auto intro: shared_idle_register shared_register shared_idle_wake shared_wake)

lemma shared_run: "(shared_step alike)\<^sup>*\<^sup>* shared_new s \<Longrightarrow> shared_ok s"
proof (induction rule: rtranclp_induct)
  case base
  show ?case by (simp add: shared_ok_def shared_new_def cell_inv_def cell_new_def aw_words)
next
  case (step y z)
  then show ?case using shared_step_ok by blast
qed

subsection \<open>Properties\<close>

text \<open>C4: No wake is lost.  However one task that registers and any number of threads that set the flag and wake
  interleave, once the task has registered its waker and then found the flag not set, its waker (or one
  that wakes the same task) has been called since it began to register, or a thread has taken it and will
  call it, or it is in the cell, and if the flag is set by now a thread is on its way to take it.\<close>

theorem waker_no_lost_wake:
  assumes "(cell_step alike)\<^sup>*\<^sup>* aw_new s" and "aw_task s = Parked w"
  shows "woken_since alike w s \<or> carried alike w s \<or> slot_has alike w s \<and> (aw_ready s \<longrightarrow> comes s)"
  using cell_run [OF assms(1)] assms(2) by (auto simp: aw_inv_def reached_def)

lemma parked_run:
  "\<exists>s. (cell_step (=))\<^sup>*\<^sup>* (aw_new :: nat aw) s \<and> aw_task s = Parked 5 \<and> aw_woken s = [] \<and> aw_threads s = (\<lambda>_. None)"
proof -
  let ?a = "aw_new\<lparr>aw_task := In_register (Rg_cas Plain 5), aw_since := 0\<rparr> :: nat aw"
  let ?b = "?a\<lparr>aw_cell := \<lparr>aw_state = 1, aw_slot = None\<rparr>, aw_task := In_register (Rg_slot Plain 5), aw_woken := []\<rparr>"
  let ?c = "?a\<lparr>aw_cell := \<lparr>aw_state = 1, aw_slot = Some 5\<rparr>, aw_task := In_register (Rg_publish Plain 5 None), aw_woken := []\<rparr>"
  let ?d = "?a\<lparr>aw_cell := \<lparr>aw_state = 0, aw_slot = Some 5\<rparr>, aw_task := In_register (Rg_back 5), aw_woken := []\<rparr>"
  have 1: "cell_step (=) aw_new ?a" using cell_step.register_call [of aw_new 0 "(=)" Plain 5] by (simp add: aw_new_def)
  have 2: "cell_step (=) ?a ?b"
    using cell_step.register_access [of ?a "Rg_cas Plain 5" "(=)" False] by (simp add: aw_new_def cell_new_def aw_words)
  have 3: "cell_step (=) ?b ?c" using cell_step.register_access [of ?b "Rg_slot Plain 5" "(=)" False] by (simp add: aw_new_def)
  have 4: "cell_step (=) ?c ?d" using cell_step.register_access [of ?c "Rg_publish Plain 5 None" "(=)" False] by (simp add: aw_new_def aw_words)
  have 5: "cell_step (=) ?d (?d\<lparr>aw_task := Parked 5\<rparr>)" using cell_step.look_not [of ?d 5] by (simp add: aw_new_def)
  have "(cell_step (=))\<^sup>*\<^sup>* aw_new (?d\<lparr>aw_task := Parked 5\<rparr>)"
    using 1 2 3 4 5 by (meson rtranclp.rtrancl_refl rtranclp.rtrancl_into_rtrancl)
  then show ?thesis by (intro exI [of _ "?d\<lparr>aw_task := Parked 5\<rparr>"]) (simp add: aw_new_def)
qed

theorem waker_no_lost_wake_witness:
  "\<exists>s. (cell_step (=))\<^sup>*\<^sup>* (aw_new :: nat aw) s \<and> aw_task s = Parked 5 \<and> slot_has (=) 5 s"
proof -
  obtain s where s: "(cell_step (=))\<^sup>*\<^sup>* (aw_new :: nat aw) s" "aw_task s = Parked 5" "aw_woken s = []" "aw_threads s = (\<lambda>_. None)"
    using parked_run by blast
  have "\<not> woken_since (=) 5 s" "\<not> carried (=) 5 s" using s(3,4) by (auto simp: woken_since_def carried_def)
  then show ?thesis using waker_no_lost_wake [OF s(1,2)] s(1,2) by blast
qed

text \<open>C24: The slot is one thread's at a time.  Among any number of registrations and of wakes that share the cell,
  in any interleaving, no two are about to touch the slot.\<close>

theorem waker_slot_exclusive:
  assumes "(shared_step alike)\<^sup>*\<^sup>* shared_new s" and "at_slot s p" and "at_slot s q"
  shows "p = q"
  using shared_one [OF shared_run [OF assms(1)] at_slot_has [OF assms(2)] at_slot_has [OF assms(3)]] .

theorem waker_slot_exclusive_witness:
  "\<exists>s. (shared_step (=))\<^sup>*\<^sup>* (shared_new :: nat shared) s \<and> sh_regs s 0 = Some (Rg_slot Plain 5)
     \<and> sh_regs s 1 = Some (Rg_cas Displacing 6) \<and> at_slot s (Inl 0) \<and> \<not> at_slot s (Inl 1)"
proof -
  let ?a = "shared_new\<lparr>sh_regs := (\<lambda>_. None)(0 \<mapsto> Rg_cas Plain 5)\<rparr> :: nat shared"
  let ?b = "?a\<lparr>sh_regs := (sh_regs ?a)(1 \<mapsto> Rg_cas Displacing 6)\<rparr>"
  let ?c = "?b\<lparr>sh_cell := \<lparr>aw_state = 1, aw_slot = None\<rparr>, sh_regs := (sh_regs ?b)(0 \<mapsto> Rg_slot Plain 5)\<rparr>"
  have 1: "shared_step (=) shared_new ?a"
    using shared_step.register_call [of shared_new 0 "(=)" Plain 5] by (simp add: shared_new_def)
  have 2: "shared_step (=) ?a ?b" using shared_step.register_call [of ?a 1 "(=)" Displacing 6] by (simp add: shared_new_def)
  have 3: "shared_step (=) ?b ?c"
    using shared_step.register_access [of ?b 0 "Rg_cas Plain 5" "(=)" False] by (simp add: shared_new_def cell_new_def aw_words)
  have r: "(shared_step (=))\<^sup>*\<^sup>* shared_new ?c"
    using 1 2 3 by (meson rtranclp.rtrancl_refl rtranclp.rtrancl_into_rtrancl)
  have "at_slot ?c (Inl 0)" by simp
  from waker_slot_exclusive [OF r this, of "Inl 1"] this r show ?thesis by (intro exI [of _ ?c]) auto
qed

text \<open>How many accesses an operation has left to make, at most.\<close>

fun reg_left :: "'w registering \<Rightarrow> nat" where
  "reg_left (Rg_cas d w) = 6"
| "reg_left (Rg_slot d w) = 5"
| "reg_left (Rg_publish d w x) = 4"
| "reg_left (Rw_take w x) = 3"
| "reg_left (Rw_swap w t x) = 2"
| "reg_left (Rw_wake w t x) = 1"
| "reg_left Ab_cas = 4"
| "reg_left Ab_take = 3"
| "reg_left (Ab_swap t) = 2"
| "reg_left (Ab_wake t) = 1"
| "reg_left _ = 0"

fun wake_left :: "'w waking \<Rightarrow> nat" where
  "wake_left Tk_or = 4"
| "wake_left Tk_slot = 3"
| "wake_left (Tk_and x) = 2"
| "wake_left (Tk_wake x) = 1"
| "wake_left Tk_done = 0"

text \<open>C38: Every operation is wait-free: whatever the cell holds when it gets there, each access of a
  registration or of a wake leaves it fewer accesses to make, at most six in all for a registration and
  four for a wake.\<close>

theorem waker_wait_free:
  "reg_left (fst (register_step alike panics (t, c))) \<le> reg_left t - 1
   \<and> wake_left (fst (take_step (u, c))) \<le> wake_left u - 1 \<and> reg_left (Rg_cas d w) = 6 \<and> wake_left Tk_or = 4"
  by (cases t; cases u) (auto split: option.splits)

end
