(* ===== verification/Spec2Isabelle.thy ===== *)
theory Spec2Isabelle
  imports Wheel_Spec Coop Local_Sem_Wake Local_Mutex Local_Oneshot Local_Mpsc_Spec Io_Copy_Spec Atomic_Waker_Spec
begin

text \<open>
  Verification of the nuclei runtime, an executor of one thread per core (a shard).  A shard polls tasks;
  a task that has to wait leaves its waker with what it waits for (a timer, a lock, a channel, a stream)
  and is polled again when that waker is called.  What the parts modelled here promise is, in the end, that
  no such wake is lost, that none comes for the wrong reason, and that data goes through unchanged.

  \<^bold>\<open>Conventions.\<close>  \<open>Prelude\<close>: \<open>u64\<close> and \<open>u32\<close> are words and wrap as the source does in release; \<open>usize\<close> is a
  \<open>nat\<close> with its bound written out where it matters; a panic is a value \<open>Inl\<close>; \<open>poll\<close> is the type of
  the language.  A waker is code of the user: its calls (clone, wake, drop) are a parameter \<open>u\<close> of every
  operation that makes them and may do anything to the state, within what a lemma assumes of it.  A loop
  that such code could prolong is a \<open>partial_function (option)\<close>, and that it returns is proved.

  \<^bold>\<open>Timers.\<close>  \<open>Wheel\<close> is \<open>src/src/time/wheel.rs\<close>: the slab of entries, six levels of 64 slots with
  doubly linked lists, the free list, and \<open>insert\<close>, \<open>remove\<close>, \<open>replace_waker\<close>, \<open>next_deadline\<close>, \<open>advance\<close>.
  \<open>Wheel_Arith\<close> is what the bit operations compute, \<open>Wheel_Inv\<close> and \<open>Wheel_Ops\<close> the well-formedness of the slab and
  that operations keep it, \<open>Wheel_Advance\<close> the loop of \<open>advance\<close>, \<open>Wheel_Spec\<close> the contract \<open>timer_store\<close>:
  timers fire once, not early, not after a cancel of their key, and by the first advance past their deadline.

  \<^bold>\<open>Cooperation.\<close>  \<open>Coop\<close> is \<open>src/src/coop.rs\<close>: the budget of 128 operations a task's poll may complete, and the
  context \<open>ctx\<close> that the states of the local primitives extend.  It also says what it is to hear of wakes:
  code of the user records them in its part of the state, and \<open>told log w s s'\<close> is that \<open>w\<close> was called between two
  states.

  \<^bold>\<open>Primitives of one shard\<close>, \<open>src/src/sync/local/\<close>.  \<open>Waiters\<close> is \<open>waiters.rs\<close>, the slab FIFO of waiters;
  \<open>Waiters_Line\<close> relates it to a line of keys.  \<open>Local_Semaphore\<close> is \<open>semaphore.rs\<close> and the operations of
  \<open>mutex.rs\<close>; \<open>Local_Sem_Spec\<close> shows service in order and that no request that fits is left at the front,
  \<open>Local_Sem_Wake\<close> that whoever polled to pending is woken when the wait ends, \<open>Local_Slots\<close> the ledger of
  permits (contract \<open>ledger\<close>), which \<open>Local_Mutex\<close> and \<open>Local_Mpsc_Spec\<close> interpret.  \<open>Local_Oneshot\<close> is \<open>oneshot.rs\<close>, with
  the value delivered once and the waker of a pending receive kept or called;
  \<open>Local_Mpsc\<close> is \<open>mpsc/\<close>, both flavours over one queue.

  \<^bold>\<open>A waker shared by threads.\<close>  \<open>Atomic_Waker\<close> is \<open>src/src/sync/atomic_waker.rs\<close>: every operation is cut at each
  access of the state word and of the slot, and \<open>cell_step\<close> interleaves one registering task with any number
  of waking threads, \<open>shared_step\<close> any number of both.  \<open>Atomic_Waker_Spec\<close>: the slot is one thread's at a time, no wake is lost, and an operation
  ends within six accesses of its own.

  \<^bold>\<open>Streams\<close>, \<open>src/src/io/util/\<close>.  The streams inside are parameters; the contracts \<open>byte_source\<close>, \<open>byte_sink\<close> and
  \<open>buf_source\<close> say what one that behaves does.  \<open>Io_Read\<close> is \<open>read_buf.rs\<close> and \<open>read_ext.rs\<close>, \<open>Io_Write\<close>
  \<open>write_ext.rs\<close>, \<open>Io_Pipe\<close> \<open>duplex.rs\<close>, \<open>Io_Buffered\<close> \<open>buffered.rs\<close>, \<open>Io_Bufread\<close> \<open>buf_read_ext.rs\<close>, \<open>Io_Copy\<close> \<open>copy.rs\<close>
  and \<open>misc.rs\<close>.  The pipe is cut at every access of what its sides share, and its theorems hold for every
  interleaving; it is also the instance on which each contract is interpreted, alone and under chains,
  buffers and copies.  A poll of one side of a pipe makes at most ten accesses, so ten steps of
  \<open>reader_step\<close> or \<open>writer_step\<close> are a whole poll.  The \<open>_Spec\<close> theories show that bytes arrive once, in order
  and complete, that loops return, that memory is read only when initialized, and that strings stay UTF-8.

  \<^bold>\<open>A divergence.\<close>  A reader of a pipe that looks at the count before the last write and at the flag after the
  close answers the end of the stream with a byte still in the ring (\<open>Io_Pipe_Spec\<close>, \<open>pipe_early_end\<close>).

  \<^bold>\<open>Memory model.\<close>  Interleavings are sequentially consistent: the orderings of the atomics are not modelled.

  \<^bold>\<open>Not modelled.\<close>  Panics of a waker inside the local primitives, and with them the guards that go on serving
  while they unwind (\<open>CloseRest\<close>, \<open>ServeRest\<close>, \<open>Restore\<close>): the user's code is a total function there.  The
  scheduler, tasks and join handles (\<open>src/src/rt/\<close>): thread-local state and raw reference-counted
  allocations.  Drivers, files, sockets, processes and signals: what they do is what the kernel answers.
  The sleeps and the clock above the wheel.  The other locks and channels shared by threads
  (\<open>src/src/sync/\<close>): intrusive nodes under weak memory orderings.  Buffers registered with the kernel, macros,
  configuration and statistics.
\<close>

end
